(* ===== verification/Prelude.thy ===== *)
theory Prelude
  imports Main "HOL-Library.AList" "HOL-Library.Word"
begin

text \<open>
  Shared vocabulary of the development.

  \<^item> A Go map is an association list with distinct keys (\<open>gomap_ok\<close>): \<open>map_of\<close> is
    the lookup, \<open>AList.update\<close> the store and \<open>AList.delete\<close> the built-in \<open>delete\<close>.
    The order of the list is the order in which one \<open>range\<close> loop visits the entries; Go
    leaves it unspecified, so statements about a loop quantify over every such list.
  \<^item> A Go call that can return an error and can also panic has a result of type \<open>go\<close>.
  \<^item> \<open>slot_owner\<close> is the contract of an allocator that hands out exclusive slots
    (host-uid ranges, guest addresses): its client lemmas are proved once here.
\<close>

unbundle bit_operations_syntax

named_theorems gomap_simps \<open>rewriting of lookups in updated Go maps\<close>

type_synonym u8 = "8 word"
type_synonym u16 = "16 word"
type_synonym u32 = "32 word"
type_synonym u64 = "64 word"

section \<open>Results of Go calls\<close>

datatype ('e, 'a) go = Ok 'a | Err 'e | Panic

primrec go_bind :: "('e, 'a) go \<Rightarrow> ('a \<Rightarrow> ('e, 'b) go) \<Rightarrow> ('e, 'b) go" where
  "go_bind (Ok x) f = f x"
| "go_bind (Err e) f = Err e"
| "go_bind Panic f = Panic"

lemma go_bind_Ok [simp]: "go_bind r f = Ok y \<longleftrightarrow> (\<exists>x. r = Ok x \<and> f x = Ok y)"
  by (cases r) auto

lemma go_bind_Panic [simp]:
  "go_bind r f = Panic \<longleftrightarrow> r = Panic \<or> (\<exists>x. r = Ok x \<and> f x = Panic)"
  by (cases r) auto

section \<open>Characters\<close>

abbreviation ord :: "char \<Rightarrow> nat" where
  "ord c \<equiv> of_char c"

text \<open>The class \<^verbatim>\<open>[a-zA-Z0-9_-]\<close> of the identifier patterns.\<close>

definition id_char :: "char \<Rightarrow> bool" where
  "id_char c \<longleftrightarrow> (97 \<le> ord c \<and> ord c \<le> 122) \<or> (65 \<le> ord c \<and> ord c \<le> 90) \<or>
     (48 \<le> ord c \<and> ord c \<le> 57) \<or> c = CHR ''_'' \<or> c = CHR ''-''"

section \<open>Words\<close>

lemma unat_Suc_less: "(x :: 'a :: len word) < y \<Longrightarrow> unat (x + 1) = unat x + 1"
  by (metis (no_types, lifting) add.commute add_0 inc_i inc_le unat_plus_simple unsigned_0
      unsigned_1 word_gt_0)

text \<open>Clearing the low \<open>n\<close> bits rounds down to a multiple of \<open>2 ^ n\<close>.\<close>

lemma and_high_mask: "x AND push_bit n (- 1) = push_bit n (drop_bit n (x :: 'a :: len word))"
  by (rule bit_word_eqI) (auto simp: bit_simps)

lemma unat_clear_low: "unat (x AND push_bit n (- 1) :: 'a :: len word) = unat x div 2 ^ n * 2 ^ n"
proof -
  have "unat x div 2 ^ n * 2 ^ n < 2 ^ LENGTH('a)"
    using unsigned_less [of x, where ?'a = nat] by (meson div_times_less_eq_dividend le_less_trans)
  then have small: "take_bit LENGTH('a) (push_bit n (drop_bit n (unat x))) = unat x div 2 ^ n * 2 ^ n"
    by (simp add: push_bit_eq_mult drop_bit_eq_div take_bit_nat_eq_self)
  have "unat (push_bit n (drop_bit n x)) = take_bit LENGTH('a) (push_bit n (drop_bit n (unat x)))"
    by (simp add: unsigned_push_bit_eq unsigned_drop_bit_eq take_bit_nat_eq_self [OF unsigned_less])
  with small show ?thesis unfolding and_high_mask by simp
qed

section \<open>Go maps\<close>

type_synonym ('k, 'v) gomap = "('k \<times> 'v) list"

definition gomap_ok :: "('k, 'v) gomap \<Rightarrow> bool" where
  "gomap_ok m \<longleftrightarrow> distinct (map fst m)"

lemma gomap_ok_Nil [simp]: "gomap_ok []"
  by (simp add: gomap_ok_def)

lemma gomap_ok_update [intro]: "gomap_ok m \<Longrightarrow> gomap_ok (AList.update k v m)"
  by (simp add: gomap_ok_def distinct_update)

lemma gomap_ok_delete [intro]: "gomap_ok m \<Longrightarrow> gomap_ok (AList.delete k m)"
  by (simp add: gomap_ok_def distinct_delete)

lemma gomap_ok_filter [intro]: "gomap_ok m \<Longrightarrow> gomap_ok (filter P m)"
  by (simp add: gomap_ok_def distinct_map_filter)

lemma map_of_update [gomap_simps]:
  "map_of (AList.update k v m) = (map_of m)(k \<mapsto> v)"
  by (rule update_conv')

lemma map_of_delete [gomap_simps]:
  "map_of (AList.delete k m) = (map_of m)(k := None)"
  by (rule delete_conv')

lemma map_of_filter_keys [gomap_simps]:
  "map_of (filter (\<lambda>(k, v). P k) m) k = (if P k then map_of m k else None)"
  by (induction m) auto

lemma gomap_ok_mem: "gomap_ok m \<Longrightarrow> (k, v) \<in> set m \<longleftrightarrow> map_of m k = Some v"
  by (simp add: gomap_ok_def)

lemma gomap_values: "gomap_ok m \<Longrightarrow> set (map snd m) = ran (map_of m)"
  unfolding gomap_ok_def by (simp add: ran_distinct)

section \<open>Exclusive owners of slots\<close>

definition exclusive :: "('k \<rightharpoonup> 'v) \<Rightarrow> bool" where
  "exclusive h \<longleftrightarrow> (\<forall>a b v. h a = Some v \<longrightarrow> h b = Some v \<longrightarrow> a = b)"

lemma exclusive_empty [simp]: "exclusive Map.empty"
  by (simp add: exclusive_def)

lemma exclusive_upd: "exclusive h \<Longrightarrow> v \<notin> ran h \<Longrightarrow> exclusive (h(k \<mapsto> v))"
  unfolding exclusive_def by (auto simp: ran_def)

lemma exclusive_del [intro]: "exclusive h \<Longrightarrow> exclusive (h(k := None))"
  unfolding exclusive_def by auto

lemma exclusive_submap: "exclusive h \<Longrightarrow> h' \<subseteq>\<^sub>m h \<Longrightarrow> exclusive h'"
proof (unfold exclusive_def, intro allI impI)
  fix a b v assume ex: "\<forall>a b v. h a = Some v \<longrightarrow> h b = Some v \<longrightarrow> a = b"
    and le: "h' \<subseteq>\<^sub>m h" and ab: "h' a = Some v" "h' b = Some v"
  from le ab have "h a = Some v" "h b = Some v" by (auto simp: map_le_def dom_def)
  with ex show "a = b" by blast
qed

datatype 'k slot_op = Acquire 'k | Drop 'k

locale slot_owner =
  fixes acquire :: "'s \<Rightarrow> 'k \<Rightarrow> 'v option \<times> 's"
    and drop_slot :: "'s \<Rightarrow> 'k \<Rightarrow> 's"
    and holds :: "'s \<Rightarrow> 'k \<Rightarrow> 'v option"
    and invar :: "'s \<Rightarrow> bool"
  assumes acquire_held: "invar s \<Longrightarrow> holds s k = Some v \<Longrightarrow> acquire s k = (Some v, s)"
    and acquire_new: "invar s \<Longrightarrow> holds s k = None \<Longrightarrow> acquire s k = (Some v, s') \<Longrightarrow>
          v \<notin> ran (holds s) \<and> holds s' = (holds s)(k \<mapsto> v)"
    and acquire_none: "invar s \<Longrightarrow> acquire s k = (None, s') \<Longrightarrow> holds s' = holds s"
    and drop_holds: "invar s \<Longrightarrow> holds (drop_slot s k) = (holds s)(k := None)"
    and invar_acquire: "invar s \<Longrightarrow> invar (snd (acquire s k))"
    and invar_drop: "invar s \<Longrightarrow> invar (drop_slot s k)"
begin

primrec slot_step :: "'s \<Rightarrow> 'k slot_op \<Rightarrow> 's" where
  "slot_step s (Acquire k) = snd (acquire s k)"
| "slot_step s (Drop k) = drop_slot s k"

definition slot_run :: "'s \<Rightarrow> 'k slot_op list \<Rightarrow> 's" where
  "slot_run s ops = foldl slot_step s ops"

lemma slot_run_simps [simp]:
  "slot_run s [] = s" "slot_run s (x # xs) = slot_run (slot_step s x) xs"
  by (simp_all add: slot_run_def)

lemma acquire_cases:
  assumes "invar s"
  obtains (held) v where "holds s k = Some v" "acquire s k = (Some v, s)"
  | (fresh) v s' where "holds s k = None" "acquire s k = (Some v, s')"
      "v \<notin> ran (holds s)" "holds s' = (holds s)(k \<mapsto> v)"
  | (full) s' where "holds s k = None" "acquire s k = (None, s')" "holds s' = holds s"
proof (cases "holds s k")
  case (Some v)
  with assms held show thesis by (blast intro: acquire_held)
next
  case None
  obtain r s' where acq: "acquire s k = (r, s')" by fastforce
  show thesis
  proof (cases r)
    case None
    with acq have "acquire s k = (None, s')" by simp
    with assms \<open>holds s k = None\<close> show thesis by (blast intro: full acquire_none)
  next
    case (Some v)
    with acq have "acquire s k = (Some v, s')" by simp
    with acquire_new [OF assms \<open>holds s k = None\<close> this] \<open>holds s k = None\<close>
    show thesis by (blast intro: fresh)
  qed
qed

lemma acquire_exclusive:
  assumes "invar s" "exclusive (holds s)"
  shows "exclusive (holds (snd (acquire s k)))"
  using assms by (cases rule: acquire_cases [OF assms(1), of k]) (auto intro: exclusive_upd)

lemma acquire_result:
  assumes "invar s" "acquire s k = (Some v, s')"
  shows "holds s' k = Some v"
  using assms by (cases rule: acquire_cases [OF assms(1), of k]) auto

lemma invar_step: "invar s \<Longrightarrow> invar (slot_step s x)"
  by (cases x) (auto intro: invar_acquire invar_drop)

lemma step_exclusive: "invar s \<Longrightarrow> exclusive (holds s) \<Longrightarrow> exclusive (holds (slot_step s x))"
  by (cases x) (auto simp: drop_holds intro: acquire_exclusive)

lemma run_invar: "invar s \<Longrightarrow> invar (slot_run s xs)"
  by (induction xs arbitrary: s) (auto intro: invar_step)

lemma run_exclusive:
  "invar s \<Longrightarrow> exclusive (holds s) \<Longrightarrow> exclusive (holds (slot_run s xs))"
  by (induction xs arbitrary: s) (auto intro: invar_step step_exclusive)

lemma step_keeps:
  assumes "invar s" "holds s k = Some v" "x \<noteq> Drop k"
  shows "holds (slot_step s x) k = Some v"
proof (cases x)
  case (Acquire k')
  with assms show ?thesis
    by (cases rule: acquire_cases [OF assms(1), of k']) auto
next
  case (Drop k')
  with assms show ?thesis by (simp add: drop_holds)
qed

text \<open>A holder keeps its slot whatever the others do, until it drops the slot itself.\<close>

lemma run_keeps:
  "invar s \<Longrightarrow> holds s k = Some v \<Longrightarrow> Drop k \<notin> set xs \<Longrightarrow> holds (slot_run s xs) k = Some v"
proof (induction xs arbitrary: s)
  case (Cons x xs)
  have "holds (slot_step s x) k = Some v"
    using Cons.prems by (intro step_keeps) auto
  moreover have "invar (slot_step s x)"
    using Cons.prems(1) by (rule invar_step)
  ultimately show ?case
    using Cons.IH Cons.prems(3) by simp
qed simp

end

section \<open>Runs with a trace\<close>

text \<open>The states a labelled step relation reaches, with the labels in order.\<close>

inductive ev_run :: "('m \<Rightarrow> 'e \<Rightarrow> 'm \<Rightarrow> bool) \<Rightarrow> 'm \<Rightarrow> 'e list \<Rightarrow> 'm \<Rightarrow> bool" for step where
  ev_run_nil: "ev_run step m [] m"
| ev_run_snoc: "\<lbrakk>ev_run step m evs m1; step m1 ev m2\<rbrakk> \<Longrightarrow> ev_run step m (evs @ [ev]) m2"

lemma ev_run_invariant:
  assumes "ev_run step m evs m'" "P m" "\<And>x e y. P x \<Longrightarrow> step x e y \<Longrightarrow> P y"
  shows "P m'"
  using assms by (induction rule: ev_run.induct) blast+

lemma ev_run_one: "step m e m' \<Longrightarrow> ev_run step m [e] m'"
  using ev_run_snoc [OF ev_run_nil, of step m e m'] by simp

definition results :: "('e \<Rightarrow> 'k option) \<Rightarrow> 'e list \<Rightarrow> 'k list" where
  "results f evs = List.map_filter f evs"

lemma results_simps [simp]:
  "results f [] = []" "results f (xs @ ys) = results f xs @ results f ys"
  "results f (e # evs) = (case f e of None \<Rightarrow> results f evs | Some k \<Rightarrow> k # results f evs)"
  by (simp_all add: results_def map_filter_def split: option.splits)

text \<open>
  The contract of a store whose entries can be claimed once: a claim returns an entry that was
  not spent and spends it; no claim and no other operation makes a spent entry claimable again.
\<close>

locale claim_store =
  fixes invar :: "'m \<Rightarrow> bool"
    and spent :: "'m \<Rightarrow> 'k \<Rightarrow> bool"
    and step :: "'m \<Rightarrow> 'e \<Rightarrow> 'm \<Rightarrow> bool"
    and claim :: "'e \<Rightarrow> 'k option"
  assumes step_invar: "\<lbrakk>invar m; step m e m'\<rbrakk> \<Longrightarrow> invar m'"
    and claim_fresh: "\<lbrakk>invar m; step m e m'; claim e = Some k\<rbrakk> \<Longrightarrow> \<not> spent m k"
    and claim_spends: "\<lbrakk>invar m; step m e m'; claim e = Some k\<rbrakk> \<Longrightarrow> spent m' k"
    and spent_stays: "\<lbrakk>invar m; step m e m'; spent m k\<rbrakk> \<Longrightarrow> spent m' k"
begin

lemma run_claims:
  assumes "ev_run step m evs m'" "invar m"
  shows "invar m' \<and> distinct (results claim evs) \<and> (\<forall>k\<in>set (results claim evs). spent m' k)"
  using assms
proof (induction rule: ev_run.induct)
  case (ev_run_snoc m evs m1 ev m2)
  then have IH: "invar m1" "distinct (results claim evs)" "\<forall>k\<in>set (results claim evs). spent m1 k"
    by simp_all
  show ?case
  proof (cases "claim ev")
    case None
    then show ?thesis using IH ev_run_snoc.hyps(2) step_invar spent_stays by simp
  next
    case (Some k)
    have "k \<notin> set (results claim evs)"
      using claim_fresh [OF IH(1) ev_run_snoc.hyps(2) Some] IH(3) by blast
    then show ?thesis
      using IH ev_run_snoc.hyps(2) Some step_invar claim_spends spent_stays by simp
  qed
qed simp

end

end
