(* ===== verification/Uidalloc.thy ===== *)
theory Uidalloc
  imports Prelude
begin

text \<open>
  The host-uid range table of \<^verbatim>\<open>internal/uidalloc/uidalloc.go\<close>.

  The state is the table file. Its JSON content is kept at the level of the decoded value
  (\<open>Doc\<close>), next to the other things the file can be: missing, of size zero, or holding
  the torn prefix of a document. Every system call of \<open>mutate\<close> and \<open>write\<close> has an
  outcome in the record \<open>uid_io\<close>, so each error return of the source is a branch here.
\<close>

section \<open>Model\<close>

definition RangeSize :: nat where
  "RangeSize = 65536"

definition FirstBase :: nat where
  "FirstBase = 100000"

definition maxBase :: nat where
  "maxBase = 2 ^ 32 - RangeSize"

datatype uid_error = InvalidID | SpaceExhausted | MkdirFailed | OpenFailed | LockFailed
  | StatFailed | CorruptTable | TruncateFailed | WriteFailed | SyncFailed

definition idRe :: "string \<Rightarrow> bool" where
  "idRe s \<longleftrightarrow> s \<noteq> [] \<and> list_all id_char s"

type_synonym uid_alloc = "(string, u32) gomap"

text \<open>\<open>Doc None\<close> is a document whose \<open>allocations\<close> field is null or absent.\<close>

datatype table_file = Missing | Zero | Doc "uid_alloc option" | Torn

datatype write_outcome = WriteOk | WriteNothing | WritePartial

record uid_io =
  mkdir_ok :: bool
  open_ok :: bool
  flock_ok :: bool
  stat_ok :: bool
  trunc_ok :: bool
  write_at :: write_outcome
  sync_ok :: bool

definition io_healthy :: uid_io where
  "io_healthy = \<lparr>mkdir_ok = True, open_ok = True, flock_ok = True, stat_ok = True,
     trunc_ok = True, write_at = WriteOk, sync_ok = True\<rparr>"

definition uid_decode :: "bool \<Rightarrow> table_file \<Rightarrow> uid_error + uid_alloc" where
  "uid_decode stat f =
     (if \<not> stat then Inl StatFailed
      else case f of
        Missing \<Rightarrow> Inr []
      | Zero \<Rightarrow> Inr []
      | Doc None \<Rightarrow> Inr []
      | Doc (Some m) \<Rightarrow> Inr m
      | Torn \<Rightarrow> Inl CorruptTable)"

definition uid_write :: "uid_io \<Rightarrow> uid_alloc \<Rightarrow> table_file \<Rightarrow> uid_error option \<times> table_file" where
  "uid_write io st f =
     (if \<not> trunc_ok io then (Some TruncateFailed, f)
      else case write_at io of
        WriteNothing \<Rightarrow> (Some WriteFailed, Zero)
      | WritePartial \<Rightarrow> (Some WriteFailed, Torn)
      | WriteOk \<Rightarrow> (if \<not> sync_ok io then Some SyncFailed else None, Doc (Some st)))"

text \<open>
  \<open>fn\<close> is the closure: from the decoded table it gives the values of the variables it
  captures and either an error or the table to write back. \<open>r0\<close> is what the captured
  variables hold when the closure never runs.
\<close>

definition mutate ::
  "uid_io \<Rightarrow> 'r \<Rightarrow> (uid_alloc \<Rightarrow> 'r \<times> (uid_error + uid_alloc)) \<Rightarrow> table_file
    \<Rightarrow> ('r \<times> uid_error option) \<times> table_file" where
  "mutate io r0 fn f =
     (if \<not> mkdir_ok io then ((r0, Some MkdirFailed), f)
      else if \<not> open_ok io then ((r0, Some OpenFailed), f)
      else let f1 = (if f = Missing then Zero else f) in
        if \<not> flock_ok io then ((r0, Some LockFailed), f1)
        else case uid_decode (stat_ok io) f1 of
          Inl e \<Rightarrow> ((r0, Some e), f1)
        | Inr st \<Rightarrow>
            (case fn st of
              (r, Inl e) \<Rightarrow> ((r, Some e), f1)
            | (r, Inr st') \<Rightarrow> (case uid_write io st' f1 of (e, f2) \<Rightarrow> ((r, e), f2))))"

function lowestFree_from :: "u32 list \<Rightarrow> nat \<Rightarrow> u32 option" where
  "lowestFree_from used b =
     (if maxBase < b then None
      else if (word_of_nat b :: u32) \<notin> set used then Some (word_of_nat b)
      else lowestFree_from used (b + RangeSize))"
  by pat_completeness auto
termination
  by (relation "measure (\<lambda>(used, b). Suc maxBase - b)") (auto simp: RangeSize_def)

declare lowestFree_from.simps [simp del]

definition lowestFree :: "uid_alloc \<Rightarrow> uid_error + u32" where
  "lowestFree alloc =
     (case lowestFree_from (map snd alloc) FirstBase of
        Some b \<Rightarrow> Inr b | None \<Rightarrow> Inl SpaceExhausted)"

definition uid_Allocate :: "uid_io \<Rightarrow> string \<Rightarrow> table_file \<Rightarrow> (u32 \<times> uid_error option) \<times> table_file" where
  "uid_Allocate io i f =
     (if \<not> idRe i then ((0, Some InvalidID), f)
      else mutate io 0 (\<lambda>st.
        case map_of st i of
          Some b \<Rightarrow> (b, Inr st)
        | None \<Rightarrow>
            (case lowestFree st of
              Inl e \<Rightarrow> (0, Inl e)
            | Inr b \<Rightarrow> (b, Inr (AList.update i b st)))) f)"

definition uid_readLocked :: "uid_io \<Rightarrow> table_file \<Rightarrow> uid_error + uid_alloc" where
  "uid_readLocked io f =
     (if f = Missing then Inr []
      else if \<not> open_ok io then Inl OpenFailed
      else if \<not> flock_ok io then Inl LockFailed
      else uid_decode (stat_ok io) f)"

definition uid_Lookup :: "uid_io \<Rightarrow> string \<Rightarrow> table_file \<Rightarrow> uid_error + u32 option" where
  "uid_Lookup io i f =
     (if \<not> idRe i then Inl InvalidID
      else case uid_readLocked io f of
        Inl e \<Rightarrow> Inl e
      | Inr st \<Rightarrow> Inr (map_of st i))"

definition uid_Release :: "uid_io \<Rightarrow> string \<Rightarrow> table_file \<Rightarrow> uid_error option \<times> table_file" where
  "uid_Release io i f =
     (case mutate io () (\<lambda>st. ((), Inr (AList.delete i st))) f of ((_, e), f') \<Rightarrow> (e, f'))"

definition uid_Prune :: "uid_io \<Rightarrow> (string \<Rightarrow> bool) \<Rightarrow> table_file \<Rightarrow> (nat \<times> uid_error option) \<times> table_file" where
  "uid_Prune io keep f =
     mutate io 0 (\<lambda>st. (length (filter (\<lambda>(k, v). \<not> keep k) st),
                        Inr (filter (\<lambda>(k, v). keep k) st))) f"

datatype uid_op = OpAllocate uid_io string | OpRelease uid_io string
  | OpPrune uid_io "string list"

fun uid_step :: "table_file \<Rightarrow> uid_op \<Rightarrow> table_file" where
  "uid_step f (OpAllocate io i) = snd (uid_Allocate io i f)"
| "uid_step f (OpRelease io i) = snd (uid_Release io i f)"
| "uid_step f (OpPrune io ks) = snd (uid_Prune io (\<lambda>k. k \<in> set ks) f)"

definition uid_run :: "table_file \<Rightarrow> uid_op list \<Rightarrow> table_file" where
  "uid_run f ops = foldl uid_step f ops"

text \<open>The range a container holds, as a reader of the file finds it.\<close>

definition uid_holds :: "table_file \<Rightarrow> string \<Rightarrow> u32 option" where
  "uid_holds f i = (case f of Doc (Some m) \<Rightarrow> map_of m i | _ \<Rightarrow> None)"

definition on_grid :: "u32 \<Rightarrow> bool" where
  "on_grid b \<longleftrightarrow> FirstBase \<le> unat b \<and> unat b \<le> maxBase \<and> (unat b - FirstBase) mod RangeSize = 0"

definition alloc_ok :: "uid_alloc \<Rightarrow> bool" where
  "alloc_ok m \<longleftrightarrow> gomap_ok m \<and> exclusive (map_of m) \<and>
     (\<forall>(k, b) \<in> set m. idRe k \<and> on_grid b)"

definition table_ok :: "table_file \<Rightarrow> bool" where
  "table_ok f \<longleftrightarrow> (case f of Doc (Some m) \<Rightarrow> alloc_ok m | _ \<Rightarrow> True)"

section \<open>The search for the lowest free range\<close>

lemmas uid_consts = RangeSize_def FirstBase_def maxBase_def

lemma unat_of_grid: "b \<le> maxBase \<Longrightarrow> unat (word_of_nat b :: u32) = b"
  by (simp add: unat_of_nat uid_consts)

definition grid_point :: "nat \<Rightarrow> nat" where
  "grid_point i = FirstBase + i * RangeSize"

lemma on_grid_iff: "on_grid b \<longleftrightarrow> unat b \<le> maxBase \<and> (\<exists>i. unat b = grid_point i)"
proof -
  have "FirstBase \<le> n \<and> (n - FirstBase) mod RangeSize = 0 \<longleftrightarrow> (\<exists>i. n = grid_point i)" for n
    by (auto simp: grid_point_def mod_eq_0_iff_dvd dvd_def le_iff_add)
  from this [of "unat b", symmetric] show ?thesis unfolding on_grid_def by argo
qed

lemma grid_point_Suc: "grid_point (Suc i) = grid_point i + RangeSize"
  by (simp add: grid_point_def)

lemma grid_point_cancel [simp]:
  "grid_point i \<le> grid_point j \<longleftrightarrow> i \<le> j" "grid_point i < grid_point j \<longleftrightarrow> i < j"
  "grid_point i = grid_point j \<longleftrightarrow> i = j"
  by (auto simp: grid_point_def RangeSize_def)

lemma u32_eq_unat: "unat (d :: u32) = b \<longleftrightarrow> d = word_of_nat b \<and> b < 2 ^ 32"
  using unsigned_less [of d, where ?'a = nat] by (auto simp: unat_of_nat)

lemma lowestFree_from_Some:
  assumes "lowestFree_from used (grid_point i) = Some c"
  shows "on_grid c \<and> c \<notin> set used \<and> (\<exists>j \<ge> i. unat c = grid_point j) \<and>
    (\<forall>d k. unat d = grid_point k \<longrightarrow> i \<le> k \<longrightarrow> unat d < unat c \<longrightarrow> d \<in> set used)"
  using assms
proof (induction used "grid_point i" arbitrary: i rule: lowestFree_from.induct)
  case (1 used i)
  from "1.prems" have le: "grid_point i \<le> maxBase"
    by (subst (asm) lowestFree_from.simps) (auto split: if_splits)
  show ?case
  proof (cases "(word_of_nat (grid_point i) :: u32) \<in> set used")
    case False
    with "1.prems" le have "c = word_of_nat (grid_point i)"
      by (subst (asm) lowestFree_from.simps) simp
    with le False show ?thesis by (auto simp: on_grid_iff unat_of_grid)
  next
    case True
    have "lowestFree_from used (grid_point (Suc i)) = Some c"
      using "1.prems" le True by (subst (asm) lowestFree_from.simps) (simp add: grid_point_Suc)
    with "1.hyps" [of "Suc i"] le True
    have IH: "on_grid c" "c \<notin> set used" "\<exists>j \<ge> Suc i. unat c = grid_point j"
      "\<forall>d k. unat d = grid_point k \<longrightarrow> Suc i \<le> k \<longrightarrow> unat d < unat c \<longrightarrow> d \<in> set used"
      by (simp_all add: grid_point_Suc)
    have "d \<in> set used" if "unat d = grid_point k" "i \<le> k" "unat d < unat c" for d k
    proof (cases "k = i")
      case True
      with that(1) have "d = word_of_nat (grid_point i)" by (simp add: u32_eq_unat)
      with \<open>word_of_nat (grid_point i) \<in> set used\<close> show ?thesis by simp
    next
      case False
      with that IH(4) show ?thesis by simp
    qed
    with IH(1-3) show ?thesis by (meson Suc_leD)
  qed
qed

lemma lowestFree_from_None:
  assumes "lowestFree_from used (grid_point i) = None"
    and "unat d = grid_point k" "i \<le> k" "grid_point k \<le> maxBase"
  shows "d \<in> set used"
  using assms
proof (induction used "grid_point i" arbitrary: i rule: lowestFree_from.induct)
  case (1 used i)
  have le: "grid_point i \<le> maxBase"
    using "1.prems"(3,4) by (meson grid_point_cancel(1) le_trans)
  have here: "(word_of_nat (grid_point i) :: u32) \<in> set used"
    and rec: "lowestFree_from used (grid_point (Suc i)) = None"
    using "1.prems"(1) le
    by (subst (asm) lowestFree_from.simps, auto simp: grid_point_Suc split: if_splits)+
  show ?case
  proof (cases "k = i")
    case True
    with "1.prems"(2) here show ?thesis by (simp add: u32_eq_unat)
  next
    case False
    with "1.hyps" [of "Suc i"] le here rec "1.prems" show ?thesis
      by (simp add: grid_point_Suc)
  qed
qed

lemma lowestFree_start: "lowestFree alloc =
     (case lowestFree_from (map snd alloc) (grid_point 0) of
        Some b \<Rightarrow> Inr b | None \<Rightarrow> Inl SpaceExhausted)"
  by (simp add: lowestFree_def grid_point_def)

text \<open>The ranges \<open>[b, b + RangeSize)\<close> of two distinct grid points do not meet.\<close>

lemma grid_disjoint:
  assumes "on_grid b" "on_grid c" "b \<noteq> c"
  shows "{unat b..<unat b + RangeSize} \<inter> {unat c..<unat c + RangeSize} = {}"
proof -
  from assms(1,2) obtain i j where ij: "unat b = grid_point i" "unat c = grid_point j"
    by (auto simp: on_grid_iff)
  with assms(3) have "i \<noteq> j" by (auto simp: word_unat_eq_iff)
  then have "Suc i \<le> j \<or> Suc j \<le> i" by linarith
  then have "grid_point (Suc i) \<le> grid_point j \<or> grid_point (Suc j) \<le> grid_point i" by simp
  then show ?thesis unfolding ij by (auto simp: grid_point_Suc)
qed

lemma grid_range_fits: "on_grid b \<Longrightarrow> FirstBase \<le> unat b \<and> unat b + RangeSize \<le> 2 ^ 32"
  by (auto simp: on_grid_def uid_consts)

section \<open>Every operation keeps the table well formed\<close>

lemma alloc_ok_Nil [simp]: "alloc_ok []"
  by (simp add: alloc_ok_def)

lemma table_ok_simps [simp]:
  "table_ok Missing" "table_ok Zero" "table_ok Torn" "table_ok (Doc None)"
  "table_ok (Doc (Some m)) \<longleftrightarrow> alloc_ok m"
  by (simp_all add: table_ok_def)

lemma uid_holds_simps [simp]:
  "uid_holds Missing = Map.empty" "uid_holds Zero = Map.empty" "uid_holds Torn = Map.empty"
  "uid_holds (Doc None) = Map.empty" "uid_holds (Doc (Some m)) = map_of m"
  by (simp_all add: uid_holds_def fun_eq_iff)

lemma alloc_ok_values: "alloc_ok m \<Longrightarrow> b \<in> set (map snd m) \<longleftrightarrow> b \<in> ran (map_of m)"
  by (simp only: gomap_values alloc_ok_def)

lemma lowestFree_Inr:
  assumes "alloc_ok m" "lowestFree m = Inr b"
  shows "on_grid b \<and> b \<notin> ran (map_of m)"
  using assms lowestFree_from_Some [of "map snd m" 0 b] alloc_ok_values [OF assms(1), of b]
  by (auto simp: lowestFree_start split: option.splits)

lemma alloc_ok_lookup: "alloc_ok m \<Longrightarrow> map_of m i = Some b \<Longrightarrow> idRe i \<and> on_grid b"
  by (auto simp: alloc_ok_def dest: map_of_SomeD)

lemma alloc_ok_alt:
  "alloc_ok m \<longleftrightarrow> gomap_ok m \<and> exclusive (map_of m) \<and>
     (\<forall>k b. map_of m k = Some b \<longrightarrow> idRe k \<and> on_grid b)"
  by (auto simp: alloc_ok_def gomap_ok_mem)

lemma alloc_ok_insert:
  assumes "alloc_ok m" "idRe i" "on_grid b" "b \<notin> ran (map_of m)"
  shows "alloc_ok (AList.update i b m)"
  using assms by (auto simp: alloc_ok_alt gomap_simps intro: exclusive_upd)

lemma alloc_ok_delete: "alloc_ok m \<Longrightarrow> alloc_ok (AList.delete i m)"
  by (auto simp: alloc_ok_alt gomap_simps split: if_splits)

lemma alloc_ok_keep: "alloc_ok m \<Longrightarrow> alloc_ok (filter (\<lambda>(k, v). keep k) m)"
proof -
  assume ok: "alloc_ok m"
  have "map_of (filter (\<lambda>(k, v). keep k) m) \<subseteq>\<^sub>m map_of m"
    by (auto simp: map_le_def gomap_simps split: if_splits)
  with ok show ?thesis
    by (auto simp: alloc_ok_alt gomap_simps intro: exclusive_submap split: if_splits)
qed

lemma uid_decode_ok: "table_ok f \<Longrightarrow> uid_decode st f = Inr m \<Longrightarrow> alloc_ok m"
  by (auto simp: uid_decode_def split: if_splits table_file.splits option.splits)

lemma uid_write_ok: "table_ok f \<Longrightarrow> alloc_ok m \<Longrightarrow> table_ok (snd (uid_write io m f))"
  by (auto simp: uid_write_def split: write_outcome.splits)

lemma mutate_snd:
  "snd (mutate io r0 fn f) =
     (if \<not> mkdir_ok io \<or> \<not> open_ok io then f
      else let f1 = (if f = Missing then Zero else f) in
        if \<not> flock_ok io then f1
        else case uid_decode (stat_ok io) f1 of
          Inl e \<Rightarrow> f1
        | Inr st \<Rightarrow> (case snd (fn st) of
            Inl e \<Rightarrow> f1 | Inr st' \<Rightarrow> snd (uid_write io st' f1)))"
  unfolding mutate_def Let_def by (simp split: sum.split prod.split)

text \<open>
  The rule for the closures: a closure that turns a well-formed table into a well-formed
  table gives an operation that keeps the file well formed, whatever the system calls do.
\<close>

lemma mutate_table_ok:
  assumes "table_ok f" "\<And>m r m'. alloc_ok m \<Longrightarrow> fn m = (r, Inr m') \<Longrightarrow> alloc_ok m'"
  shows "table_ok (snd (mutate io r0 fn f))"
proof -
  define f1 where "f1 = (if f = Missing then Zero else f)"
  have f1: "table_ok f1" using assms(1) by (simp add: f1_def)
  have "table_ok (snd (uid_write io m' f1))"
    if "uid_decode (stat_ok io) f1 = Inr m" "snd (fn m) = Inr m'" for m m'
    using that f1 by (intro uid_write_ok assms(2) [OF uid_decode_ok, of f1 _ m "fst (fn m)"])
      (auto simp: prod_eq_iff)
  with f1 assms(1) show ?thesis
    unfolding mutate_snd f1_def [symmetric] by (auto simp: Let_def split: sum.splits)
qed

lemma uid_Allocate_table_ok: "table_ok f \<Longrightarrow> table_ok (snd (uid_Allocate io i f))"
  unfolding uid_Allocate_def
  by (auto intro!: mutate_table_ok alloc_ok_insert dest: lowestFree_Inr
      split: option.splits sum.splits)

lemma uid_Release_table_ok: "table_ok f \<Longrightarrow> table_ok (snd (uid_Release io i f))"
  using mutate_table_ok [of f "\<lambda>st. ((), Inr (AList.delete i st))" io "()"] alloc_ok_delete
  by (fastforce simp: uid_Release_def split: prod.splits)

lemma uid_Prune_table_ok: "table_ok f \<Longrightarrow> table_ok (snd (uid_Prune io keep f))"
  unfolding uid_Prune_def by (auto intro!: mutate_table_ok alloc_ok_keep)

lemma uid_run_table_ok: "table_ok f \<Longrightarrow> table_ok (uid_run f ops)"
proof (induction ops arbitrary: f)
  case (Cons x ops)
  have "table_ok (uid_step f x)"
    using Cons.prems
    by (cases x) (auto intro: uid_Allocate_table_ok uid_Release_table_ok uid_Prune_table_ok)
  then have "table_ok (uid_run (uid_step f x) ops)" by (rule Cons.IH)
  then show ?case by (simp add: uid_run_def)
qed (simp add: uid_run_def)

section \<open>The table as an allocator of exclusive slots\<close>

definition uid_acquire :: "table_file \<Rightarrow> string \<Rightarrow> u32 option \<times> table_file" where
  "uid_acquire f i =
     (case uid_Allocate io_healthy i f of
        ((b, None), f') \<Rightarrow> (Some b, f')
      | ((b, Some e), f') \<Rightarrow> (None, f'))"

definition uid_drop :: "table_file \<Rightarrow> string \<Rightarrow> table_file" where
  "uid_drop f i = snd (uid_Release io_healthy i f)"

lemma uid_decode_True [simp]:
  "uid_decode True Missing = Inr []" "uid_decode True Zero = Inr []"
  "uid_decode True (Doc (Some m)) = Inr m"
  by (simp_all add: uid_decode_def)

lemma uid_decode_holds: "uid_decode True f = Inr m \<Longrightarrow> uid_holds f = map_of m"
  by (auto simp: uid_decode_def split: table_file.splits option.splits)

text \<open>What \<open>Allocate\<close> does when the system calls succeed, branch by branch.\<close>

lemma uid_Allocate_healthy:
  "uid_Allocate io_healthy i f =
     (if \<not> idRe i then ((0, Some InvalidID), f)
      else let f1 = (if f = Missing then Zero else f) in
        case uid_decode True f of
          Inl e \<Rightarrow> ((0, Some e), f1)
        | Inr m \<Rightarrow>
            (case map_of m i of
               Some b \<Rightarrow> ((b, None), Doc (Some m))
             | None \<Rightarrow> (case lowestFree m of
                 Inl e \<Rightarrow> ((0, Some e), f1)
               | Inr b \<Rightarrow> ((b, None), Doc (Some (AList.update i b m))))))"
proof -
  have "uid_decode True (if f = Missing then Zero else f) = uid_decode True f"
    by (simp add: uid_decode_def)
  then show ?thesis
    by (auto simp: uid_Allocate_def mutate_def io_healthy_def uid_write_def Let_def
        split: sum.split option.split)
qed

lemma uid_Release_healthy:
  "uid_Release io_healthy i f =
     (case uid_decode True f of
        Inl e \<Rightarrow> (Some e, f)
      | Inr m \<Rightarrow> (None, Doc (Some (AList.delete i m))))"
proof -
  have "uid_decode True (if f = Missing then Zero else f) = uid_decode True f"
    by (simp add: uid_decode_def)
  then show ?thesis
    by (auto simp: uid_Release_def mutate_def io_healthy_def uid_write_def Let_def uid_decode_def
        split: sum.split)
qed

lemma uid_holds_opened [simp]: "uid_holds (if f = Missing then Zero else f) = uid_holds f"
  by (auto simp: fun_eq_iff)

interpretation uidt: slot_owner uid_acquire uid_drop uid_holds table_ok
proof
  fix s :: table_file and k v and s'
  assume ok: "table_ok s"
  show "uid_acquire s k = (Some v, s)" if held: "uid_holds s k = Some v"
  proof -
    from held obtain m where m: "s = Doc (Some m)" "map_of m k = Some v"
      by (auto simp: uid_holds_def split: table_file.splits option.splits)
    with ok alloc_ok_lookup have "idRe k" by auto
    with m show ?thesis
      by (simp add: uid_acquire_def uid_Allocate_healthy uid_decode_def)
  qed
  show "v \<notin> ran (uid_holds s) \<and> uid_holds s' = (uid_holds s)(k \<mapsto> v)"
    if free: "uid_holds s k = None" and acq: "uid_acquire s k = (Some v, s')"
  proof -
    from acq free obtain m where m: "uid_decode True s = Inr m" "lowestFree m = Inr v"
        "s' = Doc (Some (AList.update k v m))"
      by (auto simp: uid_acquire_def uid_Allocate_healthy Let_def
          dest: uid_decode_holds split: if_splits sum.splits option.splits)
    have "uid_holds s = map_of m" using m(1) by (rule uid_decode_holds)
    moreover have "v \<notin> ran (map_of m)"
      using lowestFree_Inr [OF uid_decode_ok [OF ok m(1)] m(2)] by simp
    ultimately show ?thesis
      by (simp add: m(3) gomap_simps)
  qed
  show "uid_holds s' = uid_holds s" if "uid_acquire s k = (None, s')"
    using that
    by (auto simp: uid_acquire_def uid_Allocate_healthy Let_def
        split: if_splits sum.splits option.splits)
  show "uid_holds (uid_drop s k) = (uid_holds s)(k := None)"
    using uid_decode_holds [of s]
    by (auto simp: uid_drop_def uid_Release_healthy gomap_simps uid_decode_def
        split: sum.split table_file.splits option.splits)
  show "table_ok (snd (uid_acquire s k))"
    using uid_Allocate_table_ok [OF ok, of io_healthy k]
    by (auto simp: uid_acquire_def split: prod.split option.split)
  show "table_ok (uid_drop s k)"
    unfolding uid_drop_def using ok by (rule uid_Release_table_ok)
qed

text \<open>A call for one container whose system calls all succeed.\<close>

primrec healthy_op :: "string slot_op \<Rightarrow> uid_op" where
  "healthy_op (Acquire i) = OpAllocate io_healthy i"
| "healthy_op (Drop i) = OpRelease io_healthy i"

lemma uid_slot_run: "uidt.slot_run f ops = uid_run f (map healthy_op ops)"
proof (induction ops arbitrary: f)
  case (Cons x ops)
  have "uidt.slot_step f x = uid_step f (healthy_op x)"
    by (cases x) (auto simp: uid_acquire_def uid_drop_def split: prod.split option.split)
  with Cons show ?case by (simp add: uid_run_def)
qed (simp add: uid_run_def)

section \<open>Properties\<close>

text \<open>
  C7: Whatever sequence of Allocate, Release and Prune calls runs, and whichever of their
  system calls fail, the host-uid ranges recorded for two different containers are
  disjoint, lie above the band of the host's own users and fit the 32-bit uid space.
\<close>

theorem uid_ranges_disjoint:
  assumes "uid_holds (uid_run Missing ops) a = Some x"
    and "uid_holds (uid_run Missing ops) b = Some y" and "a \<noteq> b"
  shows "{unat x..<unat x + RangeSize} \<inter> {unat y..<unat y + RangeSize} = {} \<and>
    FirstBase \<le> unat x \<and> unat x + RangeSize \<le> 2 ^ 32"
proof -
  have "table_ok (uid_run Missing ops)" by (rule uid_run_table_ok) simp
  with assms(1,2) obtain m where m: "alloc_ok m" "map_of m a = Some x" "map_of m b = Some y"
    by (auto simp: uid_holds_def split: table_file.splits option.splits)
  then have grid: "on_grid x" "on_grid y" by (auto dest: alloc_ok_lookup)
  have "x \<noteq> y" using m assms(3) by (auto simp: alloc_ok_def exclusive_def)
  with grid show ?thesis using grid_disjoint grid_range_fits by blast
qed

theorem uid_ranges_disjoint_witness:
  "{100000..<100000 + RangeSize} \<inter> {165536..<165536 + RangeSize} = {}"
proof -
  let ?ops = "[OpAllocate io_healthy ''a'', OpAllocate io_healthy ''b'']"
  have run: "uid_run Missing ?ops = Doc (Some [(''a'', 100000), (''b'', 165536)])"
    by (simp add: uid_run_def uid_Allocate_healthy idRe_def id_char_def lowestFree_def
        lowestFree_from.simps uid_consts)
  have "unat (100000 :: u32) = 100000" "unat (165536 :: u32) = 165536" by simp_all
  with uid_ranges_disjoint [of ?ops "''a''" 100000 "''b''" 165536] show ?thesis
    unfolding run by simp
qed

text \<open>
  C20: With working system calls, Allocate on a well-formed table answers a container that
  has a range with that range and leaves the table alone; otherwise it records and
  returns the lowest range of the grid nobody holds, and it reports exhaustion exactly
  when every range of the grid is held.
\<close>

theorem uid_Allocate_lowest:
  assumes "table_ok f" "uid_decode True f = Inr m" "idRe i"
  shows "case uid_Allocate io_healthy i f of ((b, e), f') \<Rightarrow>
    (case uid_holds f i of
      Some c \<Rightarrow> b = c \<and> e = None \<and> uid_holds f' = uid_holds f
    | None \<Rightarrow>
        (e = None \<and> on_grid b \<and> b \<notin> ran (uid_holds f) \<and>
         (\<forall>c. on_grid c \<longrightarrow> unat c < unat b \<longrightarrow> c \<in> ran (uid_holds f)) \<and>
         uid_holds f' = (uid_holds f)(i \<mapsto> b))
        \<or> (e = Some SpaceExhausted \<and> {c. on_grid c} \<subseteq> ran (uid_holds f) \<and>
           uid_holds f' = uid_holds f))"
proof -
  have ok: "alloc_ok m" using assms(1,2) by (rule uid_decode_ok)
  have holds: "uid_holds f = map_of m" using assms(2) by (rule uid_decode_holds)
  have vals: "set (map snd m) = ran (map_of m)"
    using ok by (intro gomap_values) (simp add: alloc_ok_def)
  show ?thesis
  proof (cases "map_of m i")
    case (Some c)
    with assms(2,3) holds show ?thesis by (auto simp: uid_Allocate_healthy)
  next
    case None
    show ?thesis
    proof (cases "lowestFree_from (map snd m) (grid_point 0)")
      case None': None
      have "{c. on_grid c} \<subseteq> ran (map_of m)"
        using lowestFree_from_None [OF None'] vals by (auto simp: on_grid_iff)
      with None None' assms(2,3) holds show ?thesis
        by (auto simp: uid_Allocate_healthy lowestFree_start Let_def)
    next
      case (Some b)
      note free = lowestFree_from_Some [OF Some]
      then have "\<forall>c. on_grid c \<longrightarrow> unat c < unat b \<longrightarrow> c \<in> ran (map_of m)"
        using vals by (auto simp: on_grid_iff)
      with free vals None Some assms(2,3) holds show ?thesis
        by (auto simp: uid_Allocate_healthy lowestFree_start gomap_simps)
    qed
  qed
qed

theorem uid_Allocate_lowest_witness:
  "uid_Allocate io_healthy ''c'' (Doc (Some [(''b'', 165536)]))
     = ((100000, None), Doc (Some [(''b'', 165536), (''c'', 100000)])) \<and>
   on_grid 100000 \<and> 100000 \<notin> ran (map_of [(''b'', 165536 :: u32)])"
proof -
  let ?f = "Doc (Some [(''b'', 165536 :: u32)])"
  have run: "uid_Allocate io_healthy ''c'' ?f
      = ((100000, None), Doc (Some [(''b'', 165536), (''c'', 100000)]))"
    by (simp add: uid_Allocate_healthy idRe_def id_char_def lowestFree_def
        lowestFree_from.simps uid_consts)
  have "table_ok ?f" "idRe ''c''"
    by (simp_all add: alloc_ok_def exclusive_def idRe_def id_char_def on_grid_def uid_consts gomap_ok_def)
  from uid_Allocate_lowest [OF this(1) _ this(2)] run show ?thesis by simp
qed

text \<open>
  A range stays with its container: once a container has a range, the same range is
  returned to it again after any sequence of calls for other containers, and none of
  those calls hands the range to anyone else.
\<close>

theorem uid_slot_stable:
  assumes "table_ok f" "uid_Allocate io_healthy i f = ((b, None), f')" "Drop i \<notin> set ops"
    and "exclusive (uid_holds f)"
  shows "uid_Allocate io_healthy i (uid_run f' (map healthy_op ops))
       = ((b, None), uid_run f' (map healthy_op ops)) \<and>
    (\<forall>j. uid_holds (uid_run f' (map healthy_op ops)) j = Some b \<longleftrightarrow> j = i)"
proof -
  let ?g = "uid_run f' (map healthy_op ops)"
  have acq: "uid_acquire f i = (Some b, f')" using assms(2) by (simp add: uid_acquire_def)
  have ok: "table_ok f'" using uidt.invar_acquire [OF assms(1), of i] acq by simp
  have "uid_holds f' i = Some b" using assms(1) acq by (rule uidt.acquire_result)
  with ok assms(3) have held: "uid_holds ?g i = Some b"
    unfolding uid_slot_run [symmetric] by (intro uidt.run_keeps)
  have "exclusive (uid_holds f')"
    using uidt.acquire_exclusive [OF assms(1,4), of i] acq by simp
  with ok have ex: "exclusive (uid_holds ?g)"
    unfolding uid_slot_run [symmetric] by (rule uidt.run_exclusive)
  have "table_ok ?g" using ok by (rule uid_run_table_ok)
  then have "uid_acquire ?g i = (Some b, ?g)" using held by (rule uidt.acquire_held)
  with held ex show ?thesis
    by (auto simp: uid_acquire_def exclusive_def split: prod.splits option.splits)
qed

theorem uid_slot_stable_witness:
  "fst (uid_Allocate io_healthy ''a''
     (uid_run (Doc (Some [(''a'', 100000)])) [OpAllocate io_healthy ''b'', OpRelease io_healthy ''b'']))
   = (100000, None)"
proof -
  have "uid_Allocate io_healthy ''a'' Missing = ((100000, None), Doc (Some [(''a'', 100000)]))"
    by (simp add: uid_Allocate_healthy idRe_def id_char_def lowestFree_def
        lowestFree_from.simps uid_consts)
  from uid_slot_stable [OF _ this, of "[Acquire ''b'', Drop ''b'']"] show ?thesis by simp
qed

text \<open>
  C21: A write that fails after the truncation (a full disk) leaves an empty file, and an
  empty file is taken for an empty table: the call reports its error, but the next
  Allocate hands out the lowest range again although a container still holds it.
\<close>

theorem uid_failed_write_reissues:
  assumes "uid_decode True f = Inr m" "map_of m i = Some 100000" "idRe j" "j \<noteq> i"
  shows "case uid_Release (io_healthy\<lparr>write_at := WriteNothing\<rparr>) k f of (e, f') \<Rightarrow>
    e = Some WriteFailed \<and>
    uid_Allocate io_healthy j f' = ((100000, None), Doc (Some [(j, 100000)]))"
  using assms
  by (auto simp: uid_Release_def mutate_def io_healthy_def uid_write_def Let_def
      uid_Allocate_healthy [unfolded io_healthy_def] lowestFree_def lowestFree_from.simps uid_consts)

theorem uid_failed_write_reissues_witness:
  "case uid_Release (io_healthy\<lparr>write_at := WriteNothing\<rparr>) ''c'' (Doc (Some [(''a'', 100000)])) of
     (e, f') \<Rightarrow> e = Some WriteFailed \<and>
       uid_Allocate io_healthy ''b'' f' = ((100000, None), Doc (Some [(''b'', 100000)]))"
  by (rule uid_failed_write_reissues [of _ "[(''a'', 100000)]" "''a''"])
    (simp_all add: idRe_def id_char_def)

end
