(* ===== verification/Bytes.thy ===== *)
theory Bytes
  imports Prelude
begin

text \<open>
  Fixed-width integers as bytes: \<^verbatim>\<open>encoding/binary\<close> as the sources use it.
  \<open>le_get\<close> reads a byte list as a little-endian number, \<open>le_put w v\<close> writes the
  low \<open>w\<close> bytes of \<open>v\<close>; the big-endian pair reverses the bytes. Slices that are
  too short make the Go accessors panic; \<open>slice\<close> and \<open>from_off\<close> are the bounds-checked
  slice expressions.
\<close>

section \<open>Encoding\<close>

primrec le_get :: "u8 list \<Rightarrow> nat" where
  "le_get [] = 0"
| "le_get (b # bs) = unat b + 256 * le_get bs"

primrec le_put :: "nat \<Rightarrow> nat \<Rightarrow> u8 list" where
  "le_put 0 v = []"
| "le_put (Suc w) v = word_of_nat v # le_put w (v div 256)"

definition be_get :: "u8 list \<Rightarrow> nat" where
  "be_get bs = le_get (rev bs)"

definition be_put :: "nat \<Rightarrow> nat \<Rightarrow> u8 list" where
  "be_put w v = rev (le_put w v)"

text \<open>\<^verbatim>\<open>s[lo:hi]\<close> on a slice of length \<open>length s\<close> and no spare capacity.\<close>

definition slice :: "u8 list \<Rightarrow> nat \<Rightarrow> nat \<Rightarrow> ('e, u8 list) go" where
  "slice s lo hi = (if lo \<le> hi \<and> hi \<le> length s then Ok (take (hi - lo) (drop lo s)) else Panic)"

text \<open>\<^verbatim>\<open>s[lo:]\<close>\<close>

definition from_off :: "u8 list \<Rightarrow> nat \<Rightarrow> ('e, u8 list) go" where
  "from_off s lo = (if lo \<le> length s then Ok (drop lo s) else Panic)"

text \<open>\<open>w\<close>-byte read at the start of a slice; shorter slices panic.\<close>

definition getLE :: "nat \<Rightarrow> u8 list \<Rightarrow> ('e, nat) go" where
  "getLE w s = (if w \<le> length s then Ok (le_get (take w s)) else Panic)"

definition getBE :: "nat \<Rightarrow> u8 list \<Rightarrow> ('e, nat) go" where
  "getBE w s = (if w \<le> length s then Ok (be_get (take w s)) else Panic)"

text \<open>Overwriting the bytes from \<open>off\<close> on, for a patch that fits.\<close>

definition splice :: "'a list \<Rightarrow> nat \<Rightarrow> 'a list \<Rightarrow> 'a list" where
  "splice s off p = take off s @ p @ drop (off + length p) s"

section \<open>Laws\<close>

lemma length_le_put [simp]: "length (le_put w v) = w"
  by (induction w arbitrary: v) auto

lemma length_be_put [simp]: "length (be_put w v) = w"
  by (simp add: be_put_def)

lemma le_put_numeral [simp]:
  "le_put (numeral k) v = word_of_nat v # le_put (pred_numeral k) (v div 256)"
  by (simp only: numeral_eq_Suc [of k] le_put.simps)

lemma unat_byte [simp]: "unat (word_of_nat v :: u8) = v mod 256"
  by (simp add: unat_of_nat)

lemma le_get_put: "le_get (le_put w v) = v mod 256 ^ w"
proof (induction w arbitrary: v)
  case (Suc w)
  have "v mod (256 * 256 ^ w) = 256 * (v div 256 mod 256 ^ w) + v mod 256"
    by (rule mod_mult2_eq)
  with Suc show ?case by simp
qed simp

lemma be_get_put: "be_get (be_put w v) = v mod 256 ^ w"
  by (simp add: be_get_def be_put_def le_get_put)

lemma le_get_bound: "le_get bs < 256 ^ length bs"
proof (induction bs)
  case (Cons b bs)
  have "unat b < 256" using unsigned_less [of b, where ?'a = nat] by simp
  with Cons show ?case by simp
qed simp

lemma be_get_bound: "be_get bs < 256 ^ length bs"
  using le_get_bound [of "rev bs"] by (simp add: be_get_def)

lemma le_put_get: "le_put (length bs) (le_get bs) = bs"
proof (induction bs)
  case (Cons b bs)
  have b: "unat b < 256" using unsigned_less [of b, where ?'a = nat] by simp
  have "unat (word_of_nat (unat b + 256 * le_get bs) :: u8) = unat b"
    unfolding unat_byte using b by simp
  then have "(word_of_nat (unat b + 256 * le_get bs) :: u8) = b"
    by (simp only: word_unat_eq_iff)
  with Cons b show ?case by simp
qed simp

lemma be_put_get: "be_put (length bs) (be_get bs) = bs"
  using le_put_get [of "rev bs"] by (simp add: be_put_def be_get_def rev_swap)

lemma be_put_inj: "be_put w v = be_put w v' \<Longrightarrow> v mod 256 ^ w = v' mod 256 ^ w"
  by (metis be_get_put)

lemma length_splice [simp]: "off + length p \<le> length s \<Longrightarrow> length (splice s off p) = length s"
  by (simp add: splice_def)

lemma nth_splice:
  assumes "off + length p \<le> length s" "i < length s"
  shows "splice s off p ! i = (if off \<le> i \<and> i < off + length p then p ! (i - off) else s ! i)"
  using assms by (auto simp: splice_def nth_append min_def)

end
