(* ===== verification/Ipam.thy ===== *)
theory Ipam
  imports Bytes
begin

text \<open>
  The guest-address allocator of one bridge subnet, \<^verbatim>\<open>internal/network/ipam.go\<close>.

  Addresses are 32-bit words in host order, as in the source, so the additions of the scan
  wrap. The text parsers of package \<^verbatim>\<open>net\<close> are parameters of the operations that call
  them: \<open>parseCIDR\<close> gives the address and prefix length of an IPv4 text (\<open>Cidr4\<close>), or
  that the text is an IPv6 one (\<open>Cidr6\<close>, with the address's IPv4 form if it has one).
\<close>

section \<open>Model\<close>

datatype cidr = Cidr4 u32 nat | Cidr6 "u32 option"

datatype ipam_error = InvalidCIDR | NotIPv4CIDR | BadPrefix | PoolExhausted | NotIPv4
  | OutsideSubnet | IsGateway | IsNetworkOrBroadcast | TaskHoldsOther u32 | HeldBy string

record IPAM =
  subnet_ip :: u32
  subnet_ones :: nat
  gateway :: u32
  base :: u32
  bcast :: u32
  byTask :: "(string, u32) gomap"
  taken :: "(u32, string) gomap"

definition DefaultBridgeCIDR :: string where
  "DefaultBridgeCIDR = ''10.0.0.1/24''"

definition guestIPStartHost :: u32 where
  "guestIPStartHost = 100"

definition netmask :: "nat \<Rightarrow> u32" where
  "netmask ones = push_bit (32 - ones) (- 1)"

definition NewIPAM :: "(string \<Rightarrow> cidr option) \<Rightarrow> string \<Rightarrow> ipam_error + IPAM" where
  "NewIPAM parseCIDR gatewayCIDR =
     (case parseCIDR (if gatewayCIDR = [] then DefaultBridgeCIDR else gatewayCIDR) of
        None \<Rightarrow> Inl InvalidCIDR
      | Some (Cidr6 None) \<Rightarrow> Inl NotIPv4CIDR
      | Some (Cidr6 (Some gw)) \<Rightarrow> Inl BadPrefix
      | Some (Cidr4 gw ones) \<Rightarrow>
          if ones < 8 \<or> 30 < ones then Inl BadPrefix
          else let mask = netmask ones; b = gw AND mask in
            Inr \<lparr>subnet_ip = b, subnet_ones = ones, gateway = gw, base = b,
                 bcast = b OR NOT mask, byTask = [], taken = []\<rparr>)"

definition subnet_Contains :: "IPAM \<Rightarrow> u32 \<Rightarrow> bool" where
  "subnet_Contains a h \<longleftrightarrow> h AND netmask (subnet_ones a) = subnet_ip a"

definition u32ToIP :: "u32 \<Rightarrow> u8 list" where
  "u32ToIP v = be_put 4 (unat v)"

definition GatewayIP :: "IPAM \<Rightarrow> u8 list" where
  "GatewayIP a = be_put 4 (unat (gateway a))"

text \<open>The process-wide registry, keyed by the canonical subnet.\<close>

definition SharedIPAM ::
  "(string \<Rightarrow> cidr option) \<Rightarrow> string \<Rightarrow> (u32 \<times> nat, IPAM) gomap
    \<Rightarrow> (ipam_error + (u32 \<times> nat)) \<times> (u32 \<times> nat, IPAM) gomap" where
  "SharedIPAM parseCIDR gatewayCIDR reg =
     (case NewIPAM parseCIDR gatewayCIDR of
        Inl e \<Rightarrow> (Inl e, reg)
      | Inr a \<Rightarrow>
          let key = (subnet_ip a, subnet_ones a) in
          (Inr key, if map_of reg key \<noteq> None then reg else AList.update key a reg))"

function ipam_scan :: "IPAM \<Rightarrow> u32 \<Rightarrow> u32 option" where
  "ipam_scan a host =
     (if \<not> host < bcast a then None
      else if host = gateway a then ipam_scan a (host + 1)
      else if map_of (taken a) host \<noteq> None then ipam_scan a (host + 1)
      else Some host)"
  by pat_completeness auto
termination
proof (relation "measure (\<lambda>(a, host). unat (bcast a) - unat host)")
qed (auto simp: unat_Suc_less word_less_nat_alt diff_less_mono2)

declare ipam_scan.simps [simp del]

definition hold :: "string \<Rightarrow> u32 \<Rightarrow> IPAM \<Rightarrow> IPAM" where
  "hold t h a = a\<lparr>taken := AList.update h t (taken a), byTask := AList.update t h (byTask a)\<rparr>"

definition ipam_Allocate :: "string \<Rightarrow> IPAM \<Rightarrow> (ipam_error + u8 list) \<times> IPAM" where
  "ipam_Allocate t a =
     (case map_of (byTask a) t of
        Some cur \<Rightarrow> (Inr (u32ToIP cur), a)
      | None \<Rightarrow>
          (case ipam_scan a (base a + guestIPStartHost) of
            Some host \<Rightarrow> (Inr (u32ToIP host), hold t host a)
          | None \<Rightarrow> (Inl PoolExhausted, a)))"

text \<open>\<open>parseIP\<close> is \<^verbatim>\<open>net.ParseIP\<close> followed by \<^verbatim>\<open>To4\<close>: \<open>None\<close> when either fails.\<close>

definition ipam_AllocateGuest ::
  "(string \<Rightarrow> u32 option) \<Rightarrow> string \<Rightarrow> string \<Rightarrow> IPAM \<Rightarrow> (ipam_error + u8 list) \<times> IPAM" where
  "ipam_AllocateGuest parseIP t guestIP a =
     (case parseIP guestIP of
        None \<Rightarrow> (Inl NotIPv4, a)
      | Some host \<Rightarrow>
          if \<not> subnet_Contains a host then (Inl OutsideSubnet, a)
          else if host = gateway a then (Inl IsGateway, a)
          else if host = base a \<or> host = bcast a then (Inl IsNetworkOrBroadcast, a)
          else case map_of (byTask a) t of
            Some cur \<Rightarrow> (if cur = host then Inr (u32ToIP cur) else Inl (TaskHoldsOther cur), a)
          | None \<Rightarrow>
              (case map_of (taken a) host of
                Some owner \<Rightarrow> (Inl (HeldBy owner), a)
              | None \<Rightarrow> (Inr (u32ToIP host), hold t host a)))"

definition ipam_Release :: "string \<Rightarrow> IPAM \<Rightarrow> IPAM" where
  "ipam_Release t a =
     (case map_of (byTask a) t of
        Some cur \<Rightarrow> a\<lparr>byTask := AList.delete t (byTask a), taken := AList.delete cur (taken a)\<rparr>
      | None \<Rightarrow> a)"

datatype ipam_op = IpAllocate string | IpAllocateGuest "string \<Rightarrow> u32 option" string string
  | IpRelease string

fun ipam_step :: "IPAM \<Rightarrow> ipam_op \<Rightarrow> IPAM" where
  "ipam_step a (IpAllocate t) = snd (ipam_Allocate t a)"
| "ipam_step a (IpAllocateGuest parseIP t g) = snd (ipam_AllocateGuest parseIP t g a)"
| "ipam_step a (IpRelease t) = ipam_Release t a"

text \<open>The first address of the scan does not wrap past the end of the address space.\<close>

definition no_wrap :: "IPAM \<Rightarrow> bool" where
  "no_wrap a \<longleftrightarrow> unat (base a) + unat guestIPStartHost < 2 ^ 32"

section \<open>The scan\<close>

lemma ipam_scan_Some:
  "ipam_scan a host = Some h \<Longrightarrow>
     host \<le> h \<and> h < bcast a \<and> h \<noteq> gateway a \<and> map_of (taken a) h = None \<and>
     (\<forall>x. host \<le> x \<longrightarrow> x < h \<longrightarrow> x = gateway a \<or> map_of (taken a) x \<noteq> None)"
proof (induction a host rule: ipam_scan.induct)
  case (1 a host)
  have lt: "host < bcast a"
    using "1.prems" by (subst (asm) ipam_scan.simps) (auto split: if_splits)
  show ?case
  proof (cases "host = gateway a \<or> map_of (taken a) host \<noteq> None")
    case True
    then have "ipam_scan a (host + 1) = Some h"
      using "1.prems" lt by (subst (asm) ipam_scan.simps) (auto split: if_splits)
    with "1.IH" lt True have IH: "host + 1 \<le> h" "h < bcast a" "h \<noteq> gateway a"
        "map_of (taken a) h = None"
        "\<forall>x. host + 1 \<le> x \<longrightarrow> x < h \<longrightarrow> x = gateway a \<or> map_of (taken a) x \<noteq> None"
      by auto
    have step: "x = host \<or> host + 1 \<le> x" if "host \<le> x" for x
      using that lt unat_Suc_less [OF lt] by (auto simp: word_le_nat_alt word_unat_eq_iff)
    have "host \<le> h"
      using IH(1) unat_Suc_less [OF lt] by (simp add: word_le_nat_alt)
    with IH True step show ?thesis by blast
  next
    case False
    with "1.prems" lt have "h = host" by (subst (asm) ipam_scan.simps) auto
    with False lt show ?thesis by auto
  qed
qed

lemma ipam_scan_None:
  "ipam_scan a host = None \<Longrightarrow> host \<le> x \<Longrightarrow> x < bcast a \<Longrightarrow>
     x = gateway a \<or> map_of (taken a) x \<noteq> None"
proof (induction a host rule: ipam_scan.induct)
  case (1 a host)
  have lt: "host < bcast a" using "1.prems"(2,3) by simp
  then have used: "host = gateway a \<or> map_of (taken a) host \<noteq> None"
    and rec: "ipam_scan a (host + 1) = None"
    using "1.prems"(1) by (subst (asm) ipam_scan.simps, auto split: if_splits)+
  show ?case
  proof (cases "x = host")
    case True
    with used show ?thesis by simp
  next
    case False
    then have "host + 1 \<le> x"
      using "1.prems"(2) unat_Suc_less [OF lt] by (auto simp: word_le_nat_alt word_unat_eq_iff)
    with "1.IH" lt used rec "1.prems"(3) show ?thesis by (cases "host = gateway a") blast+
  qed
qed

section \<open>Subnet arithmetic\<close>

lemma unat_mask_u32:
  assumes "n \<le> 32"
  shows "unat (mask n :: u32) = 2 ^ n - 1"
proof -
  have "(2 :: nat) ^ n \<le> 2 ^ 32" using assms by (intro power_increasing) auto
  then have "(2 :: nat) ^ n - 1 < 2 ^ 32" by (simp add: le_imp_less_Suc)
  moreover have eq: "(mask n :: u32) = word_of_nat (2 ^ n - 1)"
    by (metis of_nat_mask_eq mask_eq_exp_minus_1)
  ultimately show ?thesis unfolding eq unat_of_nat by simp
qed

text \<open>
  \<open>ipam_geom\<close> is what \<open>NewIPAM\<close> establishes about the addresses of an allocator, in
  plain numbers: \<open>2 ^ n\<close> addresses from a base that is a multiple of \<open>2 ^ n\<close>.
\<close>

definition host_bits :: "IPAM \<Rightarrow> nat" where
  "host_bits a = 32 - subnet_ones a"

definition ipam_geom :: "IPAM \<Rightarrow> bool" where
  "ipam_geom a \<longleftrightarrow> 8 \<le> subnet_ones a \<and> subnet_ones a \<le> 30 \<and>
     subnet_ip a = base a \<and> base a = gateway a AND netmask (subnet_ones a) \<and>
     bcast a = base a OR NOT (netmask (subnet_ones a))"

lemma unat_netmask: "unat (x AND netmask ones) = unat x div 2 ^ (32 - ones) * 2 ^ (32 - ones)"
  unfolding netmask_def by (rule unat_clear_low)

lemma geom_contains:
  assumes "ipam_geom a"
  shows "subnet_Contains a h \<longleftrightarrow> unat h div 2 ^ host_bits a = unat (base a) div 2 ^ host_bits a"
proof -
  have "unat (base a) = unat (gateway a) div 2 ^ host_bits a * 2 ^ host_bits a"
    using assms by (simp add: ipam_geom_def host_bits_def unat_netmask)
  then have "subnet_Contains a h \<longleftrightarrow>
      unat h div 2 ^ host_bits a * 2 ^ host_bits a = unat (base a) div 2 ^ host_bits a * 2 ^ host_bits a"
    using assms by (simp add: subnet_Contains_def word_unat_eq_iff unat_netmask ipam_geom_def
        host_bits_def)
  then show ?thesis by simp
qed

lemma geom_bcast:
  assumes "ipam_geom a"
  shows "unat (bcast a) = unat (base a) + (2 ^ host_bits a - 1)"
proof -
  have nm: "NOT (netmask (subnet_ones a)) = mask (host_bits a)"
    by (simp add: netmask_def host_bits_def push_bit_minus_one_eq_not_mask)
  have zero: "base a AND mask (host_bits a) = 0"
    using assms by (auto simp: ipam_geom_def nm [symmetric] intro!: bit_word_eqI simp: bit_simps)
  then have add: "bcast a = base a + mask (host_bits a)"
    using assms by (simp add: ipam_geom_def nm disjunctive_add_eq_or)
  have "base a \<le> base a OR mask (host_bits a)" by (rule le_word_or2)
  with zero have "base a \<le> base a + mask (host_bits a)" by (simp add: disjunctive_add_eq_or)
  then have "unat (bcast a) = unat (base a) + unat (mask (host_bits a) :: u32)"
    unfolding add by (simp only: unat_plus_simple)
  also have "unat (mask (host_bits a) :: u32) = 2 ^ host_bits a - 1"
    by (rule unat_mask_u32) (simp add: host_bits_def)
  finally show ?thesis .
qed

lemma NewIPAM_geom: "NewIPAM parse c = Inr a \<Longrightarrow> ipam_geom a \<and> byTask a = [] \<and> taken a = []"
  by (auto simp: NewIPAM_def ipam_geom_def Let_def split: option.splits cidr.splits if_splits)

text \<open>Between the base and the broadcast address, both excluded, lies the subnet.\<close>

lemma geom_inside:
  assumes "ipam_geom a" "base a < h" "h < bcast a"
  shows "subnet_Contains a h \<and> h \<noteq> base a \<and> h \<noteq> bcast a"
proof -
  have "unat (base a) = unat (gateway a) div 2 ^ host_bits a * 2 ^ host_bits a"
    using assms(1) by (simp add: ipam_geom_def host_bits_def unat_netmask)
  moreover have "unat (base a) < unat h" "unat h < unat (base a) + 2 ^ host_bits a"
    using assms geom_bcast [OF assms(1)] by (auto simp: word_less_nat_alt)
  ultimately have "unat h div 2 ^ host_bits a = unat (base a) div 2 ^ host_bits a"
    by (metis div_nat_eqI div_mult_self_is_m less_imp_le mult.commute mult_Suc_right
        add.commute zero_less_numeral zero_less_power)
  with assms geom_contains show ?thesis by auto
qed

section \<open>Invariant\<close>

definition addr_ok :: "IPAM \<Rightarrow> u32 \<Rightarrow> bool" where
  "addr_ok a h \<longleftrightarrow> h \<noteq> gateway a \<and>
     (no_wrap a \<longrightarrow> subnet_Contains a h \<and> h \<noteq> base a \<and> h \<noteq> bcast a)"

definition ipam_ok :: "IPAM \<Rightarrow> bool" where
  "ipam_ok a \<longleftrightarrow> ipam_geom a \<and> gomap_ok (byTask a) \<and> gomap_ok (taken a) \<and>
     (\<forall>t h. map_of (byTask a) t = Some h \<longleftrightarrow> map_of (taken a) h = Some t) \<and>
     (\<forall>t h. map_of (byTask a) t = Some h \<longrightarrow> addr_ok a h)"

lemma maps_frame [simp]:
  "ipam_geom (a\<lparr>byTask := m, taken := k\<rparr>) = ipam_geom a"
  "addr_ok (a\<lparr>byTask := m, taken := k\<rparr>) = addr_ok a"
  "ipam_geom (hold t h a) = ipam_geom a" "addr_ok (hold t h a) = addr_ok a"
  by (simp_all add: hold_def ipam_geom_def addr_ok_def no_wrap_def subnet_Contains_def fun_eq_iff)

lemma ipam_ok_lookup:
  "ipam_ok a \<Longrightarrow> map_of (byTask a) t = Some h \<longleftrightarrow> map_of (taken a) h = Some t"
  by (simp add: ipam_ok_def)

lemma ipam_ok_hold:
  assumes ok: "ipam_ok a" and free: "map_of (byTask a) t = None" "map_of (taken a) h = None"
    and good: "addr_ok a h"
  shows "ipam_ok (hold t h a)"
proof -
  have "map_of (byTask (hold t h a)) t' = Some h' \<longleftrightarrow> map_of (taken (hold t h a)) h' = Some t'"
    for t' h'
    using ipam_ok_lookup [OF ok, of t' h'] free by (auto simp: hold_def gomap_simps)
  moreover have "addr_ok a h'" if "map_of (byTask (hold t h a)) t' = Some h'" for t' h'
    using that ok good by (auto simp: hold_def gomap_simps ipam_ok_def split: if_splits)
  moreover have "gomap_ok (byTask (hold t h a))" "gomap_ok (taken (hold t h a))"
    using ok by (auto simp: hold_def ipam_ok_def)
  ultimately show ?thesis using ok unfolding ipam_ok_def by simp
qed

lemma scan_start:
  assumes "no_wrap a" "base a + guestIPStartHost \<le> h"
  shows "base a < h"
proof -
  have "unat (base a + guestIPStartHost) = unat (base a) + unat guestIPStartHost"
    using assms(1) by (simp add: no_wrap_def unat_word_ariths)
  with assms(2) show ?thesis by (simp add: word_le_nat_alt word_less_nat_alt guestIPStartHost_def)
qed

lemma scan_addr_ok:
  assumes "ipam_ok a" "ipam_scan a (base a + guestIPStartHost) = Some h"
  shows "addr_ok a h \<and> map_of (taken a) h = None"
proof -
  note h = ipam_scan_Some [OF assms(2)]
  have "subnet_Contains a h \<and> h \<noteq> base a \<and> h \<noteq> bcast a" if "no_wrap a"
    using assms(1) h scan_start [OF that, of h] by (intro geom_inside) (auto simp: ipam_ok_def)
  with h show ?thesis by (simp add: addr_ok_def)
qed

lemma ipam_Allocate_ok: "ipam_ok a \<Longrightarrow> ipam_ok (snd (ipam_Allocate t a))"
  by (auto simp: ipam_Allocate_def split: option.split intro: ipam_ok_hold dest: scan_addr_ok)

lemma ipam_AllocateGuest_ok: "ipam_ok a \<Longrightarrow> ipam_ok (snd (ipam_AllocateGuest p t g a))"
  by (auto simp: ipam_AllocateGuest_def addr_ok_def split: option.split intro!: ipam_ok_hold)

lemma ipam_Release_ok:
  assumes "ipam_ok a"
  shows "ipam_ok (ipam_Release t a)"
proof (cases "map_of (byTask a) t")
  case (Some h)
  define b where "b = a\<lparr>byTask := AList.delete t (byTask a), taken := AList.delete h (taken a)\<rparr>"
  have "map_of (byTask b) t' = Some h' \<longleftrightarrow> map_of (taken b) h' = Some t'" for t' h'
    using ipam_ok_lookup [OF assms, of t' h'] ipam_ok_lookup [OF assms, of t h]
      ipam_ok_lookup [OF assms, of t' h] Some
    by (auto simp: b_def gomap_simps)
  moreover have "addr_ok a h'" if "map_of (byTask b) t' = Some h'" for t' h'
    using that assms by (auto simp: b_def gomap_simps ipam_ok_def split: if_splits)
  moreover have "gomap_ok (byTask b)" "gomap_ok (taken b)"
    using assms by (auto simp: b_def ipam_ok_def)
  moreover have "ipam_geom b = ipam_geom a" "addr_ok b = addr_ok a" by (simp_all add: b_def)
  ultimately have "ipam_ok b" using assms unfolding ipam_ok_def by simp
  with Some show ?thesis by (simp add: ipam_Release_def b_def)
qed (use assms in \<open>simp add: ipam_Release_def\<close>)

lemma ipam_run_ok: "ipam_ok a \<Longrightarrow> ipam_ok (foldl ipam_step a ops)"
proof (induction ops arbitrary: a)
  case (Cons x ops)
  have "ipam_ok (ipam_step a x)"
    using Cons.prems by (cases x) (auto intro: ipam_Allocate_ok ipam_AllocateGuest_ok ipam_Release_ok)
  with Cons.IH show ?case by simp
qed simp

lemma NewIPAM_ok: "NewIPAM parse c = Inr a \<Longrightarrow> ipam_ok a"
  using NewIPAM_geom [of parse c a] by (simp add: ipam_ok_def)

lemma ipam_frame [simp]:
  "no_wrap (foldl ipam_step a ops) = no_wrap a"
  "subnet_Contains (foldl ipam_step a ops) = subnet_Contains a"
  "gateway (foldl ipam_step a ops) = gateway a"
  "base (foldl ipam_step a ops) = base a" "bcast (foldl ipam_step a ops) = bcast a"
proof -
  define cfg where "cfg a = (subnet_ip a, subnet_ones a, gateway a, base a, bcast a)" for a :: IPAM
  have "cfg (ipam_step a x) = cfg a" for a x
    by (cases x) (auto simp: cfg_def ipam_Allocate_def ipam_AllocateGuest_def ipam_Release_def
        hold_def split: option.split)
  then have "cfg (foldl ipam_step a ops) = cfg a"
    by (induction ops arbitrary: a) auto
  then show
    "no_wrap (foldl ipam_step a ops) = no_wrap a"
    "subnet_Contains (foldl ipam_step a ops) = subnet_Contains a"
    "gateway (foldl ipam_step a ops) = gateway a"
    "base (foldl ipam_step a ops) = base a" "bcast (foldl ipam_step a ops) = bcast a"
    by (auto simp: cfg_def no_wrap_def subnet_Contains_def fun_eq_iff)
qed

section \<open>The allocator as an allocator of exclusive slots\<close>

lemma u32ToIP_inj [simp]: "u32ToIP v = u32ToIP w \<longleftrightarrow> v = w"
proof
  assume "u32ToIP v = u32ToIP w"
  then have "unat v mod 256 ^ 4 = unat w mod 256 ^ 4"
    unfolding u32ToIP_def by (rule be_put_inj)
  moreover have "unat v < 256 ^ 4" "unat w < 256 ^ 4"
    using unsigned_less [of v, where ?'a = nat] unsigned_less [of w, where ?'a = nat] by simp_all
  ultimately show "v = w" by (simp add: word_unat_eq_iff)
qed simp

definition ipam_acquire :: "IPAM \<Rightarrow> string \<Rightarrow> u8 list option \<times> IPAM" where
  "ipam_acquire a t =
     (case ipam_Allocate t a of (Inr ip, a') \<Rightarrow> (Some ip, a') | (Inl e, a') \<Rightarrow> (None, a'))"

definition ipam_holds :: "IPAM \<Rightarrow> string \<Rightarrow> u8 list option" where
  "ipam_holds a t = map_option u32ToIP (map_of (byTask a) t)"

lemma ipam_holds_hold:
  "map_of (byTask a) t = None \<Longrightarrow> ipam_holds (hold t h a) = (ipam_holds a)(t \<mapsto> u32ToIP h)"
  by (auto simp: ipam_holds_def hold_def gomap_simps fun_eq_iff)

lemma ipam_free_ran:
  assumes "ipam_ok a" "map_of (taken a) h = None"
  shows "u32ToIP h \<notin> ran (ipam_holds a)"
  using assms by (auto simp: ipam_holds_def ran_def ipam_ok_lookup)

interpretation ipamt: slot_owner ipam_acquire "\<lambda>a t. ipam_Release t a" ipam_holds ipam_ok
proof
  fix a :: IPAM and t v a'
  assume ok: "ipam_ok a"
  show "ipam_acquire a t = (Some v, a)" if "ipam_holds a t = Some v"
    using that by (auto simp: ipam_acquire_def ipam_holds_def ipam_Allocate_def)
  show "v \<notin> ran (ipam_holds a) \<and> ipam_holds a' = (ipam_holds a)(t \<mapsto> v)"
    if "ipam_holds a t = None" "ipam_acquire a t = (Some v, a')"
    using that ok ipam_free_ran [OF ok] ipam_holds_hold [of a t]
    by (auto simp: ipam_acquire_def ipam_holds_def [of a t] ipam_Allocate_def
        dest: scan_addr_ok split: option.splits)
  show "ipam_holds a' = ipam_holds a" if "ipam_acquire a t = (None, a')"
    using that by (auto simp: ipam_acquire_def ipam_Allocate_def split: option.splits)
  show "ipam_holds (ipam_Release t a) = (ipam_holds a)(t := None)"
    by (auto simp: ipam_holds_def ipam_Release_def fun_eq_iff gomap_simps split: option.split)
  show "ipam_ok (snd (ipam_acquire a t))"
    using ipam_Allocate_ok [OF ok, of t] by (auto simp: ipam_acquire_def split: prod.split sum.split)
  show "ipam_ok (ipam_Release t a)" using ok by (rule ipam_Release_ok)
qed

section \<open>Properties\<close>

text \<open>
  C8: However allocations, pinned allocations and releases interleave on an allocator of a
  subnet whose scan start does not wrap, two tasks never hold the same guest address, and
  every held address lies inside the subnet and is neither the gateway nor the network or
  broadcast address.
\<close>

theorem ipam_addresses_sound:
  assumes "NewIPAM parse c = Inr a" "no_wrap a"
    and "map_of (byTask (foldl ipam_step a ops)) t = Some h"
  shows "subnet_Contains a h \<and> h \<noteq> gateway a \<and> h \<noteq> base a \<and> h \<noteq> bcast a \<and>
    (\<forall>t'. map_of (byTask (foldl ipam_step a ops)) t' = Some h \<longrightarrow> t' = t)"
proof -
  have ok: "ipam_ok (foldl ipam_step a ops)"
    using assms(1) by (intro ipam_run_ok NewIPAM_ok)
  then have "addr_ok (foldl ipam_step a ops) h"
    using assms(3) by (auto simp: ipam_ok_def)
  with assms(2) have "subnet_Contains a h \<and> h \<noteq> gateway a \<and> h \<noteq> base a \<and> h \<noteq> bcast a"
    by (simp add: addr_ok_def)
  moreover have "t' = t" if "map_of (byTask (foldl ipam_step a ops)) t' = Some h" for t'
    using that assms(3) ipam_ok_lookup [OF ok, of t' h] ipam_ok_lookup [OF ok, of t h] by simp
  ultimately show ?thesis by blast
qed

text \<open>A concrete allocator for the witnesses: 192.168.7.1/25.\<close>

definition demo_parse :: "string \<Rightarrow> cidr option" where
  "demo_parse c = (if c = ''192.168.7.1/25'' then Some (Cidr4 0xC0A80701 25) else None)"

definition demo_ipam :: IPAM where
  "demo_ipam = \<lparr>subnet_ip = 0xC0A80700, subnet_ones = 25, gateway = 0xC0A80701, base = 0xC0A80700,
     bcast = 0xC0A8077F, byTask = [], taken = []\<rparr>"

lemma demo_NewIPAM: "NewIPAM demo_parse ''192.168.7.1/25'' = Inr demo_ipam"
  by (simp add: NewIPAM_def demo_parse_def demo_ipam_def netmask_def push_bit_eq_mult Let_def)

lemma demo_no_wrap: "no_wrap demo_ipam"
  by (simp add: no_wrap_def demo_ipam_def guestIPStartHost_def)

lemma demo_run:
  "foldl ipam_step demo_ipam [IpAllocate ''a'', IpAllocate ''b'']
     = demo_ipam\<lparr>byTask := [(''a'', 0xC0A80764), (''b'', 0xC0A80765)],
         taken := [(0xC0A80764, ''a''), (0xC0A80765, ''b'')]\<rparr>"
  by (simp add: ipam_Allocate_def demo_ipam_def ipam_scan.simps guestIPStartHost_def hold_def)

theorem ipam_addresses_sound_witness:
  "subnet_Contains demo_ipam 0xC0A80765 \<and> 0xC0A80765 \<noteq> gateway demo_ipam"
  using ipam_addresses_sound [OF demo_NewIPAM demo_no_wrap, of "[IpAllocate ''a'', IpAllocate ''b'']"
      "''b''" "0xC0A80765"]
  unfolding demo_run by simp



text \<open>
  C23: For a small subnet at the very end of the address space the start of the scan wraps
  around: \<open>NewIPAM\<close> accepts 255.255.255.193/26, and Allocate then hands out 0.0.0.36,
  an address outside the subnet.
\<close>

theorem ipam_scan_wraps:
  assumes "parse ''255.255.255.193/26'' = Some (Cidr4 0xFFFFFFC1 26)"
  shows "\<exists>a. NewIPAM parse ''255.255.255.193/26'' = Inr a \<and>
    fst (ipam_Allocate t a) = Inr [0, 0, 0, 36] \<and> \<not> subnet_Contains a 36"
proof -
  let ?a = "\<lparr>subnet_ip = 0xFFFFFFC0, subnet_ones = 26, gateway = 0xFFFFFFC1, base = 0xFFFFFFC0,
     bcast = 0xFFFFFFFF, byTask = [], taken = []\<rparr> :: IPAM"
  have "NewIPAM parse ''255.255.255.193/26'' = Inr ?a"
    using assms by (simp add: NewIPAM_def netmask_def push_bit_eq_mult Let_def)
  moreover have "fst (ipam_Allocate t ?a) = Inr (u32ToIP 36)"
    by (simp add: ipam_Allocate_def ipam_scan.simps guestIPStartHost_def)
  moreover have "u32ToIP 36 = [0, 0, 0, 36]"
    by (simp add: u32ToIP_def be_put_def)
  moreover have "\<not> subnet_Contains ?a 36"
    by (simp add: subnet_Contains_def netmask_def push_bit_eq_mult)
  ultimately show ?thesis by auto
qed

theorem ipam_scan_wraps_witness:
  "\<exists>a. NewIPAM (\<lambda>c. Some (Cidr4 0xFFFFFFC1 26)) ''255.255.255.193/26'' = Inr a \<and>
    fst (ipam_Allocate ''task'' a) = Inr [0, 0, 0, 36] \<and> \<not> subnet_Contains a 36"
  by (rule ipam_scan_wraps) simp

end
