(* ===== verification/Text.thy ===== *)
theory Text
  imports Prelude
begin

text \<open>
  Strings as the sources use them: \<^verbatim>\<open>strconv\<close> decimals, \<^verbatim>\<open>strings.Fields\<close>,
  \<^verbatim>\<open>strings.ToLower\<close>, \<^verbatim>\<open>strings.Contains\<close> and \<^verbatim>\<open>strings.HasPrefix\<close>. A
  character stands for a rune below 256, so lower-casing only moves the ASCII letters that
  the callers look for.
\<close>

section \<open>Decimal numerals\<close>

definition digit_char :: "nat \<Rightarrow> char" where
  "digit_char d = char_of (48 + d)"

definition is_digit :: "char \<Rightarrow> bool" where
  "is_digit c \<longleftrightarrow> 48 \<le> ord c \<and> ord c \<le> 57"

definition digit_val :: "char \<Rightarrow> nat" where
  "digit_val c = ord c - 48"

fun dec_nat :: "nat \<Rightarrow> string" where
  "dec_nat n = (if n < 10 then [digit_char n] else dec_nat (n div 10) @ [digit_char (n mod 10)])"

declare dec_nat.simps [simp del]

definition dec_int :: "int \<Rightarrow> string" where
  "dec_int i = (if i < 0 then CHR ''-'' # dec_nat (nat (- i)) else dec_nat (nat i))"

primrec val_acc :: "nat \<Rightarrow> string \<Rightarrow> nat" where
  "val_acc a [] = a"
| "val_acc a (c # cs) = val_acc (10 * a + digit_val c) cs"

text \<open>\<^verbatim>\<open>strconv.ParseInt(s, 10, 64)\<close>\<close>

definition ParseInt :: "string \<Rightarrow> int option" where
  "ParseInt s =
     (let (neg, ds) = (case s of
            c # cs \<Rightarrow> if c = CHR ''-'' then (True, cs) else if c = CHR ''+'' then (False, cs)
                      else (False, s)
          | [] \<Rightarrow> (False, []));
          v = (if neg then - int (val_acc 0 ds) else int (val_acc 0 ds))
      in if ds = [] \<or> \<not> list_all is_digit ds \<or> v < - (2 ^ 63) \<or> 2 ^ 63 \<le> v then None else Some v)"

lemma ord_digit_char [simp]: "d < 10 \<Longrightarrow> ord (digit_char d) = 48 + d"
  by (simp add: digit_char_def)

lemma digit_char_digit [simp]: "d < 10 \<Longrightarrow> is_digit (digit_char d)"
  by (simp add: is_digit_def)

lemma digit_val_char [simp]: "d < 10 \<Longrightarrow> digit_val (digit_char d) = d"
  by (simp add: digit_val_def)

lemma dec_nat_digits: "list_all is_digit (dec_nat n)"
proof (induction n rule: dec_nat.induct)
  case (1 n)
  show ?case
    by (cases "n < 10") (simp_all add: dec_nat.simps [of n] "1.IH")
qed

lemma dec_nat_nonempty [simp]: "dec_nat n \<noteq> []"
  by (simp add: dec_nat.simps [of n])

lemma val_acc_append: "val_acc a (xs @ ys) = val_acc (val_acc a xs) ys"
  by (induction xs arbitrary: a) auto

lemma val_dec_nat: "val_acc 0 (dec_nat n) = n"
proof (induction n rule: dec_nat.induct)
  case (1 n)
  show ?case
    by (cases "n < 10") (simp_all add: dec_nat.simps [of n] "1.IH" val_acc_append)
qed

lemma dec_nat_inj [simp]: "dec_nat m = dec_nat n \<longleftrightarrow> m = n"
  by (metis val_dec_nat)

lemma dec_nat_not_sign: "c \<in> set (dec_nat n) \<Longrightarrow> is_digit c"
  using dec_nat_digits [of n] by (simp add: list_all_iff)

lemma dec_int_inj [simp]: "dec_int i = dec_int j \<longleftrightarrow> i = j"
proof -
  have no: "dec_nat n \<noteq> CHR ''-'' # xs" for n xs
    using dec_nat_not_sign [of "CHR ''-''" n] by (auto simp: is_digit_def)
  then have no': "CHR ''-'' # xs \<noteq> dec_nat n" for n xs by metis
  show ?thesis by (auto simp: dec_int_def no no')
qed

lemma ParseInt_dec:
  assumes "0 \<le> i" "i < 2 ^ 63"
  shows "ParseInt (dec_int i) = Some i"
proof -
  obtain c cs where eq: "dec_nat (nat i) = c # cs" by (cases "dec_nat (nat i)") auto
  then have "is_digit c" using dec_nat_not_sign [of c "nat i"] by simp
  then have "c \<noteq> CHR ''-''" "c \<noteq> CHR ''+''" by (auto simp: is_digit_def)
  then have "(case dec_nat (nat i) of
            c # cs \<Rightarrow> if c = CHR ''-'' then (True, cs) else if c = CHR ''+'' then (False, cs)
                      else (False, dec_nat (nat i))
          | [] \<Rightarrow> (False, [])) = (False, dec_nat (nat i))"
    by (simp add: eq)
  with assms show ?thesis
    by (simp add: ParseInt_def dec_int_def dec_nat_digits val_dec_nat)
qed

section \<open>Fields\<close>

definition is_space :: "char \<Rightarrow> bool" where
  "is_space c \<longleftrightarrow> ord c \<in> {9, 10, 11, 12, 13, 32, 133, 160}"

text \<open>\<^verbatim>\<open>strings.Fields\<close>\<close>

function Fields :: "string \<Rightarrow> string list" where
  "Fields s = (let t = dropWhile is_space s in
     if t = [] then []
     else takeWhile (\<lambda>c. \<not> is_space c) t # Fields (dropWhile (\<lambda>c. \<not> is_space c) t))"
  by pat_completeness auto
termination
proof (relation "measure length")
  fix s t :: string
  assume t: "t = dropWhile is_space s" "t \<noteq> []"
  then obtain c cs where "t = c # cs" "\<not> is_space c"
    by (metis hd_dropWhile list.exhaust_sel)
  then have "length (dropWhile (\<lambda>c. \<not> is_space c) t) < length t"
    by (simp add: le_imp_less_Suc length_dropWhile_le)
  also have "length t \<le> length s" by (simp add: t length_dropWhile_le)
  finally show "(dropWhile (\<lambda>c. \<not> is_space c) t, s) \<in> measure length" by simp
qed simp

declare Fields.simps [simp del]

definition plain_word :: "string \<Rightarrow> bool" where
  "plain_word w \<longleftrightarrow> w \<noteq> [] \<and> list_all (\<lambda>c. \<not> is_space c) w"

lemma Fields_spaces: "list_all is_space s \<Longrightarrow> Fields s = []"
  by (subst Fields.simps) (auto simp: Let_def list_all_iff)

lemma Fields_word:
  assumes "plain_word w" "s = [] \<or> is_space (hd s)"
  shows "Fields (w @ s) = w # Fields s"
proof -
  obtain c cs where w: "w = c # cs" "\<not> is_space c"
    using assms(1) by (cases w) (auto simp: plain_word_def)
  have "takeWhile (\<lambda>c. \<not> is_space c) (w @ s) = w" "dropWhile (\<lambda>c. \<not> is_space c) (w @ s) = s"
    using assms by (cases s; auto simp: plain_word_def list_all_iff takeWhile_append dropWhile_append)+
  with w show ?thesis by (subst Fields.simps) (simp add: Let_def)
qed

lemma Fields_skip: "is_space c \<Longrightarrow> Fields (c # s) = Fields s"
  by (subst (1 2) Fields.simps) simp

lemma plain_word_dec_int: "0 \<le> i \<Longrightarrow> plain_word (dec_int i)"
  using dec_nat_digits [of "nat i"]
  by (auto simp: plain_word_def dec_int_def list_all_iff is_digit_def is_space_def)

section \<open>Lower case, prefixes and substrings\<close>

definition to_lower :: "char \<Rightarrow> char" where
  "to_lower c = (if 65 \<le> ord c \<and> ord c \<le> 90 then char_of (ord c + 32) else c)"

definition ToLower :: "string \<Rightarrow> string" where
  "ToLower s = map to_lower s"

primrec HasPrefix :: "string \<Rightarrow> string \<Rightarrow> bool" where
  "HasPrefix s [] = True"
| "HasPrefix s (p # ps) = (case s of [] \<Rightarrow> False | c # cs \<Rightarrow> c = p \<and> HasPrefix cs ps)"

fun Contains :: "string \<Rightarrow> string \<Rightarrow> bool" where
  "Contains [] p = (p = [])"
| "Contains (c # cs) p = (HasPrefix (c # cs) p \<or> Contains cs p)"

lemma HasPrefix_iff: "HasPrefix s p \<longleftrightarrow> (\<exists>z. s = p @ z)"
  by (induction p arbitrary: s) (auto split: list.splits)

lemma Contains_iff: "Contains s p \<longleftrightarrow> (\<exists>a z. s = a @ p @ z)"
proof (induction s)
  case (Cons c cs)
  show ?case
  proof
    assume "Contains (c # cs) p"
    then show "\<exists>a z. c # cs = a @ p @ z"
      using Cons.IH by (auto simp: HasPrefix_iff) (metis append_Cons append_Nil)+
  next
    assume "\<exists>a z. c # cs = a @ p @ z"
    then obtain a z where eq: "c # cs = a @ p @ z" by blast
    show "Contains (c # cs) p"
    proof (cases a)
      case Nil
      with eq have "HasPrefix (c # cs) p" by (simp add: HasPrefix_iff)
      then show ?thesis by simp
    next
      case (Cons b bs)
      with eq Cons.IH show ?thesis by auto
    qed
  qed
qed auto

lemma ToLower_idem [simp]: "ToLower (ToLower s) = ToLower s"
  by (auto simp: ToLower_def to_lower_def)

end
