(* ===== verification/Redact.thy ===== *)
theory Redact
  imports Text
begin

text \<open>
  Secret redaction, \<^verbatim>\<open>internal/audit/redact.go\<close>.

  The six regular expressions share one shape: an optional word boundary, a fixed head
  (alternatives of character classes), an optional run of white space, and a greedy run
  of one class with a lower and possibly an upper bound. The head alternatives of one
  expression exclude each other (each ends in \<open>=\<close>), and the run classes exclude what
  follows them, so the leftmost-first match of Go's engine is the one computed here
  without backtracking. \<open>replace_all\<close> is \<^verbatim>\<open>ReplaceAllString\<close>: leftmost matches,
  not overlapping.
\<close>

section \<open>Patterns\<close>

record pattern =
  p_boundary :: bool
  p_heads :: "(char \<Rightarrow> bool) list list"
  p_mid :: "(char \<Rightarrow> bool) option"
  p_body :: "char \<Rightarrow> bool"
  p_min :: nat
  p_max :: "nat option"
  p_keep :: bool

definition RedactedPlaceholder :: string where
  "RedactedPlaceholder = ''[REDACTED]''"

definition upper :: "char \<Rightarrow> bool" where
  "upper c \<longleftrightarrow> 65 \<le> ord c \<and> ord c \<le> 90"

definition alnum :: "char \<Rightarrow> bool" where
  "alnum c \<longleftrightarrow> upper c \<or> (97 \<le> ord c \<and> ord c \<le> 122) \<or> is_digit c"

definition word_char :: "char \<Rightarrow> bool" where
  "word_char c \<longleftrightarrow> alnum c \<or> c = CHR ''_''"

definition re_space :: "char \<Rightarrow> bool" where
  "re_space c \<longleftrightarrow> ord c \<in> {9, 10, 12, 13, 32}"

definition value_char :: "char \<Rightarrow> bool" where
  "value_char c \<longleftrightarrow> \<not> re_space c \<and> ord c \<notin> {38, 34, 39, 60, 62}"

definition lit :: "string \<Rightarrow> (char \<Rightarrow> bool) list" where
  "lit s = map (\<lambda>c d. d = c) s"

definition lit_i :: "string \<Rightarrow> (char \<Rightarrow> bool) list" where
  "lit_i s = map (\<lambda>c d. to_lower d = c) s"

definition one_of :: "string \<Rightarrow> char \<Rightarrow> bool" where
  "one_of s d \<longleftrightarrow> d \<in> set s"

definition github_pat :: pattern where
  "github_pat = \<lparr>p_boundary = False, p_heads = [lit ''gh'' @ [one_of ''pousr''] @ lit ''_''],
     p_mid = None, p_body = alnum, p_min = 36, p_max = None, p_keep = False\<rparr>"

definition aws_pat :: pattern where
  "aws_pat = \<lparr>p_boundary = False, p_heads = [lit ''AKIA''],
     p_mid = None, p_body = (\<lambda>c. is_digit c \<or> upper c), p_min = 16, p_max = Some 16, p_keep = False\<rparr>"

definition slack_pat :: pattern where
  "slack_pat = \<lparr>p_boundary = False, p_heads = [lit ''xox'' @ [one_of ''baprs''] @ lit ''-''],
     p_mid = None, p_body = (\<lambda>c. alnum c \<or> c = CHR ''-''), p_min = 10, p_max = None, p_keep = False\<rparr>"

definition bearer_pat :: pattern where
  "bearer_pat = \<lparr>p_boundary = False, p_heads = [lit_i ''bearer''],
     p_mid = Some re_space, p_body = (\<lambda>c. alnum c \<or> one_of ''-._~+'' c), p_min = 20, p_max = None,
     p_keep = False\<rparr>"

definition query_pat :: pattern where
  "query_pat = \<lparr>p_boundary = False,
     p_heads = map (\<lambda>w. one_of ''?&'' # lit_i w @ lit ''='')
       [''token'', ''sig'', ''signature'', ''api_key'', ''apikey'', ''access_token'', ''secret'',
        ''password'', ''key'', ''auth''],
     p_mid = None, p_body = value_char, p_min = 1, p_max = None, p_keep = True\<rparr>"

definition assign_pat :: pattern where
  "assign_pat = \<lparr>p_boundary = True,
     p_heads = map (\<lambda>w. lit_i w @ lit ''='')
       [''token'', ''secret'', ''password'', ''passwd'', ''api_key'', ''apikey'', ''access_token'',
        ''credential'', ''cookie''],
     p_mid = None, p_body = value_char, p_min = 4, p_max = None, p_keep = True\<rparr>"

definition secretRedactionPatterns :: "pattern list" where
  "secretRedactionPatterns = [github_pat, aws_pat, slack_pat, bearer_pat, query_pat, assign_pat]"

section \<open>Matching and replacing\<close>

fun match_head :: "(char \<Rightarrow> bool) list \<Rightarrow> string \<Rightarrow> bool" where
  "match_head [] s = True"
| "match_head (f # fs) [] = False"
| "match_head (f # fs) (c # cs) = (f c \<and> match_head fs cs)"

text \<open>
  A match at the start of \<open>s\<close>, with the character before it: the length of the head and
  of the whole match. Every head of a pattern with a boundary starts with a letter, so the
  boundary holds where no word character precedes.
\<close>

definition match_at :: "pattern \<Rightarrow> char option \<Rightarrow> string \<Rightarrow> (nat \<times> nat) option" where
  "match_at p prev s =
     (if p_boundary p \<and> (case prev of None \<Rightarrow> False | Some c \<Rightarrow> word_char c) then None
      else case find (\<lambda>h. match_head h s) (p_heads p) of
        None \<Rightarrow> None
      | Some h \<Rightarrow>
          let k = length h; rest = drop k s;
              m = (case p_mid p of None \<Rightarrow> 0 | Some f \<Rightarrow> length (takeWhile f rest));
              run = length (takeWhile (p_body p) (drop m rest));
              n = (case p_max p of None \<Rightarrow> run | Some x \<Rightarrow> min run x)
          in if p_mid p \<noteq> None \<and> m = 0 \<or> n < p_min p then None else Some (k, k + m + n))"

function replace_all :: "pattern \<Rightarrow> char option \<Rightarrow> string \<Rightarrow> string" where
  "replace_all p prev [] = []"
| "replace_all p prev (c # cs) =
     (case match_at p prev (c # cs) of
        Some (k, n) \<Rightarrow>
          (if p_keep p then take k (c # cs) else []) @ RedactedPlaceholder @
          replace_all p (Some ((c # cs) ! (max 1 n - 1))) (drop (max 1 n) (c # cs))
      | None \<Rightarrow> c # replace_all p (Some c) cs)"
  by pat_completeness auto
termination
  by (relation "measure (\<lambda>(p, prev, s). length s)") auto

definition RedactSecrets :: "string \<Rightarrow> string" where
  "RedactSecrets s = fold (\<lambda>p t. replace_all p None t) secretRedactionPatterns s"

section \<open>Values\<close>

text \<open>
  The dynamic values that reach \<open>ScrubValue\<close>. \<open>VOther\<close> is a value of any other Go type,
  given by its JSON text; it passes through unchanged.
\<close>

datatype gval =
    VNil
  | VBool bool
  | VInt int
  | VStr string
  | VArr "gval list"
  | VObj "(string \<times> gval) list"
  | VStrMap "(string \<times> string) list"
  | VStrArr "string list"
  | VOther string

definition secretKeyDenylist :: "string list" where
  "secretKeyDenylist = [''token'', ''secret'', ''password'', ''passwd'', ''key'', ''credential'',
     ''cookie'', ''auth'']"

definition IsSafeSummaryKey :: "string \<Rightarrow> bool" where
  "IsSafeSummaryKey k = list_all (\<lambda>bad. \<not> Contains (ToLower k) bad) secretKeyDenylist"

fun ScrubValue :: "gval \<Rightarrow> gval" where
  "ScrubValue (VObj kvs) =
     VObj (map (\<lambda>(k, v). (k, ScrubValue v)) (filter (\<lambda>(k, v). IsSafeSummaryKey k) kvs))"
| "ScrubValue (VStrMap kvs) =
     VObj (map (\<lambda>(k, v). (k, VStr (RedactSecrets v))) (filter (\<lambda>(k, v). IsSafeSummaryKey k) kvs))"
| "ScrubValue (VArr vs) = VArr (map ScrubValue vs)"
| "ScrubValue (VStrArr ss) = VArr (map (\<lambda>s. VStr (RedactSecrets s)) ss)"
| "ScrubValue (VStr s) = VStr (RedactSecrets s)"
| "ScrubValue v = v"

text \<open>
  A credential shape occurs somewhere in a text: the pattern matches at one of its
  positions, the word boundary aside.
\<close>

fun has_match :: "pattern \<Rightarrow> string \<Rightarrow> bool" where
  "has_match p [] = False"
| "has_match p (c # cs) = (match_at p None (c # cs) \<noteq> None \<or> has_match p cs)"

declare has_match.simps(2) [simp del]

lemmas has_match_Cons = has_match.simps(2)

section \<open>Matching is local\<close>

text \<open>
  \<open>opaque p c\<close>: no match of \<open>p\<close> extends over the character \<open>c\<close>. The brackets of the
  placeholder are opaque to the four token patterns.
\<close>

definition opaque :: "pattern \<Rightarrow> char \<Rightarrow> bool" where
  "opaque p c \<longleftrightarrow> (\<forall>h\<in>set (p_heads p). \<forall>f\<in>set h. \<not> f c) \<and> \<not> p_body p c \<and>
     (case p_mid p of None \<Rightarrow> True | Some f \<Rightarrow> \<not> f c)"

text \<open>
  A token pattern: one non-empty head, a body that must be there, and neither the brackets
  nor the word of the placeholder take part in a match.
\<close>

definition token_pattern :: "pattern \<Rightarrow> bool" where
  "token_pattern p \<longleftrightarrow> length (p_heads p) = 1 \<and> hd (p_heads p) \<noteq> [] \<and> \<not> p_boundary p \<and>
     0 < p_min p \<and> (case p_max p of None \<Rightarrow> True | Some x \<Rightarrow> p_min p \<le> x) \<and>
     opaque p (CHR ''['') \<and> opaque p (CHR '']'') \<and> \<not> has_match p ''REDACTED''"

definition match_len :: "pattern \<Rightarrow> (char \<Rightarrow> bool) list \<Rightarrow> string \<Rightarrow> bool" where
  "match_len p h s =
     (let rest = drop (length h) s;
          m = (case p_mid p of None \<Rightarrow> 0 | Some f \<Rightarrow> length (takeWhile f rest))
      in match_head h s \<and> (p_mid p \<noteq> None \<longrightarrow> 0 < m) \<and>
         p_min p \<le> length (takeWhile (p_body p) (drop m rest)))"

lemma token_pattern_head: "token_pattern p \<Longrightarrow> \<exists>h. p_heads p = [h] \<and> h \<noteq> []"
  by (cases "p_heads p") (auto simp: token_pattern_def)

lemma token_pattern_hd: "token_pattern p \<Longrightarrow> hd (p_heads p) \<in> set (p_heads p)"
  using token_pattern_head by fastforce

lemma match_at_token:
  assumes "token_pattern p"
  shows "match_at p prev s \<noteq> None \<longleftrightarrow> match_len p (hd (p_heads p)) s"
proof -
  obtain h where h: "p_heads p = [h]" using token_pattern_head [OF assms] by blast
  have "\<not> p_boundary p" "case p_max p of None \<Rightarrow> True | Some x \<Rightarrow> p_min p \<le> x"
    using assms by (simp_all add: token_pattern_def)
  then show ?thesis
    by (cases "p_mid p"; cases "p_max p") (auto simp: match_at_def match_len_def h Let_def not_less min_less_iff_disj)
qed

lemma match_head_append: "match_head h s \<Longrightarrow> match_head h (s @ t)"
  by (induction h s rule: match_head.induct) auto

lemma match_head_length: "match_head h s \<Longrightarrow> length h \<le> length s"
  by (induction h s rule: match_head.induct) auto

lemma match_head_cut:
  "\<forall>f\<in>set h. \<not> f c \<Longrightarrow> match_head h (u @ c # v) \<longleftrightarrow> match_head h u"
proof (induction h u rule: match_head.induct)
  case (2 f fs)
  then show ?case by simp
qed auto

lemma takeWhile_cut: "\<not> f c \<Longrightarrow> takeWhile f (u @ c # v) = takeWhile f u"
  by (induction u) auto

lemma match_len_cut:
  assumes "opaque p c" "h \<in> set (p_heads p)"
  shows "match_len p h (u @ c # v) \<longleftrightarrow> match_len p h u"
proof (cases "match_head h u")
  case True
  have body: "\<not> p_body p c" using assms by (simp add: opaque_def)
  have mid: "\<not> f c" if "p_mid p = Some f" for f using assms that by (simp add: opaque_def)
  have d: "drop (length h) (u @ c # v) = drop (length h) u @ c # v"
    using match_head_length [OF True] by simp
  have hd: "match_head h (u @ c # v)" using match_head_append [OF True] .
  show ?thesis
  proof (cases "p_mid p")
    case None
    then show ?thesis using True hd by (simp add: match_len_def d takeWhile_cut body del: drop_append)
  next
    case (Some f)
    let ?w = "drop (length h) u"
    have "drop (length (takeWhile f ?w)) (?w @ c # v) = drop (length (takeWhile f ?w)) ?w @ c # v"
      using length_takeWhile_le [of f ?w] by simp
    then show ?thesis using True hd Some
      by (simp add: match_len_def d takeWhile_cut body mid Let_def del: drop_append)
  qed
next
  case False
  then show ?thesis
    using assms match_head_cut [of h c u v] by (auto simp: match_len_def opaque_def Let_def)
qed

lemma takeWhile_append_len: "length (takeWhile f s) \<le> length (takeWhile f (s @ t))"
  by (induction s) auto

lemma takeWhile_inside:
  "length (takeWhile f s) < length s \<Longrightarrow> takeWhile f (s @ t) = takeWhile f s"
  by (induction s) auto

lemma match_len_append:
  assumes "match_len p h s" "0 < p_min p"
  shows "match_len p h (s @ t)"
proof -
  let ?w = "drop (length h) s"
  have mh: "match_head h s" using assms(1) by (simp add: match_len_def Let_def)
  have d: "drop (length h) (s @ t) = ?w @ t" using match_head_length [OF mh] by simp
  show ?thesis
  proof (cases "p_mid p")
    case None
    then have "p_min p \<le> length (takeWhile (p_body p) ?w)"
      using assms(1) by (simp add: match_len_def)
    then have "p_min p \<le> length (takeWhile (p_body p) (?w @ t))"
      by (rule order_trans) (rule takeWhile_append_len)
    then show ?thesis using None mh by (simp add: match_len_def d match_head_append del: drop_append)
  next
    case (Some f)
    let ?m = "length (takeWhile f ?w)"
    have m: "0 < ?m" and b: "p_min p \<le> length (takeWhile (p_body p) (drop ?m ?w))"
      using assms(1) Some by (simp_all add: match_len_def Let_def)
    have "drop ?m ?w \<noteq> []" using b assms(2) by (metis takeWhile.simps(1) list.size(3) not_less)
    then have lt: "?m < length ?w" by simp
    then have tw: "takeWhile f (?w @ t) = takeWhile f ?w" by (rule takeWhile_inside)
    have dd: "drop ?m (?w @ t) = drop ?m ?w @ t" using lt by simp
    have "p_min p \<le> length (takeWhile (p_body p) (drop ?m ?w @ t))"
      using b by (rule order_trans) (rule takeWhile_append_len)
    then show ?thesis using Some mh m
      by (simp add: match_len_def d dd tw match_head_append Let_def del: drop_append)
  qed
qed

lemma token_min: "token_pattern p \<Longrightarrow> 0 < p_min p"
  by (simp add: token_pattern_def)

lemma has_match_prefix:
  assumes "token_pattern p"
  shows "has_match p s \<Longrightarrow> has_match p (s @ t)"
proof (induction s)
  case (Cons c cs)
  show ?case
  proof (cases "has_match p cs")
    case True
    then show ?thesis using Cons.IH by (simp add: has_match_Cons)
  next
    case False
    then have "match_len p (hd (p_heads p)) (c # cs)"
      using Cons.prems match_at_token [OF assms, of None "c # cs"] by (simp add: has_match_Cons)
    then have "match_len p (hd (p_heads p)) ((c # cs) @ t)"
      using token_min [OF assms] by (rule match_len_append)
    then show ?thesis using match_at_token [OF assms, of None "(c # cs) @ t"] by (simp add: has_match_Cons)
  qed
qed simp

lemma has_match_suffix: "has_match p t \<Longrightarrow> has_match p (s @ t)"
  by (induction s) (auto simp: has_match_Cons)

lemma match_len_opaque_start:
  assumes "opaque p c" "h \<in> set (p_heads p)" "h \<noteq> []"
  shows "\<not> match_len p h (c # v)"
  using assms by (cases h) (auto simp: match_len_def opaque_def Let_def)

lemma has_match_cut:
  assumes p: "token_pattern p" and c: "opaque p c"
  shows "has_match p (u @ c # v) \<longleftrightarrow> has_match p u \<or> has_match p v"
proof (induction u)
  case Nil
  have "\<not> match_len p (hd (p_heads p)) (c # v)"
    using p c token_pattern_hd [OF p]
    by (intro match_len_opaque_start) (simp_all add: token_pattern_def)
  then show ?case using match_at_token [OF p, of None "c # v"] by (simp add: has_match_Cons)
next
  case (Cons d u)
  have "match_len p (hd (p_heads p)) ((d # u) @ c # v) \<longleftrightarrow> match_len p (hd (p_heads p)) (d # u)"
    by (rule match_len_cut [OF c token_pattern_hd [OF p]])
  then show ?case
    using Cons.IH match_at_token [OF p, of None "d # u"] match_at_token [OF p, of None "d # u @ c # v"]
    by (auto simp: has_match_Cons)
qed

lemma has_match_placeholder:
  assumes "token_pattern p"
  shows "has_match p (u @ RedactedPlaceholder @ v) \<longleftrightarrow> has_match p u \<or> has_match p v"
proof -
  have o: "opaque p (CHR ''['')" "opaque p (CHR '']'')" "\<not> has_match p ''REDACTED''"
    using assms by (simp_all add: token_pattern_def)
  have "u @ RedactedPlaceholder @ v = u @ CHR ''['' # (''REDACTED'' @ CHR '']'' # v)"
    by (simp add: RedactedPlaceholder_def)
  then show ?thesis
    using has_match_cut [OF assms o(1), of u "''REDACTED'' @ CHR '']'' # v"]
      has_match_cut [OF assms o(2), of "''REDACTED''" v] o(3)
    by (simp only:) blast
qed

section \<open>What redaction leaves\<close>

lemma has_match_found:
  assumes "token_pattern p"
  shows "has_match p u \<Longrightarrow> \<exists>i<length u. match_at p None (drop i u @ s) \<noteq> None"
proof (induction u)
  case (Cons c cs)
  show ?case
  proof (cases "has_match p cs")
    case True
    then obtain i where "i < length cs" "match_at p None (drop i cs @ s) \<noteq> None"
      using Cons.IH by blast
    then show ?thesis by (intro exI [of _ "Suc i"]) simp
  next
    case False
    then have "match_len p (hd (p_heads p)) (c # cs)"
      using Cons.prems match_at_token [OF assms, of None "c # cs"] by (simp add: has_match_Cons)
    then have "match_len p (hd (p_heads p)) ((c # cs) @ s)"
      using token_min [OF assms] by (rule match_len_append)
    then have "match_at p None (drop 0 (c # cs) @ s) \<noteq> None"
      using match_at_token [OF assms] by simp
    then show ?thesis by blast
  qed
qed simp

lemma replace_all_clears:
  assumes "token_pattern p" "\<not> p_keep p" "\<forall>i<length u. match_at p None (drop i u @ s) = None"
  shows "\<not> has_match p (u @ replace_all p prev s)"
  using assms
proof (induction p prev s arbitrary: u rule: replace_all.induct)
  case (1 p prev)
  then show ?case using has_match_found [OF "1.prems"(1), of u "[]"] by auto
next
  case (2 p prev c cs)
  have same: "match_at p prev (c # cs) = None \<longleftrightarrow> match_at p None (c # cs) = None"
    using match_at_token [OF "2.prems"(1)] by metis
  show ?case
  proof (cases "match_at p prev (c # cs)")
    case None
    have "\<forall>i<length (u @ [c]). match_at p None (drop i (u @ [c]) @ cs) = None"
      using "2.prems"(3) None same by (auto simp: less_Suc_eq)
    then have "\<not> has_match p ((u @ [c]) @ replace_all p (Some c) cs)"
      using "2.IH"(1) [OF None "2.prems"(1,2)] by blast
    then show ?thesis using None by simp
  next
    case (Some kn)
    obtain k n where kn: "kn = (k, n)" by (cases kn)
    have rest: "\<not> has_match p ([] @ replace_all p (Some ((c # cs) ! (max 1 n - 1))) (drop (max 1 n) (c # cs)))"
      by (rule "2.IH"(2) [OF Some kn [symmetric] "2.prems"(1,2)]) simp
    have "\<not> has_match p u"
      using has_match_found [OF "2.prems"(1), of u "c # cs"] "2.prems"(3) by auto
    then show ?thesis
      using Some kn rest "2.prems"(2) has_match_placeholder [OF "2.prems"(1), of u] by simp
  qed
qed

lemma replace_all_keeps_clear:
  assumes p: "token_pattern p"
  shows "\<not> has_match p (u @ s) \<Longrightarrow> \<not> has_match p (u @ replace_all q prev s)"
proof (induction q prev s arbitrary: u rule: replace_all.induct)
  case (2 q prev c cs)
  show ?case
  proof (cases "match_at q prev (c # cs)")
    case None
    then show ?thesis using "2.IH"(1) [OF None, of "u @ [c]"] "2.prems" by simp
  next
    case (Some kn)
    obtain k n where kn: "kn = (k, n)" by (cases kn)
    let ?pre = "if p_keep q then take k (c # cs) else []"
    let ?tail = "replace_all q (Some ((c # cs) ! (max 1 n - 1))) (drop (max 1 n) (c # cs))"
    have split: "u @ (c # cs) = (u @ take i (c # cs)) @ drop i (c # cs)" for i
      by (metis append.assoc append_take_drop_id)
    have "\<not> has_match p ([] @ drop (max 1 n) (c # cs))"
      using "2.prems" has_match_suffix [of p "drop (max 1 n) (c # cs)"] split [of "max 1 n"]
      by (metis append_Nil)
    then have tail: "\<not> has_match p ([] @ ?tail)" by (rule "2.IH"(2) [OF Some kn [symmetric]])
    have "\<not> has_match p (u @ take i (c # cs))" for i
      using "2.prems" has_match_prefix [OF p, of "u @ take i (c # cs)"] split [of i] by metis
    from this [of k] this [of 0] have "\<not> has_match p (u @ ?pre)" by (cases "p_keep q") auto
    then have "\<not> has_match p ((u @ ?pre) @ RedactedPlaceholder @ ?tail)"
      unfolding has_match_placeholder [OF p] using tail by (simp only: append_Nil) blast
    then show ?thesis using Some kn by simp
  qed
qed simp

lemma fold_keeps_clear:
  assumes "token_pattern p"
  shows "\<not> has_match p s \<Longrightarrow> \<not> has_match p (fold (\<lambda>q t. replace_all q None t) qs s)"
proof (induction qs arbitrary: s)
  case (Cons q qs)
  then show ?case using replace_all_keeps_clear [OF assms, of "[]" s q None] by simp
qed simp

lemma fold_clears:
  assumes "token_pattern p" "\<not> p_keep p"
  shows "p \<in> set qs \<Longrightarrow> \<not> has_match p (fold (\<lambda>q t. replace_all q None t) qs s)"
proof (induction qs arbitrary: s)
  case (Cons q qs)
  show ?case
  proof (cases "p \<in> set qs")
    case True
    then show ?thesis using Cons.IH by simp
  next
    case False
    then have "p = q" using Cons.prems by simp
    then show ?thesis
      using replace_all_clears [OF assms, of "[]" s None] fold_keeps_clear [OF assms(1)] by simp
  qed
qed simp

definition token_patterns :: "pattern list" where
  "token_patterns = [github_pat, aws_pat, slack_pat, bearer_pat]"

lemma token_patterns_token:
  "token_pattern github_pat" "token_pattern aws_pat" "token_pattern slack_pat" "token_pattern bearer_pat"
  by code_simp+

lemma token_patterns_ok:
  assumes "p \<in> set token_patterns"
  shows "token_pattern p \<and> \<not> p_keep p \<and> p \<in> set secretRedactionPatterns"
  using assms token_patterns_token
  by (auto simp: token_patterns_def secretRedactionPatterns_def github_pat_def aws_pat_def
      slack_pat_def bearer_pat_def)

lemma RedactSecrets_clear: "p \<in> set token_patterns \<Longrightarrow> \<not> has_match p (RedactSecrets s)"
  unfolding RedactSecrets_def using token_patterns_ok fold_clears by blast

section \<open>Scrubbed values\<close>

text \<open>No credential token of the four shapes, and no secret-named key, anywhere in a value.\<close>

definition clean_text :: "string \<Rightarrow> bool" where
  "clean_text s = list_all (\<lambda>p. \<not> has_match p s) token_patterns"

definition clean_key :: "string \<Rightarrow> bool" where
  "clean_key k = list_all (\<lambda>w. \<not> Contains (ToLower k) w)
     [''token'', ''secret'', ''password'', ''passwd'', ''key'', ''credential'', ''cookie'', ''auth'']"

fun clean_value :: "gval \<Rightarrow> bool" where
  "clean_value (VObj kvs) = list_all (\<lambda>(k, v). clean_key k \<and> clean_value v) kvs"
| "clean_value (VStrMap kvs) = list_all (\<lambda>(k, v). clean_key k \<and> clean_text v) kvs"
| "clean_value (VArr vs) = list_all clean_value vs"
| "clean_value (VStrArr ss) = list_all clean_text ss"
| "clean_value (VStr s) = clean_text s"
| "clean_value _ = True"

lemma RedactSecrets_clean [simp]: "clean_text (RedactSecrets s)"
  using RedactSecrets_clear by (simp add: clean_text_def list_all_iff)

lemma IsSafeSummaryKey_clean: "IsSafeSummaryKey k = clean_key k"
  by (simp add: IsSafeSummaryKey_def secretKeyDenylist_def clean_key_def)

lemma ScrubValue_is_clean: "clean_value (ScrubValue v)"
proof (induction v rule: ScrubValue.induct)
  case (1 kvs)
  then show ?case by (fastforce simp: list_all_iff IsSafeSummaryKey_clean)
next
  case (2 kvs)
  then show ?case by (auto simp: list_all_iff IsSafeSummaryKey_clean)
qed (auto simp: list_all_iff)


text \<open>
  What redaction keeps: a map entry survives \<open>ScrubValue\<close> exactly when its key is safe, and
  then with its own value scrubbed.
\<close>

lemma ScrubValue_lookup:
  "(case ScrubValue (VObj kvs) of VObj out \<Rightarrow> map_of out k | _ \<Rightarrow> None) =
     (if IsSafeSummaryKey k then map_option ScrubValue (map_of kvs k) else None)"
  by (induction kvs) auto

end
