(* ===== verification/Json.thy ===== *)
theory Json
  imports Redact
begin

text \<open>
  The part of \<^verbatim>\<open>encoding/json\<close> that the audit ledger relies on: the text that
  \<^verbatim>\<open>json.Marshal\<close> produces for a parameter value (object keys sorted), and the value
  that decoding that text gives back (\<open>reread\<close>: a \<^verbatim>\<open>map[string]string\<close> comes back as a
  \<^verbatim>\<open>map[string]interface{}\<close>, a \<^verbatim>\<open>[]string\<close> as a \<^verbatim>\<open>[]interface{}\<close>).
  Integers are those a float64 holds exactly, and \<open>VOther\<close> is the text of a value that
  decoding and encoding reproduces.
\<close>

section \<open>Byte lengths\<close>

text \<open>The number of bytes of a string of runes below 256 in UTF-8.\<close>

definition rune_len :: "char \<Rightarrow> nat" where
  "rune_len c = (if ord c < 128 then 1 else 2)"

primrec blen :: "string \<Rightarrow> nat" where
  "blen [] = 0"
| "blen (c # cs) = rune_len c + blen cs"

lemma rune_len_pos [simp]: "0 < rune_len c"
  by (simp add: rune_len_def)

lemma blen_append [simp]: "blen (s @ t) = blen s + blen t"
  by (induction s) auto

lemma blen_zero [simp]: "blen s = 0 \<longleftrightarrow> s = []"
  using rune_len_pos by (cases s) (auto simp del: rune_len_pos simp: rune_len_def)

lemma blen_prefix_eq: "s @ x = t @ y \<Longrightarrow> blen s = blen t \<Longrightarrow> s = t \<and> x = y"
proof (induction s arbitrary: t)
  case Nil
  then have "blen t = 0" by simp
  then show ?case using Nil.prems by simp
next
  case (Cons c s)
  then show ?case
  proof (cases t)
    case Nil
    with Cons.prems(2) have "rune_len c = 0" by simp
    then show ?thesis using rune_len_pos [of c] by simp
  next
    case (Cons d ds)
    then show ?thesis using Cons.IH [of ds] Cons.prems by auto
  qed
qed

section \<open>Strings\<close>

definition hex_digit :: "nat \<Rightarrow> char" where
  "hex_digit d = (if d < 10 then char_of (48 + d) else char_of (87 + d))"

definition json_char :: "bool \<Rightarrow> char \<Rightarrow> string" where
  "json_char html c =
     (if c = CHR 0x22 then [CHR 0x5C, CHR 0x22]
      else if c = CHR 0x5C then [CHR 0x5C, CHR 0x5C]
      else if ord c = 8 then [CHR 0x5C, CHR ''b'']
      else if ord c = 12 then [CHR 0x5C, CHR ''f'']
      else if ord c = 10 then [CHR 0x5C, CHR ''n'']
      else if ord c = 13 then [CHR 0x5C, CHR ''r'']
      else if ord c = 9 then [CHR 0x5C, CHR ''t'']
      else if ord c < 32 \<or> html \<and> ord c \<in> {60, 62, 38}
        then CHR 0x5C # ''u00'' @ [hex_digit (ord c div 16), hex_digit (ord c mod 16)]
      else [c])"

definition json_str :: "bool \<Rightarrow> string \<Rightarrow> string" where
  "json_str html s = [CHR 0x22] @ concat (map (json_char html) s) @ [CHR 0x22]"

section \<open>Values\<close>

fun str_less :: "string \<Rightarrow> string \<Rightarrow> bool" where
  "str_less [] t = (t \<noteq> [])"
| "str_less (c # cs) [] = False"
| "str_less (c # cs) (d # ds) = (ord c < ord d \<or> ord c = ord d \<and> str_less cs ds)"

fun key_insert :: "string \<times> 'a \<Rightarrow> (string \<times> 'a) list \<Rightarrow> (string \<times> 'a) list" where
  "key_insert e [] = [e]"
| "key_insert e (f # fs) = (if str_less (fst f) (fst e) then f # key_insert e fs else e # f # fs)"

definition key_sort :: "(string \<times> 'a) list \<Rightarrow> (string \<times> 'a) list" where
  "key_sort kvs = foldr key_insert kvs []"

fun comma_join :: "string list \<Rightarrow> string" where
  "comma_join [] = []"
| "comma_join [x] = x"
| "comma_join (x # y # ys) = x @ '','' @ comma_join (y # ys)"

definition json_obj :: "bool \<Rightarrow> (string \<times> string) list \<Rightarrow> string" where
  "json_obj html kvs =
     ''{'' @ comma_join (map (\<lambda>(k, v). json_str html k @ '':'' @ v) (key_sort kvs)) @ ''}''"

definition json_arr :: "string list \<Rightarrow> string" where
  "json_arr vs = ''['' @ comma_join vs @ '']''"

fun marshal :: "bool \<Rightarrow> gval \<Rightarrow> string" where
  "marshal h VNil = ''null''"
| "marshal h (VBool b) = (if b then ''true'' else ''false'')"
| "marshal h (VInt i) = dec_int i"
| "marshal h (VStr s) = json_str h s"
| "marshal h (VArr vs) = json_arr (map (marshal h) vs)"
| "marshal h (VObj kvs) = json_obj h (map (\<lambda>(k, v). (k, marshal h v)) kvs)"
| "marshal h (VStrMap kvs) = json_obj h (map (\<lambda>(k, v). (k, json_str h v)) kvs)"
| "marshal h (VStrArr ss) = json_arr (map (json_str h) ss)"
| "marshal h (VOther t) = t"

fun reread :: "gval \<Rightarrow> gval" where
  "reread (VArr vs) = VArr (map reread vs)"
| "reread (VObj kvs) = VObj (map (\<lambda>(k, v). (k, reread v)) kvs)"
| "reread (VStrMap kvs) = VObj (map (\<lambda>(k, v). (k, VStr v)) kvs)"
| "reread (VStrArr ss) = VArr (map VStr ss)"
| "reread v = v"

text \<open>The digest text of a value is the digest text of what the decoder gives back.\<close>

lemma marshal_reread [simp]: "marshal h (reread v) = marshal h v"
proof (induction h v rule: marshal.induct)
  case (5 h vs)
  then have "map (marshal h \<circ> reread) vs = map (marshal h) vs" by simp
  then show ?case by (simp only: reread.simps marshal.simps map_map)
next
  case (6 h kvs)
  have "map ((\<lambda>(k, v). (k, marshal h v)) \<circ> (\<lambda>(k, v). (k, reread v))) kvs = map (\<lambda>(k, v). (k, marshal h v)) kvs"
    using "6.IH" by (fastforce intro!: map_cong)
  then show ?case by (simp only: reread.simps marshal.simps map_map)
qed (simp_all add: comp_def split_def)

lemma clean_reread [simp]: "clean_value v \<Longrightarrow> clean_value (reread v)"
proof (induction v rule: reread.induct)
  case (2 kvs)
  then show ?case by (fastforce simp: list_all_iff)
qed (auto simp: list_all_iff)

end
