(* ===== verification/Ledger.thy ===== *)
theory Ledger
  imports Json
begin

text \<open>
  The audit ledger, \<^verbatim>\<open>internal/audit/ledger.go\<close> and \<^verbatim>\<open>signing.go\<close>.

  A task's ledger file is the list of lines a decoder reads back (\<open>LRec\<close>) and of bytes that
  do not decode (\<open>LBad\<close>, left by a torn write). SHA-256 is the parameter \<open>H\<close> (hexadecimal
  digest of the framed text); an ed25519 key is a \<open>Signer\<close>. System calls succeed or fail as
  the \<open>lio\<close> record says. Times are held as their UTC RFC 3339 text, the zero time as the
  empty text; \<^verbatim>\<open>int64\<close> sequence numbers are integers.
\<close>

section \<open>Records and digests\<close>

record lrecord =
  lr_Seq :: int
  lr_At :: string
  lr_Task :: string
  lr_Tenant :: string
  lr_Phase :: string
  lr_Subject :: string
  lr_Action :: string
  lr_Params :: gval
  lr_Decision :: string
  lr_Reason :: string
  lr_PrevHash :: string
  lr_ThisHash :: string
  lr_Sig :: string

definition frame :: "string \<Rightarrow> string \<Rightarrow> string" where
  "frame label b = label @ ''='' @ dec_nat (blen b) @ '':'' @ b"

text \<open>The fields under the digest, in the order they are written.\<close>

definition hashed_fields :: "lrecord \<Rightarrow> string list" where
  "hashed_fields r = [dec_int (lr_Seq r), lr_At r, lr_Task r, lr_Tenant r, lr_Phase r, lr_Subject r,
     lr_Action r, marshal True (lr_Params r), lr_Decision r, lr_Reason r]"

definition hashed_text :: "lrecord \<Rightarrow> string \<Rightarrow> string" where
  "hashed_text r prev =
     frame ''prev'' prev @ frame ''seq'' (dec_int (lr_Seq r)) @ frame ''at'' (lr_At r) @
     frame ''task'' (lr_Task r) @ frame ''tenant'' (lr_Tenant r) @ frame ''phase'' (lr_Phase r) @
     frame ''subject'' (lr_Subject r) @ frame ''action'' (lr_Action r) @
     frame ''params'' (marshal True (lr_Params r)) @ frame ''decision'' (lr_Decision r) @
     frame ''reason'' (lr_Reason r)"

definition hashRecord :: "(string \<Rightarrow> string) \<Rightarrow> lrecord \<Rightarrow> string \<Rightarrow> string" where
  "hashRecord H r prev = H (hashed_text r prev)"

definition RedactRecord :: "bool \<Rightarrow> lrecord \<Rightarrow> lrecord" where
  "RedactRecord enabled r =
     (if \<not> enabled then r
      else r\<lparr>lr_Params := ScrubValue (lr_Params r), lr_Subject := RedactSecrets (lr_Subject r),
             lr_Action := RedactSecrets (lr_Action r), lr_Reason := RedactSecrets (lr_Reason r)\<rparr>)"

section \<open>Signatures\<close>

text \<open>
  \<open>sg_sign\<close> gives the base64 text of the signature; \<open>sg_verify\<close> decodes the base64 text, checks
  its length and verifies it with the public key.
\<close>

record Signer =
  sg_sign :: "string \<Rightarrow> string"
  sg_verify :: "string \<Rightarrow> string \<Rightarrow> bool"

definition Signer_Sign :: "Signer option \<Rightarrow> string \<Rightarrow> string" where
  "Signer_Sign s hash = (case s of None \<Rightarrow> [] | Some k \<Rightarrow> sg_sign k hash)"

definition Signer_Verify :: "Signer option \<Rightarrow> string \<Rightarrow> string \<Rightarrow> bool" where
  "Signer_Verify s hash sigB64 =
     (if sigB64 = [] then True else case s of None \<Rightarrow> False | Some k \<Rightarrow> sg_verify k hash sigB64)"

section \<open>Files and handles\<close>

datatype litem = LRec lrecord | LBad nat

definition json_field :: "string \<Rightarrow> string \<Rightarrow> string" where
  "json_field k v = json_str False k @ '':'' @ v"

text \<open>One line of the file, as the encoder without HTML escaping writes it.\<close>

definition encode_record :: "lrecord \<Rightarrow> string" where
  "encode_record r = ''{'' @ comma_join (
     [json_field ''seq'' (dec_int (lr_Seq r)), json_field ''at'' (json_str False (lr_At r)),
      json_field ''task'' (json_str False (lr_Task r))] @
     (if lr_Tenant r = [] then [] else [json_field ''tenant'' (json_str False (lr_Tenant r))]) @
     [json_field ''phase'' (json_str False (lr_Phase r)),
      json_field ''subject'' (json_str False (lr_Subject r)),
      json_field ''action'' (json_str False (lr_Action r))] @
     (if lr_Params r = VNil then [] else [json_field ''params'' (marshal False (lr_Params r))]) @
     [json_field ''decision'' (json_str False (lr_Decision r))] @
     (if lr_Reason r = [] then [] else [json_field ''reason'' (json_str False (lr_Reason r))]) @
     [json_field ''prev_hash'' (json_str False (lr_PrevHash r)),
      json_field ''hash'' (json_str False (lr_ThisHash r))] @
     (if lr_Sig r = [] then [] else [json_field ''sig'' (json_str False (lr_Sig r))])) @ ''}'' @ [CHR 0x0A]"

text \<open>The record a decoder gives back.\<close>

definition stored :: "lrecord \<Rightarrow> lrecord" where
  "stored r = r\<lparr>lr_Params := reread (lr_Params r)\<rparr>"

primrec item_size :: "litem \<Rightarrow> nat" where
  "item_size (LRec r) = blen (encode_record r)"
| "item_size (LBad n) = n"

definition file_size :: "litem list \<Rightarrow> nat" where
  "file_size xs = sum_list (map item_size xs)"

text \<open>The items from a byte offset on; an offset inside an item leaves bytes that do not decode.\<close>

fun drop_bytes :: "nat \<Rightarrow> litem list \<Rightarrow> litem list" where
  "drop_bytes n [] = []"
| "drop_bytes n (x # xs) =
     (if n = 0 then x # xs
      else if item_size x \<le> n then drop_bytes (n - item_size x) xs
      else LBad (item_size x - n) # xs)"

record ldisk =
  ld_file :: "litem list option"
  ld_head :: "string option"

record Ledger =
  lg_task :: string
  lg_lastHash :: string
  lg_seq :: int
  lg_readOffset :: nat
  lg_redactor :: bool
  lg_f :: bool
  lg_headPending :: string
  lg_headDirty :: bool

datatype lerr =
    EInvalidTask | EDir | EOpen | ELock | EStat | ESeek | EDecode | EEncode
  | EWrite | ETruncate
  | EPrevMismatch int | ETampered int | EBadSignature int
  | ETruncated int nat | EHeadMismatch int

text \<open>
  Outcomes of the calls of one operation: append open, lock, stat of the path, read open, seek,
  stat after reading, encoding, stat before writing, the write (\<open>Some n\<close>: it failed with \<open>n\<close>
  bytes of a partial line on disk) and the roll-back truncate.
\<close>

record lio =
  io_openw :: bool
  io_lock :: bool
  io_stat :: bool
  io_open :: bool
  io_seek :: bool
  io_fstat :: bool
  io_encode :: bool
  io_prestat :: bool
  io_write :: "nat option"
  io_trunc :: bool

section \<open>Reading the tail\<close>

fun decode_tail :: "litem list \<Rightarrow> string \<Rightarrow> int \<Rightarrow> bool \<times> string \<times> int" where
  "decode_tail [] h q = (True, h, q)"
| "decode_tail (LRec r # xs) h q = decode_tail xs (lr_ThisHash r) (lr_Seq r)"
| "decode_tail (LBad n # xs) h q = (False, h, q)"

definition read_from :: "lio \<Rightarrow> litem list \<Rightarrow> nat \<Rightarrow> Ledger \<Rightarrow> lerr option \<times> Ledger" where
  "read_from io xs off l =
     (let (eof, h, q) = decode_tail (drop_bytes off xs) (lg_lastHash l) (lg_seq l);
          l1 = l\<lparr>lg_lastHash := h, lg_seq := q\<rparr>
      in if \<not> eof then (Some EDecode, l1)
         else if \<not> io_fstat io then (Some EStat, l1)
         else (None, l1\<lparr>lg_readOffset := file_size xs\<rparr>))"

definition loadTail :: "lio \<Rightarrow> ldisk \<Rightarrow> Ledger \<Rightarrow> lerr option \<times> Ledger" where
  "loadTail io d l =
     (let l0 = l\<lparr>lg_lastHash := [], lg_seq := 0, lg_readOffset := 0\<rparr>
      in case ld_file d of
           None \<Rightarrow> (None, l0)
         | Some xs \<Rightarrow> if \<not> io_open io then (Some EOpen, l0) else read_from io xs 0 l0)"

definition refreshTailLocked :: "lio \<Rightarrow> ldisk \<Rightarrow> Ledger \<Rightarrow> lerr option \<times> Ledger" where
  "refreshTailLocked io d l =
     (case ld_file d of
        None \<Rightarrow> (None, l\<lparr>lg_lastHash := [], lg_seq := 0, lg_readOffset := 0\<rparr>)
      | Some xs \<Rightarrow>
          if \<not> io_stat io then (Some EStat, l)
          else if file_size xs < lg_readOffset l then loadTail io d l
          else if file_size xs = lg_readOffset l then (None, l)
          else if \<not> io_open io then (Some EOpen, l)
          else if \<not> io_seek io then (Some ESeek, l)
          else read_from io xs (lg_readOffset l) l)"

definition task_id_ok :: "string \<Rightarrow> bool" where
  "task_id_ok t \<longleftrightarrow> 1 \<le> length t \<and> length t \<le> 128 \<and> list_all id_char t"

definition Open :: "lio \<Rightarrow> bool \<Rightarrow> ldisk \<Rightarrow> string \<Rightarrow> bool \<Rightarrow> (lerr, Ledger) go" where
  "Open io mkdir d task redactor =
     (if \<not> task_id_ok task then Err EInvalidTask
      else if \<not> mkdir then Err EDir
      else case loadTail io d \<lparr>lg_task = task, lg_lastHash = [], lg_seq = 0, lg_readOffset = 0,
                lg_redactor = redactor, lg_f = False, lg_headPending = [], lg_headDirty = False\<rparr> of
             (Some e, l) \<Rightarrow> Err e
           | (None, l) \<Rightarrow> Ok l)"

section \<open>Append\<close>

definition head_text :: "int \<Rightarrow> string \<Rightarrow> string" where
  "head_text seq hash = dec_int seq @ '' '' @ hash @ [CHR 0x0A]"

text \<open>What does not change during an append: digest, signer, redaction switch.\<close>

record lenv =
  le_H :: "string \<Rightarrow> string"
  le_signer :: "Signer option"
  le_redaction :: bool

text \<open>The record as it is written, after the tail was read under the lock.\<close>

definition make_record :: "lenv \<Rightarrow> string \<Rightarrow> Ledger \<Rightarrow> lrecord \<Rightarrow> lrecord" where
  "make_record env now l r =
     (let r1 = r\<lparr>lr_Seq := lg_seq l + 1, lr_Task := lg_task l\<rparr>;
          r2 = (if lg_redactor l then RedactRecord (le_redaction env) r1 else r1);
          r3 = (if lr_At r2 = [] then r2\<lparr>lr_At := now\<rparr> else r2);
          r4 = r3\<lparr>lr_PrevHash := lg_lastHash l\<rparr>;
          r5 = r4\<lparr>lr_ThisHash := hashRecord (le_H env) r4 (lg_lastHash l)\<rparr>
      in if le_signer env \<noteq> None then r5\<lparr>lr_Sig := Signer_Sign (le_signer env) (lr_ThisHash r5)\<rparr>
         else r5)"

text \<open>
  A write through a descriptor whose path was removed lands in no file of the directory.
\<close>

definition write_record ::
  "lio \<Rightarrow> ldisk \<Rightarrow> Ledger \<Rightarrow> lrecord \<Rightarrow> lerr option \<times> Ledger \<times> ldisk" where
  "write_record io d l r =
     (let add = (\<lambda>x. d\<lparr>ld_file := map_option (\<lambda>xs. xs @ [x]) (ld_file d)\<rparr>) in
      if \<not> io_encode io then (Some EEncode, l, d)
      else if \<not> io_prestat io then (Some EStat, l, d)
      else case io_write io of
        Some n \<Rightarrow>
          if \<not> io_trunc io
          then (Some ETruncate, l, if n = 0 then d else add (LBad n))
          else (Some EWrite, l, d)
      | None \<Rightarrow>
          (None, l\<lparr>lg_seq := lr_Seq r, lg_lastHash := lr_ThisHash r,
                   lg_readOffset := lg_readOffset l + blen (encode_record r),
                   lg_headPending := head_text (lr_Seq r) (lr_ThisHash r), lg_headDirty := True\<rparr>,
           add (LRec (stored r))))"

definition Append ::
  "lenv \<Rightarrow> string \<Rightarrow> lio \<Rightarrow> ldisk \<Rightarrow> Ledger \<Rightarrow> lrecord \<Rightarrow> lerr option \<times> Ledger \<times> ldisk" where
  "Append env now io d l r =
     (if \<not> lg_f l \<and> \<not> io_openw io then (Some EOpen, l, d)
      else let l1 = l\<lparr>lg_f := True\<rparr>;
               d1 = (if lg_f l \<or> ld_file d \<noteq> None then d else d\<lparr>ld_file := Some []\<rparr>)
           in if \<not> io_lock io then (Some ELock, l1, d1)
              else case refreshTailLocked io d1 l1 of
                (Some e, l2) \<Rightarrow> (Some e, l2, d1)
              | (None, l2) \<Rightarrow> write_record io d1 l2 (make_record env now l2 r))"

section \<open>The head watermark\<close>

text \<open>
  Outcomes of \<open>writeHeadAtomic\<close>: everything succeeds; the directory is gone; a step before the
  rename fails; the rename happens but the directory sync fails.
\<close>

datatype hres = HOk | HNotExist | HFail | HFailAfter

definition writeHeadAtomic :: "hres \<Rightarrow> string \<Rightarrow> ldisk \<Rightarrow> ldisk" where
  "writeHeadAtomic res head d = (if res = HOk \<or> res = HFailAfter then d\<lparr>ld_head := Some head\<rparr> else d)"

definition flush_begin :: "Ledger \<Rightarrow> string option \<times> Ledger" where
  "flush_begin l =
     (if \<not> lg_headDirty l then (None, l) else (Some (lg_headPending l), l\<lparr>lg_headDirty := False\<rparr>))"

definition flush_end :: "hres \<Rightarrow> Ledger \<Rightarrow> Ledger" where
  "flush_end res l = (if res = HOk \<or> res = HNotExist then l else l\<lparr>lg_headDirty := True\<rparr>)"

definition flushHead :: "hres \<Rightarrow> ldisk \<Rightarrow> Ledger \<Rightarrow> Ledger \<times> ldisk" where
  "flushHead res d l =
     (case flush_begin l of
        (None, l1) \<Rightarrow> (l1, d)
      | (Some head, l1) \<Rightarrow> (flush_end res l1, writeHeadAtomic res head d))"

text \<open>\<open>Close\<close> with the outcome of its own watermark write and of the file close.\<close>

definition Close :: "hres \<Rightarrow> bool \<Rightarrow> ldisk \<Rightarrow> Ledger \<Rightarrow> bool \<times> Ledger \<times> ldisk" where
  "Close res closed d l =
     (let l1 = l\<lparr>lg_headDirty := False, lg_f := False\<rparr>;
          writes = lg_headDirty l \<and> lg_headPending l \<noteq> []
      in ((writes \<longrightarrow> res = HOk) \<and> (lg_f l \<longrightarrow> closed), l1,
          if writes then writeHeadAtomic res (lg_headPending l) d else d))"

definition readHead :: "ldisk \<Rightarrow> (int \<times> string) option" where
  "readHead d =
     (case ld_head d of
        None \<Rightarrow> None
      | Some text \<Rightarrow>
          let fields = Fields text in
          if length fields \<noteq> 2 then None
          else case ParseInt (fields ! 0) of
                 None \<Rightarrow> None
               | Some s \<Rightarrow> if s < 0 then None else Some (s, fields ! 1))"

section \<open>Verify and ReadAll\<close>

fun verify_loop ::
  "(string \<Rightarrow> string) \<Rightarrow> Signer option \<Rightarrow> litem list \<Rightarrow> string \<Rightarrow> nat \<Rightarrow> lerr option \<times> nat \<times> string" where
  "verify_loop H sg [] prev count = (None, count, prev)"
| "verify_loop H sg (LBad n # xs) prev count = (Some EDecode, count, prev)"
| "verify_loop H sg (LRec r # xs) prev count =
     (if lr_PrevHash r \<noteq> prev then (Some (EPrevMismatch (lr_Seq r)), count, prev)
      else if lr_ThisHash r \<noteq> hashRecord H r prev then (Some (ETampered (lr_Seq r)), count, prev)
      else if sg \<noteq> None \<and> \<not> Signer_Verify sg (lr_ThisHash r) (lr_Sig r)
        then (Some (EBadSignature (lr_Seq r)), count, prev)
      else verify_loop H sg xs (lr_ThisHash r) (Suc count))"

definition Verify :: "(string \<Rightarrow> string) \<Rightarrow> Signer option \<Rightarrow> bool \<Rightarrow> ldisk \<Rightarrow> lerr option \<times> nat" where
  "Verify H sg opened d =
     (case ld_file d of
        None \<Rightarrow> (None, 0)
      | Some xs \<Rightarrow>
          if \<not> opened then (Some EOpen, 0)
          else case verify_loop H sg xs [] 0 of
                 (Some e, count, prev) \<Rightarrow> (Some e, count)
               | (None, count, prev) \<Rightarrow>
                   (case readHead d of
                      None \<Rightarrow> (None, count)
                    | Some (seq, hash) \<Rightarrow>
                        if int count < seq then (Some (ETruncated seq count), count)
                        else if int count = seq \<and> prev \<noteq> hash then (Some (EHeadMismatch seq), count)
                        else (None, count)))"

fun read_items :: "litem list \<Rightarrow> lrecord list option" where
  "read_items [] = Some []"
| "read_items (LBad n # xs) = None"
| "read_items (LRec r # xs) = map_option ((#) r) (read_items xs)"

definition ReadAll :: "bool \<Rightarrow> ldisk \<Rightarrow> (lerr, lrecord list) go" where
  "ReadAll opened d =
     (case ld_file d of
        None \<Rightarrow> Ok []
      | Some xs \<Rightarrow> if \<not> opened then Err EOpen
                   else case read_items xs of None \<Rightarrow> Err EDecode | Some rs \<Rightarrow> Ok rs)"

section \<open>Framing\<close>

lemma frame_cancel:
  assumes "frame label b @ x = frame label c @ y"
  shows "b = c \<and> x = y"
proof -
  have eq: "dec_nat (blen b) @ CHR '':'' # b @ x = dec_nat (blen c) @ CHR '':'' # c @ y"
    using assms by (simp add: frame_def)
  have tw: "takeWhile is_digit (dec_nat n @ CHR '':'' # t) = dec_nat n" for n t
    using dec_nat_digits [of n] by (simp add: takeWhile_append list_all_iff is_digit_def)
  have "dec_nat (blen b) = dec_nat (blen c)"
    using arg_cong [OF eq, of "takeWhile is_digit"] by (simp only: tw)
  then have "blen b = blen c" by simp
  with eq have "b @ x = c @ y" by simp
  then show ?thesis using \<open>blen b = blen c\<close> by (rule blen_prefix_eq)
qed

text \<open>The digest text determines the previous digest and every field under the digest.\<close>

lemma hashed_text_inj:
  assumes "hashed_text r p = hashed_text r' p'"
  shows "p = p' \<and> hashed_fields r = hashed_fields r'"
proof -
  have last: "frame l b = frame l c \<Longrightarrow> b = c" for l b c
    using frame_cancel [of l b "[]" c "[]"] by simp
  show ?thesis
    using assms unfolding hashed_text_def hashed_fields_def
    by (auto dest!: frame_cancel last)
qed

section \<open>Chains of digests\<close>

text \<open>
  A chain links each element to the digest of the one before. The locale states what the
  evidence argument needs of the digested text: it determines the previous digest and the
  fields; a digest is never the empty text of the chain's start.
\<close>

fun chain_ok :: "('r \<Rightarrow> string \<Rightarrow> string) \<Rightarrow> ('r \<Rightarrow> string) \<Rightarrow> ('r \<Rightarrow> string) \<Rightarrow> string \<Rightarrow> 'r list \<Rightarrow> bool" where
  "chain_ok dg prv ths p [] = True"
| "chain_ok dg prv ths p (r # rs) = (prv r = p \<and> ths r = dg r p \<and> chain_ok dg prv ths (ths r) rs)"

definition last_this :: "('r \<Rightarrow> string) \<Rightarrow> string \<Rightarrow> 'r list \<Rightarrow> string" where
  "last_this ths p rs = (if rs = [] then p else ths (last rs))"

lemma last_this_simps [simp]:
  "last_this ths p [] = p" "last_this ths p (rs @ [r]) = ths r"
  "last_this ths p (r # rs) = last_this ths (ths r) rs"
  by (simp_all add: last_this_def)

lemma chain_ok_snoc:
  "chain_ok dg prv ths p (rs @ [r]) \<longleftrightarrow>
     chain_ok dg prv ths p rs \<and> prv r = last_this ths p rs \<and> ths r = dg r (last_this ths p rs)"
  by (induction rs arbitrary: p) auto

text \<open>The digested texts along a chain.\<close>

fun chain_texts :: "('r \<Rightarrow> string \<Rightarrow> string) \<Rightarrow> ('r \<Rightarrow> string) \<Rightarrow> string \<Rightarrow> 'r list \<Rightarrow> string list" where
  "chain_texts dtext ths p [] = []"
| "chain_texts dtext ths p (r # rs) = dtext r p # chain_texts dtext ths (ths r) rs"

lemma chain_texts_snoc:
  "chain_texts dtext ths p (rs @ [r]) = chain_texts dtext ths p rs @ [dtext r (last_this ths p rs)]"
  by (induction rs arbitrary: p) auto

text \<open>Two different texts, one digested in each chain, with the same digest.\<close>

definition collision :: "(string \<Rightarrow> string) \<Rightarrow> string list \<Rightarrow> string list \<Rightarrow> bool" where
  "collision H xs ys \<longleftrightarrow> (\<exists>x\<in>set xs. \<exists>y\<in>set ys. x \<noteq> y \<and> H x = H y)"

locale hash_chain =
  fixes dtext :: "'r \<Rightarrow> string \<Rightarrow> string"
    and prv :: "'r \<Rightarrow> string"
    and ths :: "'r \<Rightarrow> string"
    and flds :: "'r \<Rightarrow> string list"
  assumes dtext_inj: "dtext r p = dtext r' p' \<Longrightarrow> p = p' \<and> flds r = flds r'"
begin

lemma evidence:
  assumes "chain_ok (\<lambda>r p. H (dtext r p)) prv ths [] rs" "chain_ok (\<lambda>r p. H (dtext r p)) prv ths [] rs'"
    and "last_this ths [] rs = last_this ths [] rs'" and "\<And>x. H x \<noteq> []"
  shows "map flds rs = map flds rs' \<or>
    collision H (chain_texts dtext ths [] rs) (chain_texts dtext ths [] rs')"
  using assms(1-3)
proof (induction rs arbitrary: rs' rule: rev_induct)
  case Nil
  then show ?case
    using assms(4) assms(4) [symmetric] by (cases rs' rule: rev_cases) (auto simp: chain_ok_snoc)
next
  case (snoc r rs)
  show ?case
  proof (cases rs' rule: rev_cases)
    case Nil
    then show ?thesis using snoc.prems assms(4) by (auto simp: chain_ok_snoc)
  next
    case (snoc us u)
    let ?p = "last_this ths [] rs" and ?q = "last_this ths [] us"
    have eq: "H (dtext r ?p) = H (dtext u ?q)"
      using \<open>chain_ok _ prv ths [] (rs @ [r])\<close> \<open>chain_ok _ prv ths [] rs'\<close>
        \<open>last_this ths [] (rs @ [r]) = last_this ths [] rs'\<close> snoc
      by (simp add: chain_ok_snoc)
    show ?thesis
    proof (cases "dtext r ?p = dtext u ?q")
      case False
      with eq show ?thesis using snoc by (auto simp: collision_def chain_texts_snoc)
    next
      case True
      then have "?p = ?q" "flds r = flds u" using dtext_inj by blast+
      then show ?thesis
        using snoc.IH [of us] snoc.prems snoc
        by (auto simp: chain_ok_snoc chain_texts_snoc collision_def)
    qed
  qed
qed

end

interpretation lchain: hash_chain hashed_text lr_PrevHash lr_ThisHash hashed_fields
  by unfold_locales (rule hashed_text_inj)

end
