(* ===== verification/LedgerRuns.thy ===== *)
theory LedgerRuns
  imports Ledger
begin

text \<open>
  What the audit ledger promises: a ledger written only through its operations always
  verifies, whatever the interleaving of several open handles and head-watermark flushes; an
  accepted file with the watermark's count carries the records that were written, or exhibits
  a digest collision; a cut-off tail is reported. Two theorems show what the checks let pass.
\<close>

section \<open>What Verify accepts\<close>

definition sig_ok :: "Signer option \<Rightarrow> lrecord \<Rightarrow> bool" where
  "sig_ok sg r \<longleftrightarrow> sg = None \<or> Signer_Verify sg (lr_ThisHash r) (lr_Sig r)"

abbreviation lr_chain :: "(string \<Rightarrow> string) \<Rightarrow> string \<Rightarrow> lrecord list \<Rightarrow> bool" where
  "lr_chain H \<equiv> chain_ok (\<lambda>r p. H (hashed_text r p)) lr_PrevHash lr_ThisHash"

abbreviation lr_last :: "string \<Rightarrow> lrecord list \<Rightarrow> string" where
  "lr_last \<equiv> last_this lr_ThisHash"

abbreviation lr_texts :: "lrecord list \<Rightarrow> string list" where
  "lr_texts \<equiv> chain_texts hashed_text lr_ThisHash []"

lemma ex_recs_Cons:
  "(\<exists>rs. LRec r # xs = map LRec rs \<and> P rs) \<longleftrightarrow> (\<exists>us. xs = map LRec us \<and> P (r # us))"
  by (auto simp: Cons_eq_map_conv)

lemma verify_loop_accepts:
  "verify_loop H sg xs p c = (None, c', q) \<longleftrightarrow>
     (\<exists>rs. xs = map LRec rs \<and> lr_chain H p rs \<and> list_all (sig_ok sg) rs \<and>
           c' = c + length rs \<and> q = lr_last p rs)"
proof (induction xs arbitrary: p c)
  case (Cons x xs)
  show ?case
  proof (cases x)
    case (LRec r)
    show ?thesis
    proof (cases "lr_PrevHash r = p \<and> lr_ThisHash r = hashRecord H r p \<and> sig_ok sg r")
      case True
      then have "verify_loop H sg (x # xs) p c = verify_loop H sg xs (lr_ThisHash r) (Suc c)"
        using LRec by (auto simp: sig_ok_def)
      with True show ?thesis
        unfolding LRec ex_recs_Cons by (simp add: Cons.IH hashRecord_def)
    next
      case False
      then show ?thesis
        unfolding LRec ex_recs_Cons by (auto simp: sig_ok_def hashRecord_def)
    qed
  qed auto
qed auto

lemma Verify_accepts:
  "Verify H sg True d = (None, n) \<longleftrightarrow>
     (case ld_file d of None \<Rightarrow> n = 0
      | Some xs \<Rightarrow> \<exists>rs. xs = map LRec rs \<and> lr_chain H [] rs \<and> list_all (sig_ok sg) rs \<and> n = length rs \<and>
          (case readHead d of None \<Rightarrow> True
           | Some (k, h) \<Rightarrow> k \<le> int n \<and> (int n = k \<longrightarrow> lr_last [] rs = h)))"
proof (cases "ld_file d")
  case (Some xs)
  obtain e c q where v: "verify_loop H sg xs [] 0 = (e, c, q)" by (metis prod_cases3)
  show ?thesis
  proof (cases e)
    case None
    then obtain rs where "xs = map LRec rs" "lr_chain H [] rs" "list_all (sig_ok sg) rs"
      "c = length rs" "q = lr_last [] rs"
      using v verify_loop_accepts [of H sg xs "[]" 0 c q] by auto
    then show ?thesis using Some v None
      by (auto simp: Verify_def map_eq_conv inj_map_eq_map inj_def split: option.splits prod.splits)
  next
    case (Some e')
    have "\<not> (\<exists>rs. xs = map LRec rs \<and> lr_chain H [] rs \<and> list_all (sig_ok sg) rs)"
      using verify_loop_accepts [of H sg xs "[]" 0] v Some by fastforce
    then show ?thesis using \<open>ld_file d = Some xs\<close> v Some by (auto simp: Verify_def)
  qed
qed (auto simp: Verify_def)

lemma VerifyI:
  assumes "ld_file d = Some (map LRec rs)" "lr_chain H [] rs" "list_all (sig_ok sg) rs"
    and "case readHead d of None \<Rightarrow> True
      | Some (k, h) \<Rightarrow> k \<le> int (length rs) \<and> (int (length rs) = k \<longrightarrow> lr_last [] rs = h)"
  shows "Verify H sg True d = (None, length rs)"
  unfolding Verify_accepts assms(1) option.case
  by (rule exI [of _ rs]) (use assms in simp)

section \<open>Offsets\<close>

lemma encode_record_nonempty [simp]: "encode_record r \<noteq> []"
  by (simp add: encode_record_def)

lemma encode_record_pos [simp]: "0 < blen (encode_record r)"
  using blen_zero [of "encode_record r"] by (simp del: blen_zero)

lemma encode_stored [simp]: "encode_record (stored r) = encode_record r"
proof -
  have "(reread v = VNil) = (v = VNil)" for v by (cases v) auto
  then show ?thesis by (simp add: encode_record_def stored_def)
qed

lemma hashed_text_stored [simp]: "hashed_text (stored r) p = hashed_text r p"
  by (simp add: hashed_text_def stored_def)

lemma stored_simps [simp]:
  "lr_ThisHash (stored r) = lr_ThisHash r" "lr_PrevHash (stored r) = lr_PrevHash r"
  "lr_Seq (stored r) = lr_Seq r" "lr_Sig (stored r) = lr_Sig r"
  by (simp_all add: stored_def)

lemma file_size_simps [simp]:
  "file_size [] = 0" "file_size (x # xs) = item_size x + file_size xs"
  "file_size (xs @ ys) = file_size xs + file_size ys"
  by (simp_all add: file_size_def)

lemma drop_bytes_recs:
  "drop_bytes (file_size (map LRec (take m rs))) (map LRec rs) = map LRec (drop m rs)"
proof (induction rs arbitrary: m)
  case (Cons r rs)
  show ?case
  proof (cases m)
    case (Suc k)
    then show ?thesis using Cons.IH [of k] encode_record_pos [of r] by simp
  qed simp
qed simp

lemma file_size_take:
  "file_size (map LRec (take m rs)) \<le> file_size (map LRec rs)"
  by (metis append_take_drop_id file_size_simps(3) le_add1 map_append)

lemma file_size_take_eq:
  assumes "file_size (map LRec (take m rs)) = file_size (map LRec rs)"
  shows "length rs \<le> m"
proof (rule ccontr)
  assume "\<not> length rs \<le> m"
  then obtain r us where "drop m rs = r # us" by (metis Cons_nth_drop_Suc leI)
  then have "0 < file_size (map LRec (drop m rs))" by simp
  moreover have "file_size (map LRec rs) = file_size (map LRec (take m rs)) + file_size (map LRec (drop m rs))"
    by (metis append_take_drop_id file_size_simps(3) map_append)
  ultimately show False using assms by simp
qed

lemma decode_tail_recs:
  "decode_tail (map LRec rs) h q = (True, lr_last h rs, if rs = [] then q else lr_Seq (last rs))"
  by (induction rs arbitrary: h q) auto

section \<open>Handles, flushes and runs\<close>

text \<open>
  One task's directory, the handles opened on it (possibly by several processes), and the
  watermark writes in flight: \<open>flushHead\<close> takes its snapshot under the handle's mutex and
  writes it afterwards, so other handles may write in between.
\<close>

record lsys =
  sy_disk :: ldisk
  sy_handles :: "Ledger list"
  sy_flights :: "(nat \<times> string) list"

inductive lstep :: "lenv \<Rightarrow> string \<Rightarrow> lsys \<Rightarrow> lsys \<Rightarrow> bool" for env task where
  step_open:
    "Open io mkdir (sy_disk s) task red = Ok l \<Longrightarrow>
     lstep env task s (s\<lparr>sy_handles := sy_handles s @ [l]\<rparr>)"
| step_append:
    "\<lbrakk>i < length (sy_handles s); Append env now io (sy_disk s) (sy_handles s ! i) r = (e, l, d);
      e \<noteq> Some ETruncate\<rbrakk> \<Longrightarrow>
     lstep env task s (s\<lparr>sy_disk := d, sy_handles := (sy_handles s)[i := l]\<rparr>)"
| step_flush_begin:
    "\<lbrakk>i < length (sy_handles s); flush_begin (sy_handles s ! i) = (Some head, l)\<rbrakk> \<Longrightarrow>
     lstep env task s (s\<lparr>sy_handles := (sy_handles s)[i := l], sy_flights := sy_flights s @ [(i, head)]\<rparr>)"
| step_flush_end:
    "\<lbrakk>sy_flights s = fs @ (i, head) # gs; i < length (sy_handles s)\<rbrakk> \<Longrightarrow>
     lstep env task s (s\<lparr>sy_disk := writeHeadAtomic res head (sy_disk s),
       sy_handles := (sy_handles s)[i := flush_end res (sy_handles s ! i)], sy_flights := fs @ gs\<rparr>)"
| step_close:
    "\<lbrakk>i < length (sy_handles s); Close res closed (sy_disk s) (sy_handles s ! i) = (ok, l, d)\<rbrakk> \<Longrightarrow>
     lstep env task s (s\<lparr>sy_disk := d, sy_handles := (sy_handles s)[i := l]\<rparr>)"

inductive_cases lstep_cases: "lstep env task s t"

definition fresh_sys :: lsys where
  "fresh_sys = \<lparr>sy_disk = \<lparr>ld_file = None, ld_head = None\<rparr>, sy_handles = [], sy_flights = []\<rparr>"

definition disk_items :: "ldisk \<Rightarrow> litem list" where
  "disk_items d = (case ld_file d of None \<Rightarrow> [] | Some xs \<Rightarrow> xs)"

text \<open>The invariant, over the list of records on disk.\<close>

definition records_ok :: "lenv \<Rightarrow> lrecord list \<Rightarrow> bool" where
  "records_ok env rs \<longleftrightarrow> lr_chain (le_H env) [] rs \<and> list_all (sig_ok (le_signer env)) rs \<and>
     map lr_Seq rs = map (\<lambda>i. int (Suc i)) [0..<length rs]"

definition head_ok :: "lrecord list \<Rightarrow> string \<Rightarrow> bool" where
  "head_ok rs t \<longleftrightarrow> t = [] \<or> (\<exists>k. 0 < k \<and> k \<le> length rs \<and> t = head_text (int k) (lr_last [] (take k rs)))"

definition handle_ok :: "ldisk \<Rightarrow> lrecord list \<Rightarrow> Ledger \<Rightarrow> bool" where
  "handle_ok d rs l \<longleftrightarrow>
     (lg_f l \<longrightarrow> ld_file d \<noteq> None) \<and> head_ok rs (lg_headPending l) \<and>
     (\<exists>m m'. m \<le> m' \<and> m' \<le> length rs \<and> lg_readOffset l = file_size (map LRec (take m rs)) \<and>
        lg_seq l = int m' \<and> lg_lastHash l = lr_last [] (take m' rs))"

definition sys_ok :: "lenv \<Rightarrow> lrecord list \<Rightarrow> lsys \<Rightarrow> bool" where
  "sys_ok env rs s \<longleftrightarrow> disk_items (sy_disk s) = map LRec rs \<and> records_ok env rs \<and>
     (case ld_head (sy_disk s) of None \<Rightarrow> True | Some t \<Rightarrow> head_ok rs t) \<and>
     list_all (handle_ok (sy_disk s) rs) (sy_handles s) \<and>
     list_all (\<lambda>(i, t). head_ok rs t) (sy_flights s)"

subsection \<open>Growth keeps what was true\<close>

lemma head_ok_grow: "head_ok rs t \<Longrightarrow> head_ok (rs @ us) t"
proof -
  assume h: "head_ok rs t"
  show ?thesis
  proof (cases "t = []")
    case False
    with h obtain k where "0 < k" "k \<le> length rs" "t = head_text (int k) (lr_last [] (take k rs))"
      by (auto simp: head_ok_def)
    then show ?thesis by (auto simp: head_ok_def intro!: exI [of _ k])
  qed (simp add: head_ok_def)
qed

lemma handle_ok_grow:
  assumes "handle_ok d rs l" "ld_file d \<noteq> None \<Longrightarrow> ld_file d' \<noteq> None"
  shows "handle_ok d' (rs @ us) l"
proof -
  from assms(1) obtain m m' where "m \<le> m'" "m' \<le> length rs"
    "lg_readOffset l = file_size (map LRec (take m rs))" "lg_seq l = int m'"
    "lg_lastHash l = lr_last [] (take m' rs)"
    by (auto simp: handle_ok_def)
  then have "\<exists>m m'. m \<le> m' \<and> m' \<le> length (rs @ us) \<and>
      lg_readOffset l = file_size (map LRec (take m (rs @ us))) \<and>
      lg_seq l = int m' \<and> lg_lastHash l = lr_last [] (take m' (rs @ us))"
    by (intro exI [of _ m] exI [of _ m']) auto
  with assms show ?thesis by (auto simp: handle_ok_def intro: head_ok_grow)
qed

lemma lr_seq_last:
  assumes "records_ok env rs"
  shows "(if rs = [] then 0 else lr_Seq (last rs)) = int (length rs)"
proof (cases "rs = []")
  case False
  have "map lr_Seq rs ! (length rs - 1) = int (length rs)"
    using assms False by (simp add: records_ok_def Suc_leI of_nat_diff)
  then show ?thesis using False by (simp add: last_conv_nth)
qed simp

text \<open>The handle knows the whole file.\<close>

definition at_end :: "lrecord list \<Rightarrow> Ledger \<Rightarrow> bool" where
  "at_end rs l \<longleftrightarrow> lg_seq l = int (length rs) \<and> lg_lastHash l = lr_last [] rs \<and>
     lg_readOffset l = file_size (map LRec rs)"

definition same_meta :: "Ledger \<Rightarrow> Ledger \<Rightarrow> bool" where
  "same_meta l l' \<longleftrightarrow> lg_task l' = lg_task l \<and> lg_redactor l' = lg_redactor l \<and> lg_f l' = lg_f l \<and>
     lg_headPending l' = lg_headPending l \<and> lg_headDirty l' = lg_headDirty l"

lemma lr_last_drop:
  assumes "m \<le> m'" "m' \<le> length rs"
  shows "lr_last (lr_last [] (take m' rs)) (drop m rs) = lr_last [] rs"
proof (cases "m = length rs")
  case False
  then have "drop m rs \<noteq> []" "rs \<noteq> []" using assms by auto
  then show ?thesis by (simp add: last_this_def)
qed (use assms in simp)

lemma read_from_ok:
  assumes recs: "records_ok env rs" and m: "m \<le> m'" "m' \<le> length rs"
    and l: "lg_readOffset l = file_size (map LRec (take m rs))" "lg_seq l = int m'"
      "lg_lastHash l = lr_last [] (take m' rs)"
    and r: "read_from io (map LRec rs) (lg_readOffset l) l = (e, l')"
  shows "same_meta l l' \<and> (e = None \<longrightarrow> at_end rs l') \<and>
    lg_seq l' = int (length rs) \<and> lg_lastHash l' = lr_last [] rs \<and>
    (lg_readOffset l' = lg_readOffset l \<or> lg_readOffset l' = file_size (map LRec rs))"
proof -
  have d: "decode_tail (drop_bytes (lg_readOffset l) (map LRec rs)) (lg_lastHash l) (lg_seq l) =
      (True, lr_last [] rs, int (length rs))"
  proof -
    have "(if drop m rs = [] then int m' else lr_Seq (last (drop m rs))) = int (length rs)"
    proof (cases "drop m rs = []")
      case False
      then show ?thesis using lr_seq_last [OF recs] by (cases "rs = []") auto
    qed (use m in simp)
    then show ?thesis
      unfolding l drop_bytes_recs decode_tail_recs using lr_last_drop [OF m] by simp
  qed
  show ?thesis using r unfolding read_from_def d
    by (auto simp: same_meta_def at_end_def Let_def split: if_splits)
qed

lemma handle_ok_tail:
  assumes h: "handle_ok d rs l" and meta: "same_meta l l'"
    and m: "m \<le> m'" "m' \<le> length rs" and off: "lg_readOffset l' = file_size (map LRec (take m rs))"
    and s: "lg_seq l' = int m'" "lg_lastHash l' = lr_last [] (take m' rs)"
  shows "handle_ok d rs l'"
  unfolding handle_ok_def
proof (intro conjI)
  show "lg_f l' \<longrightarrow> ld_file d \<noteq> None" "head_ok rs (lg_headPending l')"
    using h meta by (simp_all add: handle_ok_def same_meta_def)
  show "\<exists>m m'. m \<le> m' \<and> m' \<le> length rs \<and> lg_readOffset l' = file_size (map LRec (take m rs)) \<and>
      lg_seq l' = int m' \<and> lg_lastHash l' = lr_last [] (take m' rs)"
    using m off s by (intro exI [of _ m] exI [of _ m']) simp
qed

lemma refresh_ok:
  assumes h: "handle_ok d rs l" and fl: "ld_file d = Some (map LRec rs)"
    and recs: "records_ok env rs" and r: "refreshTailLocked io d l = (e, l')"
  shows "handle_ok d rs l' \<and> same_meta l l' \<and> (e = None \<longrightarrow> at_end rs l')"
proof -
  from h obtain m m' where m: "m \<le> m'" "m' \<le> length rs"
    and l: "lg_readOffset l = file_size (map LRec (take m rs))" "lg_seq l = int m'"
      "lg_lastHash l = lr_last [] (take m' rs)"
    by (auto simp: handle_ok_def)
  have le: "\<not> file_size (map LRec rs) < lg_readOffset l"
    using file_size_take [of m rs] by (simp add: l)
  consider (same) "l' = l" "e \<noteq> None"
    | (full) "l' = l" "file_size (map LRec rs) = lg_readOffset l"
    | (read) "read_from io (map LRec rs) (lg_readOffset l) l = (e, l')"
    using r le by (auto simp: refreshTailLocked_def fl split: if_splits)
  then show ?thesis
  proof cases
    case same
    then show ?thesis using h by (auto simp: same_meta_def)
  next
    case full
    then have "length rs \<le> m" using file_size_take_eq [of m rs] by (simp add: l)
    then have "at_end rs l" using m l full by (simp add: at_end_def)
    then show ?thesis using full h by (simp add: same_meta_def)
  next
    case read
    note q = read_from_ok [OF recs m l read]
    have "\<exists>k\<le>length rs. lg_readOffset l' = file_size (map LRec (take k rs))"
    proof (cases "lg_readOffset l' = lg_readOffset l")
      case True
      then show ?thesis using m l(1) by (intro exI [of _ m]) simp
    next
      case False
      then show ?thesis using q by (intro exI [of _ "length rs"]) simp
    qed
    then obtain k where "k \<le> length rs" "lg_readOffset l' = file_size (map LRec (take k rs))"
      by blast
    then have "handle_ok d rs l'"
      using q by (intro handle_ok_tail [OF h, of l' k "length rs"]) simp_all
    then show ?thesis using q by blast
  qed
qed

subsection \<open>Append extends the chain\<close>

text \<open>
  What is documented of the cryptographic packages: a signature verifies under its own key,
  and a digest is a non-empty word of hexadecimal digits.
\<close>

definition env_ok :: "lenv \<Rightarrow> bool" where
  "env_ok env \<longleftrightarrow> (\<forall>k. le_signer env = Some k \<longrightarrow> (\<forall>h. sg_verify k h (sg_sign k h))) \<and>
     (\<forall>x. plain_word (le_H env x))"

lemma hashed_text_updates [simp]:
  "hashed_text (r\<lparr>lr_ThisHash := h\<rparr>) p = hashed_text r p"
  "hashed_text (r\<lparr>lr_PrevHash := h\<rparr>) p = hashed_text r p"
  "hashed_text (r\<lparr>lr_Sig := h\<rparr>) p = hashed_text r p"
  by (simp_all add: hashed_text_def)

lemma RedactRecord_seq [simp]: "lr_Seq (RedactRecord b r) = lr_Seq r" "lr_At (RedactRecord b r) = lr_At r"
  "lr_Task (RedactRecord b r) = lr_Task r"
  by (simp_all add: RedactRecord_def)

lemma make_record_ok:
  assumes "env_ok env"
  shows "lr_Seq (make_record env now l r) = lg_seq l + 1"
    "lr_PrevHash (make_record env now l r) = lg_lastHash l"
    "lr_ThisHash (make_record env now l r) =
       le_H env (hashed_text (make_record env now l r) (lg_lastHash l))"
    "sig_ok (le_signer env) (make_record env now l r)"
    "lr_Task (make_record env now l r) = lg_task l"
  using assms
  by (auto simp: make_record_def Let_def hashRecord_def sig_ok_def Signer_Sign_def Signer_Verify_def
      env_ok_def)

lemma records_ok_snoc:
  "records_ok env (rs @ [r]) \<longleftrightarrow> records_ok env rs \<and> lr_Seq r = int (length rs) + 1 \<and>
     lr_PrevHash r = lr_last [] rs \<and> lr_ThisHash r = le_H env (hashed_text r (lr_last [] rs)) \<and>
     sig_ok (le_signer env) r"
  by (auto simp: records_ok_def chain_ok_snoc)

text \<open>The pending watermark is the one of the last record.\<close>

definition head_at_end :: "lrecord list \<Rightarrow> Ledger \<Rightarrow> bool" where
  "head_at_end rs l \<longleftrightarrow> lg_headDirty l \<and>
     lg_headPending l = head_text (int (length rs)) (lr_last [] rs)"

lemma write_record_ok:
  assumes env: "env_ok env" and fl: "ld_file d = Some (map LRec rs)" and recs: "records_ok env rs"
    and h: "handle_ok d rs l" and l: "at_end rs l"
    and w: "write_record io d l (make_record env now l r) = (e, l', d')" "e \<noteq> Some ETruncate"
  shows "\<exists>us. records_ok env (rs @ us) \<and> ld_file d' = Some (map LRec (rs @ us)) \<and>
    ld_head d' = ld_head d \<and> handle_ok d' (rs @ us) l' \<and>
    (e = None \<longrightarrow> us = [stored (make_record env now l r)] \<and> head_at_end (rs @ us) l') \<and>
    (e \<noteq> None \<longrightarrow> us = [])"
proof (cases "e = None")
  case True
  let ?r = "make_record env now l r"
  have l': "l' = l\<lparr>lg_seq := lr_Seq ?r, lg_lastHash := lr_ThisHash ?r,
      lg_readOffset := lg_readOffset l + blen (encode_record ?r),
      lg_headPending := head_text (lr_Seq ?r) (lr_ThisHash ?r), lg_headDirty := True\<rparr>"
    and d': "d' = d\<lparr>ld_file := Some (map LRec rs @ [LRec (stored ?r)])\<rparr>"
    using w True by (auto simp: write_record_def fl Let_def split: if_splits option.splits)
  have recs': "records_ok env (rs @ [stored ?r])"
    using recs l make_record_ok [OF env, of now l r]
    by (simp add: records_ok_snoc at_end_def sig_ok_def)
  have seq: "lr_Seq ?r = int (Suc (length rs))"
    using l make_record_ok(1) [OF env, of now l r] by (simp add: at_end_def)
  then have hd: "head_ok (rs @ [stored ?r]) (head_text (lr_Seq ?r) (lr_ThisHash ?r))"
    unfolding head_ok_def by (intro disjI2 exI [of _ "Suc (length rs)"]) simp
  have "handle_ok d' (rs @ [stored ?r]) l'"
    unfolding handle_ok_def
  proof (intro conjI)
    show "\<exists>m m'. m \<le> m' \<and> m' \<le> length (rs @ [stored ?r]) \<and>
        lg_readOffset l' = file_size (map LRec (take m (rs @ [stored ?r]))) \<and>
        lg_seq l' = int m' \<and> lg_lastHash l' = lr_last [] (take m' (rs @ [stored ?r]))"
      using l seq by (intro exI [of _ "Suc (length rs)"]) (simp add: l' at_end_def)
  qed (use hd h in \<open>simp_all add: l' d'\<close>)
  then show ?thesis using recs' True seq
    by (intro exI [of _ "[stored ?r]"]) (simp add: d' l' head_at_end_def)
next
  case False
  then have "l' = l" "d' = d"
    using w by (auto simp: write_record_def fl Let_def split: if_splits option.splits)
  then show ?thesis using recs fl h False by (intro exI [of _ "[]"]) simp
qed

lemma Append_ok:
  assumes env: "env_ok env" and items: "disk_items d = map LRec rs" and recs: "records_ok env rs"
    and h: "handle_ok d rs l"
    and a: "Append env now io d l r = (e, l', d')" "e \<noteq> Some ETruncate"
  shows "\<exists>us. records_ok env (rs @ us) \<and> disk_items d' = map LRec (rs @ us) \<and>
    ld_head d' = ld_head d \<and> handle_ok d' (rs @ us) l' \<and> (ld_file d \<noteq> None \<longrightarrow> ld_file d' \<noteq> None) \<and>
    (e = None \<longrightarrow> length us = 1 \<and> head_at_end (rs @ us) l') \<and> (e \<noteq> None \<longrightarrow> us = [])"
proof (cases "\<not> lg_f l \<and> \<not> io_openw io")
  case True
  then have "l' = l" "d' = d" "e \<noteq> None" using a by (auto simp: Append_def)
  then show ?thesis using items recs h by (intro exI [of _ "[]"]) simp
next
  case False
  define l1 d1 where "l1 = l\<lparr>lg_f := True\<rparr>"
    and "d1 = (if lg_f l \<or> ld_file d \<noteq> None then d else d\<lparr>ld_file := Some []\<rparr>)"
  have fl: "ld_file d1 = Some (map LRec rs)" and head: "ld_head d1 = ld_head d"
    using items h by (auto simp: d1_def disk_items_def handle_ok_def split: option.splits if_splits)
  have h1: "handle_ok d1 rs l1" using h fl by (simp add: handle_ok_def l1_def)
  have eq: "Append env now io d l r = (if \<not> lg_f l \<and> \<not> io_openw io then (Some EOpen, l, d)
      else if \<not> io_lock io then (Some ELock, l1, d1)
      else case refreshTailLocked io d1 l1 of
        (Some e, l2) \<Rightarrow> (Some e, l2, d1)
      | (None, l2) \<Rightarrow> write_record io d1 l2 (make_record env now l2 r))"
    by (simp only: Append_def Let_def l1_def d1_def)
  show ?thesis
  proof (cases "io_lock io")
    case False
    then have "l' = l1" "d' = d1" "e \<noteq> None"
      using a eq \<open>\<not> (\<not> lg_f l \<and> \<not> io_openw io)\<close> by auto
    then show ?thesis using recs fl h1 head by (intro exI [of _ "[]"]) (simp add: disk_items_def)
  next
    case True
    obtain e2 l2 where ref: "refreshTailLocked io d1 l1 = (e2, l2)" by (cases "refreshTailLocked io d1 l1")
    have step: "(case e2 of Some x \<Rightarrow> (Some x, l2, d1)
        | None \<Rightarrow> write_record io d1 l2 (make_record env now l2 r)) = (e, l', d')"
      using a(1) ref True False unfolding eq by (cases e2) auto
    note q = refresh_ok [OF h1 fl recs ref]
    show ?thesis
    proof (cases e2)
      case (Some x)
      then show ?thesis using step recs fl q head
        by (intro exI [of _ "[]"]) (auto simp: disk_items_def)
    next
      case None
      then obtain us where "records_ok env (rs @ us)" "ld_file d' = Some (map LRec (rs @ us))"
        "ld_head d' = ld_head d1" "handle_ok d' (rs @ us) l'"
        "e = None \<longrightarrow> us = [stored (make_record env now l2 r)] \<and> head_at_end (rs @ us) l'" "e \<noteq> None \<longrightarrow> us = []"
        using write_record_ok [OF env fl recs, of l2 io now r e l' d'] q step a(2) by auto
      then show ?thesis using head by (intro exI [of _ us]) (auto simp: disk_items_def)
    qed
  qed
qed

subsection \<open>Every step keeps the invariant\<close>

lemma Open_ok:
  assumes o: "Open io mkdir d task red = Ok l" and items: "disk_items d = map LRec rs"
    and recs: "records_ok env rs"
  shows "handle_ok d rs l"
proof -
  define l0 where "l0 = \<lparr>lg_task = task, lg_lastHash = [], lg_seq = 0, lg_readOffset = 0,
    lg_redactor = red, lg_f = False, lg_headPending = [], lg_headDirty = False\<rparr>"
  have ld: "loadTail io d l0 = (None, l)"
    using o by (auto simp: Open_def l0_def split: if_splits option.splits prod.splits)
  have h0: "handle_ok d rs l0" by (auto simp: handle_ok_def l0_def head_ok_def)
  have l00: "l0\<lparr>lg_lastHash := [], lg_seq := 0, lg_readOffset := 0\<rparr> = l0" by (simp add: l0_def)
  show ?thesis
  proof (cases "ld_file d")
    case None
    then show ?thesis using ld h0 l00 by (simp add: loadTail_def)
  next
    case (Some xs)
    then have xs: "xs = map LRec rs" using items by (simp add: disk_items_def)
    have "read_from io (map LRec rs) (lg_readOffset l0) l0 = (None, l)"
      using ld Some l00 xs by (auto simp: loadTail_def l0_def Let_def split: if_splits)
    from read_from_ok [OF recs _ _ _ _ _ this, of 0 0]
    have "same_meta l0 l \<and> at_end rs l" by (simp add: l0_def)
    then show ?thesis
      by (intro handle_ok_tail [OF h0, of l "length rs" "length rs"]) (simp_all add: at_end_def)
  qed
qed

lemma list_all_update:
  "list_all P xs \<Longrightarrow> P x \<Longrightarrow> list_all P (xs[i := x])"
  by (auto simp: list_all_iff dest!: set_update_subset_insert [THEN subsetD])

lemma handle_ok_head [simp]: "handle_ok (d\<lparr>ld_head := t\<rparr>) = handle_ok d"
  by (intro ext) (simp add: handle_ok_def)

lemma sys_handle: "sys_ok env rs s \<Longrightarrow> i < length (sy_handles s) \<Longrightarrow> handle_ok (sy_disk s) rs (sy_handles s ! i)"
  by (simp add: sys_ok_def list_all_length)

lemma write_head_simps [simp]:
  "ld_file (writeHeadAtomic res t d) = ld_file d"
  "handle_ok (writeHeadAtomic res t d) rs = handle_ok d rs"
  "disk_items (writeHeadAtomic res t d) = disk_items d"
  by (auto simp: writeHeadAtomic_def disk_items_def)

lemma write_head_ok:
  "(case ld_head d of None \<Rightarrow> True | Some u \<Rightarrow> head_ok rs u) \<Longrightarrow> head_ok rs t \<Longrightarrow>
   (case ld_head (writeHeadAtomic res t d) of None \<Rightarrow> True | Some u \<Rightarrow> head_ok rs u)"
  by (simp add: writeHeadAtomic_def)

lemma lstep_keeps:
  assumes env: "env_ok env" and st: "lstep env task s t" and ok: "sys_ok env rs s"
  shows "\<exists>us. sys_ok env (rs @ us) t"
  using st
proof cases
  case (step_open io mkdir red l)
  then show ?thesis
    using ok Open_ok [of io mkdir "sy_disk s" task red l rs env]
    by (intro exI [of _ "[]"]) (simp add: sys_ok_def)
next
  case (step_append i now io r e l d)
  from ok have items: "disk_items (sy_disk s) = map LRec rs" and recs: "records_ok env rs"
    by (simp_all add: sys_ok_def)
  from Append_ok [OF env items recs sys_handle [OF ok step_append(2)] step_append(3,4)]
  obtain us where us: "records_ok env (rs @ us)" "disk_items d = map LRec (rs @ us)"
    "ld_head d = ld_head (sy_disk s)" "handle_ok d (rs @ us) l"
    "ld_file (sy_disk s) \<noteq> None \<longrightarrow> ld_file d \<noteq> None" by blast
  have hs: "list_all (handle_ok d (rs @ us)) (sy_handles s)"
    using ok us(5) by (auto simp: sys_ok_def list_all_iff intro: handle_ok_grow)
  have "list_all (\<lambda>(i, t). head_ok (rs @ us) t) (sy_flights s)"
    using ok by (auto simp: sys_ok_def list_all_iff intro: head_ok_grow)
  moreover have "case ld_head d of None \<Rightarrow> True | Some t \<Rightarrow> head_ok (rs @ us) t"
    using ok us(3) by (auto simp: sys_ok_def intro: head_ok_grow split: option.splits)
  ultimately show ?thesis
    using us hs step_append(1) by (intro exI [of _ us]) (simp add: sys_ok_def list_all_update)
next
  case (step_flush_begin i head l)
  then have l: "l = (sy_handles s ! i)\<lparr>lg_headDirty := False\<rparr>" "lg_headDirty (sy_handles s ! i)"
    "head = lg_headPending (sy_handles s ! i)"
    by (auto simp: flush_begin_def split: if_splits)
  have h: "handle_ok (sy_disk s) rs (sy_handles s ! i)" using ok step_flush_begin(2) by (rule sys_handle)
  have "handle_ok (sy_disk s) rs l" "head_ok rs head" using h l by (simp_all add: handle_ok_def)
  then show ?thesis
    using ok step_flush_begin(1) by (intro exI [of _ "[]"]) (simp add: sys_ok_def list_all_update)
next
  case (step_flush_end fs i head gs res)
  have h: "handle_ok (sy_disk s) rs (sy_handles s ! i)" using ok step_flush_end(3) by (rule sys_handle)
  have hd: "head_ok rs head" using ok step_flush_end(2) by (simp add: sys_ok_def)
  have "handle_ok (sy_disk s) rs (flush_end res (sy_handles s ! i))"
    using h by (simp add: flush_end_def handle_ok_def)
  then show ?thesis
    using ok step_flush_end(1,2) hd write_head_ok [where d = "sy_disk s" and rs = rs and t = head and res = res]
    by (intro exI [of _ "[]"]) (simp add: sys_ok_def list_all_update)
next
  case (step_close i res closed ok' l d)
  have h: "handle_ok (sy_disk s) rs (sy_handles s ! i)" using ok step_close(2) by (rule sys_handle)
  have "l = (sy_handles s ! i)\<lparr>lg_headDirty := False, lg_f := False\<rparr>"
    using step_close(3) by (simp add: Close_def Let_def)
  then have hl: "handle_ok (sy_disk s) rs l" using h by (simp add: handle_ok_def)
  consider "d = sy_disk s"
    | "head_ok rs (lg_headPending (sy_handles s ! i))"
      "d = writeHeadAtomic res (lg_headPending (sy_handles s ! i)) (sy_disk s)"
    using step_close(3) h by (auto simp: Close_def Let_def handle_ok_def split: if_splits)
  then show ?thesis
  proof cases
    case 1
    then show ?thesis using ok hl step_close(1)
      by (intro exI [of _ "[]"]) (simp add: sys_ok_def list_all_update)
  next
    case 2
    then show ?thesis using ok hl step_close(1) write_head_ok [where d = "sy_disk s" and rs = rs and res = res]
      by (intro exI [of _ "[]"]) (simp add: sys_ok_def list_all_update)
  qed
qed

lemma run_sys_ok:
  assumes "env_ok env" "(lstep env task)\<^sup>*\<^sup>* fresh_sys s"
  shows "\<exists>rs. sys_ok env rs s"
  using assms(2)
proof (induction rule: rtranclp_induct)
  case base
  show ?case
    by (rule exI [of _ "[]"]) (simp add: sys_ok_def fresh_sys_def disk_items_def records_ok_def)
next
  case (step s t)
  then show ?case using lstep_keeps [OF assms(1)] by blast
qed

section \<open>The watermark file\<close>

lemma readHead_text:
  assumes "0 \<le> k" "k < 2 ^ 63" "plain_word h"
  shows "readHead (d\<lparr>ld_head := Some (head_text k h)\<rparr>) = Some (k, h)"
proof -
  have "Fields (head_text k h) = [dec_int k, h]"
  proof -
    have sp: "is_space (CHR '' '')" "is_space (CHR 0x0A)" by (simp_all add: is_space_def)
    have "head_text k h = dec_int k @ (CHR '' '' # h @ [CHR 0x0A])" by (simp add: head_text_def)
    moreover have "Fields (h @ [CHR 0x0A]) = h # Fields [CHR 0x0A]"
      using assms(3) sp by (intro Fields_word) simp_all
    moreover have "Fields [CHR 0x0A] = []" using sp by (intro Fields_spaces) simp
    ultimately show ?thesis
      using sp plain_word_dec_int [OF assms(1)] by (simp add: Fields_word Fields_skip)
  qed
  then show ?thesis using assms by (simp add: readHead_def Let_def ParseInt_dec)
qed

lemma readHead_cong: "ld_head d = ld_head d' \<Longrightarrow> readHead d = readHead d'"
  by (simp add: readHead_def)

lemma readHead_at:
  "\<lbrakk>ld_head d = Some (head_text k h); 0 \<le> k; k < 2 ^ 63; plain_word h\<rbrakk> \<Longrightarrow> readHead d = Some (k, h)"
  using readHead_text [of k h d] readHead_cong [of d "d\<lparr>ld_head := Some (head_text k h)\<rparr>"] by simp

lemma chain_ok_append:
  "chain_ok dg prv ths p (rs @ us) \<longleftrightarrow> chain_ok dg prv ths p rs \<and> chain_ok dg prv ths (last_this ths p rs) us"
  by (induction rs arbitrary: p) auto

lemma lr_last_plain:
  assumes "env_ok env" "records_ok env rs" "0 < k" "k \<le> length rs"
  shows "plain_word (lr_last [] (take k rs))"
proof -
  have "lr_chain (le_H env) [] (take k rs)"
    using assms(2) chain_ok_append [of _ _ _ "[]" "take k rs" "drop k rs"]
    by (simp add: records_ok_def)
  moreover have "take k rs \<noteq> []" using assms by auto
  ultimately show ?thesis
    using assms(1) by (cases "take k rs" rule: rev_cases) (auto simp: chain_ok_snoc env_ok_def)
qed

lemma readHead_ok:
  assumes env: "env_ok env" and ok: "sys_ok env rs s" and small: "length rs < 2 ^ 63"
    and h: "readHead (sy_disk s) = Some (k, h)"
  shows "0 < k \<and> k \<le> int (length rs) \<and> h = lr_last [] (take (nat k) rs)"
proof -
  from h obtain t where t: "ld_head (sy_disk s) = Some t" by (auto simp: readHead_def split: option.splits)
  have "t \<noteq> []"
    using h t Fields_spaces [of "[]"] by (auto simp: readHead_def Let_def)
  then obtain j where j: "0 < j" "j \<le> length rs" "t = head_text (int j) (lr_last [] (take j rs))"
    using ok t by (auto simp: sys_ok_def head_ok_def)
  have "int j < 2 ^ 63" using small j(2) by simp
  moreover have "plain_word (lr_last [] (take j rs))"
    using lr_last_plain [OF env _ j(1,2)] ok by (simp add: sys_ok_def)
  ultimately have "readHead (sy_disk s) = Some (int j, lr_last [] (take j rs))"
    using t j(3) by (intro readHead_at) simp_all
  then show ?thesis using h j by simp
qed

section \<open>Properties\<close>


text \<open>
  C19: Tamper evidence. Take any ledger written through its operations whose watermark covers
  all records. Any other file that \<open>Verify\<close> accepts under the same watermark with the same
  count carries, record by record, the same sequence number, time, task, tenant, phase,
  subject, action, parameters, decision and reason, unless two different texts digested along
  the two chains have the same SHA-256 digest.
\<close>

theorem ledger_tamper_evident:
  assumes env: "env_ok env" and run: "(lstep env task)\<^sup>*\<^sup>* fresh_sys s"
    and small: "length (disk_items (sy_disk s)) < 2 ^ 63"
    and full: "readHead (sy_disk s) = Some (int (length (disk_items (sy_disk s))), h)"
    and head: "ld_head d = ld_head (sy_disk s)"
    and acc: "Verify (le_H env) sg True d = (None, length (disk_items (sy_disk s)))"
  shows "\<exists>rs rs'. disk_items (sy_disk s) = map LRec rs \<and> disk_items d = map LRec rs' \<and>
    (map hashed_fields rs = map hashed_fields rs' \<or> collision (le_H env) (lr_texts rs) (lr_texts rs'))"
proof -
  from run_sys_ok [OF env run] obtain rs where ok: "sys_ok env rs s" by blast
  then have items: "disk_items (sy_disk s) = map LRec rs" and recs: "records_ok env rs"
    by (simp_all add: sys_ok_def)
  have h: "0 < length rs" "h = lr_last [] rs"
    using readHead_ok [OF env ok _ full] small items by auto
  have rd: "readHead d = Some (int (length rs), h)" using full readHead_cong [OF head] items by simp
  obtain rs' where rs': "disk_items d = map LRec rs'" "lr_chain (le_H env) [] rs'" "lr_last [] rs' = h"
  proof (cases "ld_file d")
    case None
    then have "length rs = 0" using acc items by (simp add: Verify_def)
    then show ?thesis using h by simp
  next
    case (Some xs)
    then show ?thesis using acc that unfolding Verify_accepts items
      by (auto simp: rd disk_items_def)
  qed
  have ne: "le_H env x \<noteq> []" for x using env by (simp add: env_ok_def plain_word_def)
  have "map hashed_fields rs = map hashed_fields rs' \<or> collision (le_H env) (lr_texts rs) (lr_texts rs')"
    using recs rs'(2,3) h ne by (intro lchain.evidence) (simp_all add: records_ok_def)
  then show ?thesis using items rs'(1) by blast
qed

text \<open>
  C9: A cut-off tail is reported. After a successful append and a close that writes the
  watermark, removing any number of records from the end of the ledger makes \<open>Verify\<close> return
  the truncation error with the recorded and the surviving count.
\<close>

theorem ledger_truncation_detected:
  assumes env: "env_ok env" and run: "(lstep env task)\<^sup>*\<^sup>* fresh_sys s"
    and i: "i < length (sy_handles s)"
    and app: "Append env now io (sy_disk s) (sy_handles s ! i) r = (None, l1, d1)"
    and cls: "Close HOk closed d1 l1 = (ok, l2, d2)"
    and small: "length (disk_items d2) < 2 ^ 63" and m: "m < length (disk_items d2)"
  shows "Verify (le_H env) (le_signer env) True (d2\<lparr>ld_file := Some (take m (disk_items d2))\<rparr>) =
    (Some (ETruncated (int (length (disk_items d2))) m), m)"
proof -
  from run_sys_ok [OF env run] obtain rs where ok: "sys_ok env rs s" by blast
  then have items: "disk_items (sy_disk s) = map LRec rs" and recs: "records_ok env rs"
    by (simp_all add: sys_ok_def)
  from Append_ok [OF env items recs sys_handle [OF ok i] app] obtain us where
    recs': "records_ok env (rs @ us)" and d1: "disk_items d1 = map LRec (rs @ us)"
    and hd: "head_at_end (rs @ us) l1" "length us = 1" by auto
  define ts where "ts = rs @ us"
  have ts: "0 < length ts" using hd by (simp add: ts_def)
  have pend: "lg_headDirty l1" "lg_headPending l1 = head_text (int (length ts)) (lr_last [] ts)"
    using hd by (simp_all add: head_at_end_def ts_def)
  have "lg_headPending l1 \<noteq> []" by (simp add: pend head_text_def)
  then have d2: "d2 = writeHeadAtomic HOk (lg_headPending l1) d1"
    using cls pend(1) by (simp add: Close_def Let_def)
  have it2: "disk_items d2 = map LRec ts" using d1 by (simp add: d2 ts_def)
  have pw: "plain_word (lr_last [] ts)"
    using lr_last_plain [OF env recs', of "length ts"] ts by (simp add: ts_def)
  have n: "int (length ts) < 2 ^ 63" using small it2 by simp
  let ?d = "d2\<lparr>ld_file := Some (take m (disk_items d2))\<rparr>"
  have rd: "readHead ?d = Some (int (length ts), lr_last [] ts)"
    using n pw by (intro readHead_at) (simp_all add: d2 writeHeadAtomic_def pend)
  have pre: "lr_chain (le_H env) [] (take m ts)" "list_all (sig_ok (le_signer env)) (take m ts)"
    using recs' chain_ok_append [of _ _ _ "[]" "take m ts" "drop m ts"]
    by (auto simp: records_ok_def ts_def [symmetric] list_all_iff dest: in_set_takeD)
  have "verify_loop (le_H env) (le_signer env) (take m (disk_items d2)) [] 0 =
      (None, m, lr_last [] (take m ts))"
    unfolding verify_loop_accepts it2
    by (rule exI [of _ "take m ts"]) (use pre m it2 in \<open>simp add: take_map\<close>)
  then show ?thesis using rd m it2 by (simp add: Verify_def)
qed

text \<open>A chain rebuilt over arbitrary contents, with no signature.\<close>

fun rechain :: "(string \<Rightarrow> string) \<Rightarrow> string \<Rightarrow> lrecord list \<Rightarrow> lrecord list" where
  "rechain H p [] = []"
| "rechain H p (r # rs) =
     (let h = hashRecord H r p
      in r\<lparr>lr_PrevHash := p, lr_ThisHash := h, lr_Sig := []\<rparr> # rechain H h rs)"

lemma rechain_ok:
  "lr_chain H p (rechain H p rs) \<and> list_all (sig_ok sg) (rechain H p rs) \<and>
     length (rechain H p rs) = length rs"
  by (induction H p rs rule: rechain.induct)
    (auto simp: Let_def hashRecord_def sig_ok_def Signer_Verify_def)

text \<open>
  C26: What \<open>Verify\<close> lets pass. Whatever the armed signer, a file rebuilt from arbitrary record
  contents, with digests recomputed and every signature left empty, is accepted as soon as it
  has more records than the watermark says: an empty signature is taken as valid, and the
  watermark's digest is compared only when the counts are equal.
\<close>

theorem ledger_forgery_accepted:
  assumes "case readHead d of None \<Rightarrow> True | Some (k, h) \<Rightarrow> k < int (length rs)"
  shows "Verify H (Some key) True (d\<lparr>ld_file := Some (map LRec (rechain H [] rs))\<rparr>) = (None, length rs)"
proof -
  let ?d = "d\<lparr>ld_file := Some (map LRec (rechain H [] rs))\<rparr>"
  have "readHead ?d = readHead d" by (rule readHead_cong) simp
  then have "case readHead ?d of None \<Rightarrow> True
      | Some (k, h) \<Rightarrow> k \<le> int (length rs) \<and>
          (int (length rs) = k \<longrightarrow> lr_last [] (rechain H [] rs) = h)"
    using assms by (auto split: option.splits)
  moreover have "length (rechain H [] rs) = length rs" by (simp add: rechain_ok)
  moreover have "ld_file ?d = Some (map LRec (rechain H [] rs))" by simp
  ultimately show ?thesis
    using rechain_ok [of H "[]" rs "Some key"] VerifyI [of ?d "rechain H [] rs" H "Some key"]
    by (simp only: simp_thms)
qed

text \<open>Redaction happens before the record is digested and written.\<close>

definition clean_record :: "lrecord \<Rightarrow> bool" where
  "clean_record r \<longleftrightarrow> clean_value (lr_Params r) \<and> clean_text (lr_Subject r) \<and>
     clean_text (lr_Action r) \<and> clean_text (lr_Reason r)"

lemma make_record_clean:
  assumes "lg_redactor l" "le_redaction env"
  shows "clean_record (stored (make_record env now l r)) \<and> lr_Task (stored (make_record env now l r)) = lg_task l"
  using assms ScrubValue_is_clean
  by (auto simp: make_record_def Let_def RedactRecord_def clean_record_def stored_def)

lemma refresh_meta:
  assumes "refreshTailLocked io d l = (e, l')"
  shows "same_meta l l'"
  using assms
  by (auto simp: refreshTailLocked_def loadTail_def read_from_def same_meta_def Let_def
      split: option.splits if_splits prod.splits)


section \<open>A concrete run\<close>

text \<open>One handle on a fresh directory: open, append one record that carries a token, close.\<close>

definition demo_env :: lenv where
  "demo_env = \<lparr>le_H = (\<lambda>x. ''h0''),
     le_signer = Some \<lparr>sg_sign = (\<lambda>h. CHR ''s'' # h), sg_verify = (\<lambda>h s. s = CHR ''s'' # h)\<rparr>,
     le_redaction = True\<rparr>"

definition demo_io :: lio where
  "demo_io = \<lparr>io_openw = True, io_lock = True, io_stat = True, io_open = True, io_seek = True,
     io_fstat = True, io_encode = True, io_prestat = True, io_write = None, io_trunc = True\<rparr>"

definition demo_handle :: Ledger where
  "demo_handle = \<lparr>lg_task = ''t1'', lg_lastHash = [], lg_seq = 0, lg_readOffset = 0,
     lg_redactor = True, lg_f = False, lg_headPending = [], lg_headDirty = False\<rparr>"

definition demo_rec :: lrecord where
  "demo_rec = \<lparr>lr_Seq = 0, lr_At = [], lr_Task = [], lr_Tenant = [], lr_Phase = ''execution'',
     lr_Subject = ''agent'', lr_Action = ''fetch'',
     lr_Params = VObj [(''url'', VStr ''?token=abc''), (''api_key'', VInt 7)],
     lr_Decision = ''allow'', lr_Reason = ''AKIA0123456789ABCDEF'', lr_PrevHash = [], lr_ThisHash = [],
     lr_Sig = []\<rparr>"

definition demo_append :: "lerr option \<times> Ledger \<times> ldisk" where
  "demo_append = Append demo_env ''2026-01-01T00:00:00Z'' demo_io (sy_disk fresh_sys) demo_handle demo_rec"

definition demo_close :: "bool \<times> Ledger \<times> ldisk" where
  "demo_close = Close HOk True (snd (snd demo_append)) (fst (snd demo_append))"

definition demo_open_sys :: lsys where
  "demo_open_sys = fresh_sys\<lparr>sy_handles := [demo_handle]\<rparr>"

definition demo_sys :: lsys where
  "demo_sys = \<lparr>sy_disk = snd (snd demo_close), sy_handles = [fst (snd demo_close)], sy_flights = []\<rparr>"

lemma demo_env_ok: "env_ok demo_env"
  by (simp add: env_ok_def demo_env_def plain_word_def is_space_def)

lemma demo_open_run: "(lstep demo_env ''t1'')\<^sup>*\<^sup>* fresh_sys demo_open_sys"
proof -
  have "Open demo_io True (sy_disk fresh_sys) ''t1'' True = Ok demo_handle"
    by (simp add: Open_def task_id_ok_def id_char_def loadTail_def fresh_sys_def demo_handle_def)
  from step_open [OF this, of demo_env] show ?thesis
    by (simp add: demo_open_sys_def fresh_sys_def r_into_rtranclp)
qed

definition demo_line :: lrecord where
  "demo_line = make_record demo_env ''2026-01-01T00:00:00Z'' (demo_handle\<lparr>lg_f := True\<rparr>) demo_rec"

lemma demo_line_simps [simp]:
  "lr_Seq demo_line = 1" "lr_PrevHash demo_line = []" "lr_ThisHash demo_line = ''h0''"
  "lr_Sig demo_line = ''sh0''"
  by (simp_all add: demo_line_def make_record_def Let_def demo_env_def demo_handle_def hashRecord_def
      Signer_Sign_def)

lemma demo_append_val:
  "demo_append = (None, demo_handle\<lparr>lg_f := True, lg_seq := 1, lg_lastHash := ''h0'',
     lg_readOffset := blen (encode_record demo_line), lg_headPending := head_text 1 ''h0'',
     lg_headDirty := True\<rparr>, \<lparr>ld_file = Some [LRec (stored demo_line)], ld_head = None\<rparr>)"
proof -
  let ?l = "demo_handle\<lparr>lg_f := True\<rparr>" and ?d = "\<lparr>ld_file = Some [], ld_head = None\<rparr> :: ldisk"
  have "refreshTailLocked demo_io ?d ?l = (None, ?l)"
    by (simp add: refreshTailLocked_def demo_handle_def demo_io_def)
  then have "demo_append = write_record demo_io ?d ?l demo_line"
    by (simp add: demo_append_def Append_def Let_def fresh_sys_def demo_io_def demo_handle_def demo_line_def)
  then show ?thesis
    by (simp add: write_record_def Let_def demo_io_def) (simp add: demo_handle_def)
qed

lemma demo_close_val:
  "demo_close = (True, demo_handle\<lparr>lg_f := False, lg_seq := 1, lg_lastHash := ''h0'',
     lg_readOffset := blen (encode_record demo_line), lg_headPending := head_text 1 ''h0'',
     lg_headDirty := False\<rparr>,
     \<lparr>ld_file = Some [LRec (stored demo_line)], ld_head = Some (head_text 1 ''h0'')\<rparr>)"
  by (simp add: demo_close_def demo_append_val Close_def Let_def writeHeadAtomic_def head_text_def)

lemma demo_append_ok: "fst demo_append = None"
  by (simp add: demo_append_val)

lemma demo_append_eq:
  "Append demo_env ''2026-01-01T00:00:00Z'' demo_io (sy_disk demo_open_sys) (sy_handles demo_open_sys ! 0) demo_rec =
     (None, fst (snd demo_append), snd (snd demo_append))"
proof -
  have "(None, fst (snd demo_append), snd (snd demo_append)) = demo_append"
    by (simp add: demo_append_ok [symmetric])
  then show ?thesis by (simp only: demo_append_def) (simp add: demo_open_sys_def)
qed

lemma ledger_demo_run: "(lstep demo_env ''t1'')\<^sup>*\<^sup>* fresh_sys demo_sys"
proof -
  let ?s = "demo_open_sys\<lparr>sy_disk := snd (snd demo_append), sy_handles := (sy_handles demo_open_sys)[0 := fst (snd demo_append)]\<rparr>"
  have "lstep demo_env ''t1'' demo_open_sys ?s"
    by (rule step_append [OF _ demo_append_eq]) (simp_all add: demo_open_sys_def)
  moreover have "lstep demo_env ''t1'' ?s (?s\<lparr>sy_disk := snd (snd demo_close), sy_handles := (sy_handles ?s)[0 := fst (snd demo_close)]\<rparr>)"
    by (rule step_close [where res = HOk and closed = True and ok = "fst demo_close"])
      (simp_all add: demo_open_sys_def demo_close_def)
  moreover have "?s\<lparr>sy_disk := snd (snd demo_close), sy_handles := (sy_handles ?s)[0 := fst (snd demo_close)]\<rparr> = demo_sys"
    by (simp add: demo_sys_def demo_open_sys_def fresh_sys_def)
  ultimately show ?thesis using demo_open_run by (metis rtranclp.rtrancl_into_rtrancl)
qed

lemma demo_items: "disk_items (sy_disk demo_sys) = [LRec (stored demo_line)]"
  by (simp add: demo_sys_def demo_close_val disk_items_def)

lemma demo_head: "readHead (sy_disk demo_sys) = Some (1, ''h0'')"
  by (rule readHead_at) (simp_all add: demo_sys_def demo_close_val plain_word_def is_space_def)

lemma demo_accepted: "Verify (le_H demo_env) (le_signer demo_env) True (sy_disk demo_sys) = (None, 1)"
  using demo_head
  by (simp add: Verify_def demo_sys_def demo_close_val hashRecord_def demo_env_def Signer_Verify_def)


theorem ledger_tamper_evident_witness:
  "\<exists>rs rs'. disk_items (sy_disk demo_sys) = map LRec rs \<and> disk_items (sy_disk demo_sys) = map LRec rs' \<and>
    (map hashed_fields rs = map hashed_fields rs' \<or> collision (le_H demo_env) (lr_texts rs) (lr_texts rs'))"
  by (rule ledger_tamper_evident [OF demo_env_ok ledger_demo_run, where h = "''h0''" and sg = "le_signer demo_env"])
    (simp_all add: demo_items demo_head demo_accepted)

theorem ledger_truncation_detected_witness:
  "Verify (le_H demo_env) (le_signer demo_env) True ((snd (snd demo_close))\<lparr>ld_file := Some []\<rparr>) =
     (Some (ETruncated 1 0), 0)"
proof -
  have "Close HOk True (snd (snd demo_append)) (fst (snd demo_append)) =
      (fst demo_close, fst (snd demo_close), snd (snd demo_close))"
    by (simp add: demo_close_def)
  from ledger_truncation_detected [OF demo_env_ok demo_open_run _ demo_append_eq this, of 0]
  show ?thesis by (simp add: demo_open_sys_def demo_close_val disk_items_def)
qed

theorem ledger_forgery_accepted_witness:
  "Verify (le_H demo_env) (Some \<lparr>sg_sign = (\<lambda>h. CHR ''s'' # h), sg_verify = (\<lambda>h s. s = CHR ''s'' # h)\<rparr>)
     True ((sy_disk demo_sys)\<lparr>ld_file := Some (map LRec (rechain (le_H demo_env) [] [demo_rec, demo_rec]))\<rparr>) =
   (None, 2)"
  using ledger_forgery_accepted [where d = "sy_disk demo_sys" and rs = "[demo_rec, demo_rec]"
      and H = "le_H demo_env"
      and key = "\<lparr>sg_sign = (\<lambda>h. CHR ''s'' # h), sg_verify = (\<lambda>h s. s = CHR ''s'' # h)\<rparr>"]
  by (simp add: demo_head)


end
