(* ===== verification/Approval.thy ===== *)
theory Approval
  imports Ledger
begin

text \<open>
  The approval gate, \<^verbatim>\<open>internal/approval/manager.go\<close> and \<^verbatim>\<open>store.go\<close>: tickets that
  bind a tool call to its parameters, the human decision on them, and the one-shot claim that
  the policy gateway makes before it executes.

  The manager's map, its store file and the audit records it hands to the ledger are one
  record. A clock reading is an argument (nanoseconds; 0 is the zero time); a loop that reads
  the clock once per ticket takes a reading per ticket id. The outcome of the store write is
  that of \<^verbatim>\<open>fsjson.Write\<close>: done, failed before the rename, or renamed with the directory
  sync failing.
\<close>

section \<open>Atomic JSON files\<close>

datatype wres = WOk | WFail | WDurability

text \<open>\<^verbatim>\<open>fsjson.Write\<close>: the new content of the file and whether an error is returned.\<close>

definition fsjson_Write :: "wres \<Rightarrow> 'a \<Rightarrow> 'a option \<Rightarrow> bool \<times> 'a option" where
  "fsjson_Write w v old = (case w of WOk \<Rightarrow> (True, Some v) | WFail \<Rightarrow> (False, old) | WDurability \<Rightarrow> (False, Some v))"

section \<open>Tickets\<close>

datatype tstate = StatePending | StateApproved | StateRejected | StateExpired

record Ticket =
  tk_ID :: string
  tk_TaskID :: string
  tk_Target :: string
  tk_Tool :: string
  tk_Params :: gval
  tk_Evidence :: string
  tk_Why :: string
  tk_Rollback :: string
  tk_CreatedAt :: int
  tk_Deadline :: int
  tk_State :: tstate
  tk_DecidedBy :: string
  tk_DecidedAt :: int
  tk_Consumed :: bool
  tk_EditedBy :: string
  tk_EditedAt :: "int option"
  tk_CreatedBy :: string
  tk_CreatedByKeyFp :: string

record Manager =
  am_tickets :: "(string, Ticket) gomap"
  am_ledger :: bool
  am_persist :: bool
  am_store :: "Ticket list option"
  am_log :: "lrecord list"

datatype aerr =
  ErrInvalidDeadline | ErrNotFound | ErrAlreadyDecided | ErrAlreadyPending | ErrExpired
| ErrRandom | ErrPersist | ErrReadStore | ErrMkdir

definition sameParams :: "gval \<Rightarrow> gval \<Rightarrow> bool" where
  "sameParams a b \<longleftrightarrow> marshal True a = marshal True b"

definition NewManager :: "bool \<Rightarrow> Ticket list option \<Rightarrow> Manager" where
  "NewManager ledger file =
     \<lparr>am_tickets = [], am_ledger = ledger, am_persist = False, am_store = file, am_log = []\<rparr>"

text \<open>The ticket that decoding the store gives back.\<close>

definition stored_ticket :: "Ticket \<Rightarrow> Ticket" where
  "stored_ticket t = t\<lparr>tk_Params := reread (tk_Params t)\<rparr>"

definition persistLocked :: "wres \<Rightarrow> Manager \<Rightarrow> bool \<times> Manager" where
  "persistLocked w m =
     (if \<not> am_persist m then (True, m)
      else let (ok, file) = fsjson_Write w (map (\<lambda>(tid, t). stored_ticket t) (am_tickets m)) (am_store m)
           in (ok, m\<lparr>am_store := file\<rparr>))"

text \<open>A record as the callers of the ledger fill it in.\<close>

definition audit_rec :: "string \<Rightarrow> string \<Rightarrow> string \<Rightarrow> gval \<Rightarrow> string \<Rightarrow> string \<Rightarrow> lrecord" where
  "audit_rec phase subject action params decision reason =
     \<lparr>lr_Seq = 0, lr_At = [], lr_Task = [], lr_Tenant = [], lr_Phase = phase, lr_Subject = subject,
      lr_Action = action, lr_Params = params, lr_Decision = decision, lr_Reason = reason,
      lr_PrevHash = [], lr_ThisHash = [], lr_Sig = []\<rparr>"

definition am_audit :: "lrecord \<Rightarrow> Manager \<Rightarrow> Manager" where
  "am_audit r m = (if am_ledger m then m\<lparr>am_log := am_log m @ [r]\<rparr> else m)"

section \<open>Operations\<close>

definition minute :: int where
  "minute = 60 * 1000000000"

definition ap_Create ::
  "int \<Rightarrow> string option \<Rightarrow> wres \<Rightarrow> Ticket \<Rightarrow> Manager \<Rightarrow> (aerr + string) \<times> Manager" where
  "ap_Create now rand w t m =
     (let t1 = (if tk_CreatedAt t = 0 then t\<lparr>tk_CreatedAt := now\<rparr> else t) in
      if tk_Deadline t1 \<noteq> 0 \<and> (tk_Deadline t1 < now \<or> now + 60 * minute < tk_Deadline t1)
      then (Inl ErrInvalidDeadline, m)
      else let t2 = (if tk_Deadline t1 = 0 then t1\<lparr>tk_Deadline := now + 5 * minute\<rparr> else t1);
               t3 = t2\<lparr>tk_State := StatePending\<rparr>
           in if list_ex (\<lambda>(tid, e). tk_TaskID e = tk_TaskID t3 \<and> tk_Tool e = tk_Tool t3 \<and>
                   tk_State e = StatePending \<and> sameParams (tk_Params e) (tk_Params t3)) (am_tickets m)
              then (Inl ErrAlreadyPending, m)
              else case rand of
                None \<Rightarrow> (Inl ErrRandom, m)
              | Some tid \<Rightarrow>
                  let t4 = t3\<lparr>tk_ID := tid\<rparr>;
                      (ok, m1) = persistLocked w (m\<lparr>am_tickets := AList.update tid t4 (am_tickets m)\<rparr>)
                  in if \<not> ok then (Inl ErrPersist, m1)
                     else (Inr tid, am_audit (audit_rec ''execution'' (tk_TaskID t4)
                             (''approval:create:'' @ tk_Tool t4) (tk_Params t4) ''approve'' (tk_Why t4)) m1))"

definition ap_Decide ::
  "int \<Rightarrow> int \<Rightarrow> wres \<Rightarrow> string \<Rightarrow> bool \<Rightarrow> string \<Rightarrow> Manager \<Rightarrow> aerr option \<times> Manager" where
  "ap_Decide now now2 w tid approved by' m =
     (case map_of (am_tickets m) tid of
        None \<Rightarrow> (Some ErrNotFound, m)
      | Some t \<Rightarrow>
          if tk_State t \<noteq> StatePending then (Some ErrAlreadyDecided, m)
          else if tk_Deadline t < now
          then (Some ErrExpired,
                m\<lparr>am_tickets := AList.update tid (t\<lparr>tk_State := StateExpired\<rparr>) (am_tickets m)\<rparr>)
          else let t1 = t\<lparr>tk_State := (if approved then StateApproved else StateRejected),
                           tk_DecidedBy := by', tk_DecidedAt := now2\<rparr>;
                   (ok, m1) = persistLocked w (m\<lparr>am_tickets := AList.update tid t1 (am_tickets m)\<rparr>)
               in if \<not> ok then (Some ErrPersist, m1)
                  else (None, am_audit (audit_rec ''execution'' by' (''approval:decide:'' @ tk_Tool t)
                          (VObj [(''ticket'', VStr tid), (''target'', VStr (tk_Target t))])
                          (if approved then ''approve'' else ''deny'') (tk_Why t)) m1))"

definition ap_Get :: "string \<Rightarrow> Manager \<Rightarrow> aerr + Ticket" where
  "ap_Get tid m = (case map_of (am_tickets m) tid of None \<Rightarrow> Inl ErrNotFound | Some t \<Rightarrow> Inr t)"

text \<open>A loop that may expire the tickets it visits.\<close>

definition expire_if :: "(string \<Rightarrow> Ticket \<Rightarrow> bool) \<Rightarrow> (string, Ticket) gomap \<Rightarrow> (string, Ticket) gomap" where
  "expire_if P ts = map (\<lambda>(tid, t). (tid, if P tid t then t\<lparr>tk_State := StateExpired\<rparr> else t)) ts"

definition ap_Pending :: "(string \<Rightarrow> int) \<Rightarrow> string \<Rightarrow> Manager \<Rightarrow> Ticket list \<times> Manager" where
  "ap_Pending clock taskID m =
     (let visits = (\<lambda>t. tk_State t = StatePending \<and> (taskID = [] \<or> tk_TaskID t = taskID))
      in (map snd (filter (\<lambda>(tid, t). visits t \<and> \<not> tk_Deadline t < clock tid) (am_tickets m)),
          m\<lparr>am_tickets := expire_if (\<lambda>tid t. visits t \<and> tk_Deadline t < clock tid) (am_tickets m)\<rparr>))"

definition ap_ExpirePending :: "(string \<Rightarrow> int) \<Rightarrow> wres \<Rightarrow> Manager \<Rightarrow> nat \<times> Manager" where
  "ap_ExpirePending clock w m =
     (let late = (\<lambda>tid t. tk_State t = StatePending \<and> tk_Deadline t < clock tid);
          n = length (filter (\<lambda>(tid, t). late tid t) (am_tickets m));
          m1 = m\<lparr>am_tickets := expire_if late (am_tickets m)\<rparr>
      in (n, if n > 0 then snd (persistLocked w m1) else m1))"

definition matches :: "string \<Rightarrow> string \<Rightarrow> gval \<Rightarrow> Ticket \<Rightarrow> bool" where
  "matches taskID tool params t \<longleftrightarrow> tk_TaskID t = taskID \<and> tk_Tool t = tool \<and>
     tk_State t = StateApproved \<and> sameParams (tk_Params t) params"

definition IsApproved :: "string \<Rightarrow> string \<Rightarrow> gval \<Rightarrow> Manager \<Rightarrow> bool" where
  "IsApproved taskID tool params m = list_ex (\<lambda>(tid, t). matches taskID tool params t) (am_tickets m)"

definition claimable :: "string \<Rightarrow> string \<Rightarrow> gval \<Rightarrow> Ticket \<Rightarrow> bool" where
  "claimable taskID tool params t \<longleftrightarrow> matches taskID tool params t \<and> \<not> tk_Consumed t"

definition ApprovedFor :: "string \<Rightarrow> string \<Rightarrow> gval \<Rightarrow> Manager \<Rightarrow> string option" where
  "ApprovedFor taskID tool params m =
     map_option (\<lambda>(tid, t). tk_ID t) (find (\<lambda>(tid, t). claimable taskID tool params t) (am_tickets m))"

definition ClaimFor :: "wres \<Rightarrow> string \<Rightarrow> string \<Rightarrow> gval \<Rightarrow> Manager \<Rightarrow> string option \<times> Manager" where
  "ClaimFor w taskID tool params m =
     (case find (\<lambda>(tid, t). claimable taskID tool params t) (am_tickets m) of
        None \<Rightarrow> (None, m)
      | Some (tid, t) \<Rightarrow>
          let (ok, m1) = persistLocked w
                (m\<lparr>am_tickets := AList.update tid (t\<lparr>tk_Consumed := True\<rparr>) (am_tickets m)\<rparr>)
          in if \<not> ok then (None, m1\<lparr>am_tickets := AList.update tid (t\<lparr>tk_Consumed := False\<rparr>) (am_tickets m1)\<rparr>)
             else (Some (tk_ID t), m1))"

definition MarkConsumed :: "wres \<Rightarrow> string \<Rightarrow> Manager \<Rightarrow> Manager" where
  "MarkConsumed w tid m =
     (case map_of (am_tickets m) tid of
        Some t \<Rightarrow>
          if tk_State t = StateApproved
          then let (ok, m1) = persistLocked w
                     (m\<lparr>am_tickets := AList.update tid (t\<lparr>tk_Consumed := True\<rparr>) (am_tickets m)\<rparr>)
               in if \<not> ok then m1\<lparr>am_tickets := AList.update tid (t\<lparr>tk_Consumed := tk_Consumed t\<rparr>) (am_tickets m1)\<rparr>
                  else m1
          else snd (persistLocked w m)
      | None \<Rightarrow> snd (persistLocked w m))"

text \<open>\<open>params = None\<close> is the nil map.\<close>

definition ap_Edit ::
  "int \<Rightarrow> wres \<Rightarrow> string \<Rightarrow> gval option \<Rightarrow> string \<Rightarrow> string \<Rightarrow> Manager \<Rightarrow> (aerr + Ticket) \<times> Manager" where
  "ap_Edit now w tid params reason by' m =
     (case map_of (am_tickets m) tid of
        None \<Rightarrow> (Inl ErrNotFound, m)
      | Some t \<Rightarrow>
          if tk_State t \<noteq> StatePending then (Inl ErrAlreadyDecided, m)
          else let t1 = (case params of None \<Rightarrow> t | Some p \<Rightarrow> t\<lparr>tk_Params := p\<rparr>);
                   t2 = (if reason \<noteq> [] then t1\<lparr>tk_Rollback := reason\<rparr> else t1);
                   t3 = t2\<lparr>tk_EditedBy := by', tk_EditedAt := Some now\<rparr>;
                   m1 = snd (persistLocked w (m\<lparr>am_tickets := AList.update tid t3 (am_tickets m)\<rparr>))
               in (Inr t3, am_audit (audit_rec ''execution'' by' (''approval:edit:'' @ tk_Tool t3)
                      (tk_Params t3) ''approve'' (''ticket edited: '' @ reason)) m1))"

text \<open>
  Loading the store: \<open>rd\<close> says whether the file could be read, \<open>parsed\<close> whether it decodes (an
  undecodable file is moved aside).
\<close>

definition EnablePersistence ::
  "bool \<Rightarrow> bool \<Rightarrow> bool \<Rightarrow> wres \<Rightarrow> bool \<Rightarrow> Manager \<Rightarrow> aerr option \<times> Manager" where
  "EnablePersistence mkdir rd parsed w path m =
     (let m0 = m\<lparr>am_persist := path\<rparr> in
      if \<not> path then (None, m0)
      else if \<not> mkdir then (Some ErrMkdir, m0)
      else case am_store m of
        None \<Rightarrow> (let (ok, m2) = persistLocked w m0 in (if ok then None else Some ErrPersist, m2))
      | Some ts \<Rightarrow>
          if \<not> rd then (Some ErrReadStore, m0)
          else let m1 = (if \<not> parsed then m0\<lparr>am_store := None\<rparr>
                         else m0\<lparr>am_tickets := fold (\<lambda>t. AList.update (tk_ID t) t) ts (am_tickets m0)\<rparr>);
                   (ok, m2) = persistLocked w m1
               in (if ok then None else Some ErrPersist, m2))"

section \<open>Runs\<close>

text \<open>
  What happened, for the trace of a run: a claim with its result, a decision with the time it
  was made at, a restart, or anything else.
\<close>

datatype ap_event =
    AClaim string string gval "string option"
  | ADecide string bool string int
  | ARestart
  | AOther

text \<open>
  One call of an operation. A created ticket gets an unused id (ids are random). \<open>ap_restart\<close> is
  a new process that loads the store written by the old one.
\<close>

inductive ap_step :: "Manager \<Rightarrow> ap_event \<Rightarrow> Manager \<Rightarrow> bool" where
  ap_create: "map_of (am_tickets m) tid = None \<Longrightarrow> ap_step m AOther (snd (ap_Create now (Some tid) w t m))"
| ap_create_norand: "ap_step m AOther (snd (ap_Create now None w t m))"
| ap_decide: "ap_step m (ADecide tid approved by' now) (snd (ap_Decide now now2 w tid approved by' m))"
| ap_pending: "ap_step m AOther (snd (ap_Pending clock taskID m))"
| ap_expire: "ap_step m AOther (snd (ap_ExpirePending clock w m))"
| ap_claim: "ap_step m (AClaim taskID tool params (fst (ClaimFor w taskID tool params m)))
     (snd (ClaimFor w taskID tool params m))"
| ap_mark: "ap_step m AOther (MarkConsumed w tid m)"
| ap_edit: "ap_step m AOther (snd (ap_Edit now w tid params reason by' m))"
| ap_restart: "am_persist m \<Longrightarrow> am_store m \<noteq> None \<Longrightarrow>
     ap_step m ARestart (snd (EnablePersistence True True True w True (NewManager ledger (am_store m))))"

fun ap_claimed :: "ap_event \<Rightarrow> string option" where
  "ap_claimed (AClaim taskID tool params r) = r"
| "ap_claimed _ = None"

section \<open>Invariant\<close>

definition tickets_ok :: "(string, Ticket) gomap \<Rightarrow> bool" where
  "tickets_ok ts \<longleftrightarrow> gomap_ok ts \<and> (\<forall>k t. map_of ts k = Some t \<longrightarrow> tk_ID t = k)"

definition ap_ok :: "Manager \<Rightarrow> bool" where
  "ap_ok m \<longleftrightarrow> tickets_ok (am_tickets m) \<and>
     (case am_store m of None \<Rightarrow> True | Some ts \<Rightarrow> distinct (map tk_ID ts))"

definition burned :: "Ticket \<Rightarrow> bool" where
  "burned t \<longleftrightarrow> tk_State t = StateApproved \<and> tk_Consumed t"

definition ap_spent :: "Manager \<Rightarrow> string \<Rightarrow> bool" where
  "ap_spent m k \<longleftrightarrow> (\<exists>t. map_of (am_tickets m) k = Some t \<and> burned t) \<and>
     (am_persist m \<longrightarrow> (\<exists>ts t. am_store m = Some ts \<and> t \<in> set ts \<and> tk_ID t = k \<and> burned t))"

lemma stored_ticket_simps [simp]:
  "tk_ID (stored_ticket t) = tk_ID t" "burned (stored_ticket t) = burned t"
  "tk_State (stored_ticket t) = tk_State t" "tk_Consumed (stored_ticket t) = tk_Consumed t"
  by (simp_all add: stored_ticket_def burned_def)

lemma tickets_ok_Nil [simp]: "tickets_ok []"
  by (simp add: tickets_ok_def)

lemma tickets_ok_update [intro]: "tickets_ok ts \<Longrightarrow> tk_ID t = k \<Longrightarrow> tickets_ok (AList.update k t ts)"
  by (auto simp: tickets_ok_def gomap_simps)

lemma tickets_ok_ids:
  assumes "tickets_ok ts"
  shows "distinct (map tk_ID (map (\<lambda>(tid, t). stored_ticket t) ts))"
proof -
  have "map (tk_ID \<circ> (\<lambda>(tid, t). stored_ticket t)) ts = map fst ts"
    using assms by (auto simp: tickets_ok_def gomap_ok_mem)
  then show ?thesis using assms by (simp add: tickets_ok_def gomap_ok_def del: map_eq_conv)
qed

lemma persist_simps [simp]:
  "am_tickets (snd (persistLocked w m)) = am_tickets m"
  "am_persist (snd (persistLocked w m)) = am_persist m"
  "am_log (snd (persistLocked w m)) = am_log m"
  "am_ledger (snd (persistLocked w m)) = am_ledger m"
  by (auto simp: persistLocked_def Let_def split: prod.splits)

lemma am_audit_simps [simp]:
  "am_tickets (am_audit r m) = am_tickets m" "am_persist (am_audit r m) = am_persist m"
  "am_store (am_audit r m) = am_store m"
  by (simp_all add: am_audit_def)

lemma persist_ok:
  assumes "tickets_ok (am_tickets m)" "case am_store m of None \<Rightarrow> True | Some ts \<Rightarrow> distinct (map tk_ID ts)"
  shows "ap_ok (snd (persistLocked w m))"
proof -
  have "case am_store (snd (persistLocked w m)) of None \<Rightarrow> True | Some ts \<Rightarrow> distinct (map tk_ID ts)"
    using assms tickets_ok_ids [OF assms(1)]
    by (cases w) (auto simp: persistLocked_def fsjson_Write_def)
  then show ?thesis using assms(1) by (simp add: ap_ok_def)
qed

section \<open>What an operation may change\<close>

text \<open>
  \<open>ts_step D\<close>: a decided or expired ticket keeps every field, only its consumed mark may be set;
  a ticket is approved afterwards only if it was before or \<open>D\<close> allows it.
  \<open>evolves D\<close>: so do the tickets in memory, and the store is either the old one or a snapshot of
  such tickets.
\<close>

definition ts_step :: "(Ticket \<Rightarrow> bool) \<Rightarrow> (string, Ticket) gomap \<Rightarrow> (string, Ticket) gomap \<Rightarrow> bool" where
  "ts_step D ts ts' \<longleftrightarrow> tickets_ok ts' \<and>
     (\<forall>k t. map_of ts k = Some t \<longrightarrow> tk_State t \<noteq> StatePending \<longrightarrow>
        (\<exists>c. (tk_Consumed t \<longrightarrow> c) \<and> map_of ts' k = Some (t\<lparr>tk_Consumed := c\<rparr>))) \<and>
     (\<forall>k t'. map_of ts' k = Some t' \<longrightarrow> tk_State t' = StateApproved \<longrightarrow> D t' \<or>
        (\<exists>t c. map_of ts k = Some t \<and> tk_State t = StateApproved \<and> t' = t\<lparr>tk_Consumed := c\<rparr>))"

definition snapshot :: "(string, Ticket) gomap \<Rightarrow> Ticket list" where
  "snapshot ts = map (\<lambda>(tid, t). stored_ticket t) ts"

definition evolves :: "(Ticket \<Rightarrow> bool) \<Rightarrow> Manager \<Rightarrow> Manager \<Rightarrow> bool" where
  "evolves D m m' \<longleftrightarrow> ts_step D (am_tickets m) (am_tickets m') \<and> am_persist m' = am_persist m \<and>
     (am_store m' = am_store m \<or> (\<exists>ts. ts_step D (am_tickets m) ts \<and> am_store m' = Some (snapshot ts)))"

lemma ts_step_update:
  assumes "tickets_ok ts" "tk_ID t' = k"
    and "\<And>t. map_of ts k = Some t \<Longrightarrow> tk_State t \<noteq> StatePending \<Longrightarrow>
      \<exists>c. (tk_Consumed t \<longrightarrow> c) \<and> t' = t\<lparr>tk_Consumed := c\<rparr>"
    and "tk_State t' = StateApproved \<Longrightarrow> D t' \<or>
      (\<exists>t c. map_of ts k = Some t \<and> tk_State t = StateApproved \<and> t' = t\<lparr>tk_Consumed := c\<rparr>)"
  shows "ts_step D ts (AList.update k t' ts)"
  unfolding ts_step_def
proof (intro conjI allI impI)
  show "tickets_ok (AList.update k t' ts)" using assms(1,2) by (rule tickets_ok_update)
next
  fix j t
  assume j: "map_of ts j = Some t" "tk_State t \<noteq> StatePending"
  show "\<exists>c. (tk_Consumed t \<longrightarrow> c) \<and> map_of (AList.update k t' ts) j = Some (t\<lparr>tk_Consumed := c\<rparr>)"
  proof (cases "j = k")
    case True
    then show ?thesis using assms(3) j by (simp add: gomap_simps)
  next
    case False
    then show ?thesis using j(1) by (intro exI [of _ "tk_Consumed t"]) (simp add: gomap_simps)
  qed
next
  fix j t
  assume j: "map_of (AList.update k t' ts) j = Some t" "tk_State t = StateApproved"
  show "D t \<or> (\<exists>u c. map_of ts j = Some u \<and> tk_State u = StateApproved \<and> t = u\<lparr>tk_Consumed := c\<rparr>)"
  proof (cases "j = k")
    case True
    then have "t = t'" using j(1) by (simp add: gomap_simps)
    then show ?thesis using assms(4) j(2) True by blast
  next
    case False
    then have "map_of ts j = Some t" using j(1) by (simp add: gomap_simps)
    then show ?thesis using j(2) by (intro disjI2 exI [of _ t] exI [of _ "tk_Consumed t"]) simp
  qed
qed

lemma ts_step_refl: "tickets_ok ts \<Longrightarrow> ts_step D ts ts"
proof -
  have same: "t\<lparr>tk_Consumed := tk_Consumed t\<rparr> = t" for t :: Ticket by simp
  assume "tickets_ok ts"
  then show ?thesis unfolding ts_step_def by (metis same)
qed

lemma ts_step_pending:
  "\<lbrakk>tickets_ok ts; map_of ts k = Some t; tk_State t = StatePending; tk_ID t' = k;
    tk_State t' = StateApproved \<longrightarrow> D t'\<rbrakk> \<Longrightarrow>
   ts_step D ts (AList.update k t' ts)"
  by (rule ts_step_update) simp_all

lemma ts_step_fresh:
  "\<lbrakk>tickets_ok ts; map_of ts k = None; tk_ID t' = k; tk_State t' \<noteq> StateApproved\<rbrakk> \<Longrightarrow> ts_step D ts (AList.update k t' ts)"
  by (rule ts_step_update) simp_all

lemma ts_step_consumed:
  assumes "tickets_ok ts" "map_of ts k = Some t" "tk_Consumed t \<longrightarrow> c"
  shows "ts_step D ts (AList.update k (t\<lparr>tk_Consumed := c\<rparr>) ts)"
proof (rule ts_step_update)
  show "tk_ID (t\<lparr>tk_Consumed := c\<rparr>) = k" using assms by (simp add: tickets_ok_def)
next
  fix u
  assume "map_of ts k = Some u"
  then show "\<exists>c'. (tk_Consumed u \<longrightarrow> c') \<and> t\<lparr>tk_Consumed := c\<rparr> = u\<lparr>tk_Consumed := c'\<rparr>"
    using assms by (intro exI [of _ c]) simp
next
  assume "tk_State (t\<lparr>tk_Consumed := c\<rparr>) = StateApproved"
  then show "D (t\<lparr>tk_Consumed := c\<rparr>) \<or> (\<exists>u c'. map_of ts k = Some u \<and>
      tk_State u = StateApproved \<and> t\<lparr>tk_Consumed := c\<rparr> = u\<lparr>tk_Consumed := c'\<rparr>)"
    using assms(2) by (intro disjI2 exI [of _ t] exI [of _ c]) simp
qed (rule assms(1))

lemma map_of_expire_if:
  "map_of (expire_if P ts) k = map_option (\<lambda>t. if P k t then t\<lparr>tk_State := StateExpired\<rparr> else t) (map_of ts k)"
  by (induction ts) (auto simp: expire_if_def)

lemma ts_step_expire:
  assumes "tickets_ok ts" "\<And>k t. P k t \<Longrightarrow> tk_State t = StatePending"
  shows "ts_step D ts (expire_if P ts)"
  unfolding ts_step_def
proof (intro conjI allI impI)
  have "map fst (expire_if P ts) = map fst ts" by (auto simp: expire_if_def)
  then show "tickets_ok (expire_if P ts)"
    using assms(1) by (auto simp: tickets_ok_def gomap_ok_def map_of_expire_if)
next
  fix k t
  assume "map_of ts k = Some t" "tk_State t \<noteq> StatePending"
  then show "\<exists>c. (tk_Consumed t \<longrightarrow> c) \<and> map_of (expire_if P ts) k = Some (t\<lparr>tk_Consumed := c\<rparr>)"
    using assms(2) by (intro exI [of _ "tk_Consumed t"]) (auto simp: map_of_expire_if)
next
  fix k t
  assume "map_of (expire_if P ts) k = Some t" "tk_State t = StateApproved"
  then have "map_of ts k = Some t" by (auto simp: map_of_expire_if split: if_splits)
  then show "D t \<or> (\<exists>u c. map_of ts k = Some u \<and> tk_State u = StateApproved \<and> t = u\<lparr>tk_Consumed := c\<rparr>)"
    using \<open>tk_State t = StateApproved\<close> by (intro disjI2 exI [of _ t] exI [of _ "tk_Consumed t"]) simp
qed

lemma evolves_tickets: "ts_step D (am_tickets m) ts \<Longrightarrow> evolves D m (m\<lparr>am_tickets := ts\<rparr>)"
  by (simp add: evolves_def)

lemma evolves_refl: "tickets_ok (am_tickets m) \<Longrightarrow> evolves D m m"
  by (simp add: evolves_def ts_step_refl)

lemma evolves_persist:
  assumes "ts_step D (am_tickets m) ts"
  shows "evolves D m (snd (persistLocked w (m\<lparr>am_tickets := ts\<rparr>)))"
  using assms by (cases w) (auto simp: evolves_def persistLocked_def fsjson_Write_def snapshot_def)

lemma evolves_persist_same:
  "tickets_ok (am_tickets m) \<Longrightarrow> evolves D m (snd (persistLocked w m))"
  using evolves_persist [of D m "am_tickets m" w] ts_step_refl by simp

lemma evolves_audit: "evolves D m m' \<Longrightarrow> evolves D m (am_audit r m')"
  by (simp add: evolves_def)

lemma evolves_rollback:
  "evolves D m m' \<Longrightarrow> ts_step D (am_tickets m) ts \<Longrightarrow> evolves D m (m'\<lparr>am_tickets := ts\<rparr>)"
  by (simp add: evolves_def)

lemma evolves_ok:
  assumes "ap_ok m" "evolves D m m'"
  shows "ap_ok m'"
  using assms tickets_ok_ids unfolding ap_ok_def evolves_def ts_step_def snapshot_def by auto

lemma ts_step_decided:
  "\<lbrakk>ts_step D ts ts'; map_of ts k = Some t; tk_State t \<noteq> StatePending\<rbrakk> \<Longrightarrow>
   \<exists>c. (tk_Consumed t \<longrightarrow> c) \<and> map_of ts' k = Some (t\<lparr>tk_Consumed := c\<rparr>)"
  unfolding ts_step_def by blast

lemma ts_step_burned:
  "\<lbrakk>ts_step D ts ts'; map_of ts k = Some t; burned t\<rbrakk> \<Longrightarrow> \<exists>t'. map_of ts' k = Some t' \<and> burned t'"
  by (fastforce simp: ts_step_def burned_def)

lemma snapshot_burned:
  assumes "tickets_ok ts" "map_of ts k = Some t" "burned t"
  shows "\<exists>u\<in>set (snapshot ts). tk_ID u = k \<and> burned u"
proof -
  have "(k, t) \<in> set ts" "tk_ID t = k"
    using assms(1,2) by (auto simp: tickets_ok_def dest: map_of_SomeD)
  then show ?thesis using assms(3) by (force simp: snapshot_def)
qed

lemma evolves_spent:
  assumes "evolves D m m'" "ap_spent m k"
  shows "ap_spent m' k"
proof -
  obtain t where t: "map_of (am_tickets m) k = Some t" "burned t"
    using assms(2) by (auto simp: ap_spent_def)
  have "\<exists>ts u. am_store m' = Some ts \<and> u \<in> set ts \<and> tk_ID u = k \<and> burned u" if "am_persist m'"
  proof (cases "am_store m' = am_store m")
    case True
    then show ?thesis using assms that by (auto simp: ap_spent_def evolves_def)
  next
    case False
    then obtain ts where "ts_step D (am_tickets m) ts" "am_store m' = Some (snapshot ts)"
      using assms(1) by (auto simp: evolves_def)
    then show ?thesis
      using ts_step_burned [OF _ t] snapshot_burned by (auto simp: ts_step_def) blast
  qed
  then show ?thesis
    using ts_step_burned [OF _ t, of D "am_tickets m'"] assms(1) by (auto simp: ap_spent_def evolves_def)
qed

lemma find_claimable:
  assumes "tickets_ok ts" "find (\<lambda>(tid, t). claimable task tool params t) ts = Some (k, t)"
  shows "map_of ts k = Some t \<and> claimable task tool params t"
proof -
  have "(k, t) \<in> set ts" "claimable task tool params t"
    using assms(2) by (auto simp: find_Some_iff) (metis nth_mem)
  then show ?thesis using assms(1) by (simp add: tickets_ok_def gomap_ok_mem)
qed

text \<open>Every operation but a restart evolves the manager.\<close>

lemma ap_Create_evolves:
  assumes "ap_ok m" "case rand of None \<Rightarrow> True | Some tid \<Rightarrow> map_of (am_tickets m) tid = None"
  shows "evolves D m (snd (ap_Create now rand w t m))"
proof -
  have ok: "tickets_ok (am_tickets m)" using assms(1) by (simp add: ap_ok_def)
  show ?thesis
    using evolves_refl [OF ok] assms(2)
    by (auto simp: ap_Create_def Let_def split_beta intro!: evolves_audit evolves_persist
        ts_step_fresh [OF ok] split: option.splits)
qed

lemma ap_Decide_evolves:
  assumes "ap_ok m"
  shows "evolves (\<lambda>t. tk_ID t = tid \<and> approved \<and> tk_DecidedBy t = by' \<and> now \<le> tk_Deadline t)
    m (snd (ap_Decide now now2 w tid approved by' m))"
proof -
  have ok: "tickets_ok (am_tickets m)" using assms(1) by (simp add: ap_ok_def)
  show ?thesis
  proof (cases "map_of (am_tickets m) tid")
    case None
    then show ?thesis using evolves_refl [OF ok] by (simp add: ap_Decide_def)
  next
    case (Some t)
    then have "tk_ID t = tid" using ok by (simp add: tickets_ok_def)
    then show ?thesis
      using evolves_refl [OF ok] Some
      by (simp add: ap_Decide_def Let_def split_beta evolves_audit evolves_persist evolves_tickets
          ts_step_pending [OF ok Some])
  qed
qed

lemma ap_Edit_evolves:
  assumes "ap_ok m"
  shows "evolves D m (snd (ap_Edit now w tid params reason by' m))"
proof -
  have ok: "tickets_ok (am_tickets m)" using assms(1) by (simp add: ap_ok_def)
  show ?thesis
  proof (cases "map_of (am_tickets m) tid")
    case None
    then show ?thesis using evolves_refl [OF ok] by (simp add: ap_Edit_def)
  next
    case (Some t)
    then have "tk_ID t = tid" using ok by (simp add: tickets_ok_def)
    then show ?thesis
      using evolves_refl [OF ok] Some
      by (simp add: ap_Edit_def Let_def split_beta evolves_audit evolves_persist
          ts_step_pending [OF ok Some] split: option.splits)
  qed
qed

lemma ClaimFor_evolves:
  assumes "ap_ok m"
  shows "evolves D m (snd (ClaimFor w task tool params m))"
proof -
  have ok: "tickets_ok (am_tickets m)" using assms(1) by (simp add: ap_ok_def)
  show ?thesis
  proof (cases "find (\<lambda>(tid, t). claimable task tool params t) (am_tickets m)")
    case None
    then show ?thesis using evolves_refl [OF ok] by (simp add: ClaimFor_def)
  next
    case (Some p)
    obtain k t where p: "p = (k, t)" by (cases p)
    with Some have t: "map_of (am_tickets m) k = Some t" "\<not> tk_Consumed t"
      using find_claimable [OF ok, of task tool params k t] by (simp_all add: claimable_def)
    have "AList.update k u (AList.update k v ts) = AList.update k u ts" for u v :: Ticket and ts
      by (induction ts) auto
    then show ?thesis
      using Some p t
      by (simp add: ClaimFor_def Let_def split_beta evolves_rollback evolves_persist
          ts_step_consumed [OF ok t(1)])
  qed
qed

lemma MarkConsumed_evolves:
  assumes "ap_ok m"
  shows "evolves D m (MarkConsumed w tid m)"
proof -
  have ok: "tickets_ok (am_tickets m)" using assms(1) by (simp add: ap_ok_def)
  have twice: "AList.update k u (AList.update k v ts) = AList.update k u ts" for k and u v :: Ticket and ts
    by (induction ts) auto
  show ?thesis
  proof (cases "map_of (am_tickets m) tid")
    case None
    then show ?thesis using evolves_persist_same [OF ok] by (simp add: MarkConsumed_def)
  next
    case (Some t)
    have "ts_step D (am_tickets m) (AList.update tid (t\<lparr>tk_Consumed := c\<rparr>) (am_tickets m))"
      if "tk_Consumed t \<longrightarrow> c" for c
      using ts_step_consumed [OF ok Some that] .
    from this [of True] this [of "tk_Consumed t"] show ?thesis
      using evolves_persist_same [OF ok] Some
      by (simp add: MarkConsumed_def Let_def split_beta evolves_rollback evolves_persist twice)
  qed
qed

lemma ap_expire_evolves:
  assumes "ap_ok m"
  shows "evolves D m (snd (ap_Pending clock task m))" "evolves D m (snd (ap_ExpirePending clock w m))"
proof -
  have ok: "tickets_ok (am_tickets m)" using assms(1) by (simp add: ap_ok_def)
  show "evolves D m (snd (ap_Pending clock task m))"
    by (simp add: ap_Pending_def Let_def) (intro evolves_tickets ts_step_expire ok, simp)
  show "evolves D m (snd (ap_ExpirePending clock w m))"
    by (simp add: ap_ExpirePending_def Let_def)
      (intro conjI impI evolves_tickets evolves_persist ts_step_expire ok, simp_all)
qed

section \<open>Restart\<close>

abbreviation load_tickets :: "Ticket list \<Rightarrow> (string, Ticket) gomap" where
  "load_tickets ts \<equiv> fold (\<lambda>t. AList.update (tk_ID t) t) ts []"

lemma load_other:
  "k \<notin> tk_ID ` set ts \<Longrightarrow> map_of (fold (\<lambda>t. AList.update (tk_ID t) t) ts acc) k = map_of acc k"
  by (induction ts arbitrary: acc) (auto simp: gomap_simps)

lemma load_ok: "tickets_ok acc \<Longrightarrow> tickets_ok (fold (\<lambda>t. AList.update (tk_ID t) t) ts acc)"
  by (induction ts arbitrary: acc) auto

lemma load_mem:
  "distinct (map tk_ID ts) \<Longrightarrow> t \<in> set ts \<Longrightarrow>
   map_of (fold (\<lambda>t. AList.update (tk_ID t) t) ts acc) (tk_ID t) = Some t"
proof (induction ts arbitrary: acc)
  case (Cons u ts)
  show ?case
  proof (cases "t = u")
    case True
    then have "tk_ID t \<notin> tk_ID ` set ts" using Cons.prems(1) by simp
    then show ?thesis using True by (simp add: load_other gomap_simps)
  next
    case False
    then show ?thesis using Cons by simp
  qed
qed simp

lemma load_from:
  "map_of (fold (\<lambda>t. AList.update (tk_ID t) t) ts acc) k = Some t \<Longrightarrow> t \<in> set ts \<or> map_of acc k = Some t"
  by (induction ts arbitrary: acc) (fastforce simp: gomap_simps split: if_splits)+

text \<open>The manager that a restart starts from, before it rewrites the store.\<close>

definition reloaded :: "bool \<Rightarrow> Ticket list \<Rightarrow> Manager" where
  "reloaded ledger ts = \<lparr>am_tickets = load_tickets ts, am_ledger = ledger, am_persist = True,
     am_store = Some ts, am_log = []\<rparr>"

lemma restart_reloaded:
  "snd (EnablePersistence True True True w True (NewManager ledger (Some ts))) =
   snd (persistLocked w (reloaded ledger ts))"
  by (simp add: EnablePersistence_def NewManager_def reloaded_def Let_def split_beta)

lemma reloaded_ok: "distinct (map tk_ID ts) \<Longrightarrow> ap_ok (reloaded ledger ts)"
  by (simp add: reloaded_def ap_ok_def load_ok)

lemma reloaded_spent:
  assumes "distinct (map tk_ID ts)" "am_persist m" "am_store m = Some ts" "ap_spent m k"
  shows "ap_spent (reloaded ledger ts) k"
proof -
  obtain t where t: "t \<in> set ts" "tk_ID t = k" "burned t"
    using assms(2-4) by (auto simp: ap_spent_def)
  then have "map_of (load_tickets ts) k = Some t" using load_mem [OF assms(1)] by blast
  then show ?thesis using t by (auto simp: ap_spent_def reloaded_def)
qed

section \<open>Claims are one-shot\<close>

lemma ap_step_cases:
  assumes "ap_step m ev m'" "ap_ok m"
  obtains (evolve) D where "evolves D m m'"
      "\<And>t. D t \<Longrightarrow> \<exists>now. ev = ADecide (tk_ID t) True (tk_DecidedBy t) now \<and> now \<le> tk_Deadline t"
    | (reload) w ledger ts where "am_persist m" "am_store m = Some ts" "distinct (map tk_ID ts)" "ev = ARestart"
      "m' = snd (persistLocked w (reloaded ledger ts))"
  using assms(1)
proof cases
  case (ap_create tid now w t)
  then show ?thesis using ap_Create_evolves [OF assms(2), of "Some tid"] evolve [of "\<lambda>_. False"] by simp
next
  case (ap_create_norand now w t)
  then show ?thesis using ap_Create_evolves [OF assms(2), of None] evolve [of "\<lambda>_. False"] by simp
next
  case (ap_decide tid approved by' now now2 w)
  show ?thesis
    by (rule evolve [where D = "\<lambda>t. tk_ID t = tid \<and> approved \<and> tk_DecidedBy t = by' \<and> now \<le> tk_Deadline t"])
      (use ap_decide ap_Decide_evolves [OF assms(2)] in auto)
next
  case (ap_pending clock taskID)
  then show ?thesis using ap_expire_evolves(1) [OF assms(2)] evolve [of "\<lambda>_. False"] by simp
next
  case (ap_expire clock w)
  then show ?thesis using ap_expire_evolves(2) [OF assms(2)] evolve [of "\<lambda>_. False"] by simp
next
  case (ap_claim taskID tool params w)
  then show ?thesis using ClaimFor_evolves [OF assms(2)] evolve [of "\<lambda>_. False"] by simp
next
  case (ap_mark w tid)
  then show ?thesis using MarkConsumed_evolves [OF assms(2)] evolve [of "\<lambda>_. False"] by simp
next
  case (ap_edit now w tid params reason by')
  then show ?thesis using ap_Edit_evolves [OF assms(2)] evolve [of "\<lambda>_. False"] by simp
next
  case (ap_restart w ledger)
  then obtain ts where "am_store m = Some ts" by auto
  then show ?thesis
    using ap_restart assms(2) by (intro reload [of ts w ledger]) (auto simp: ap_ok_def restart_reloaded)
qed

lemma ap_step_ok: "ap_ok m \<Longrightarrow> ap_step m ev m' \<Longrightarrow> ap_ok m'"
  by (erule (1) ap_step_cases) (auto intro: evolves_ok persist_ok simp: reloaded_def load_ok)

lemma ap_step_spent: "\<lbrakk>ap_ok m; ap_step m ev m'; ap_spent m k\<rbrakk> \<Longrightarrow> ap_spent m' k"
proof (erule (1) ap_step_cases)
  fix w ledger ts
  assume r: "ap_spent m k" "am_persist m" "am_store m = Some ts" "distinct (map tk_ID ts)"
    "m' = snd (persistLocked w (reloaded ledger ts))"
  have "evolves (\<lambda>_. False) (reloaded ledger ts) m'"
    unfolding r(5) by (rule evolves_persist_same) (simp add: reloaded_def load_ok)
  then show ?thesis using reloaded_spent [OF r(4,2,3,1)] evolves_spent by blast
qed (rule evolves_spent)

text \<open>What a successful claim found.\<close>

lemma ClaimFor_Some:
  assumes "ap_ok m" "ClaimFor w task tool params m = (Some k, m')"
  shows "\<exists>t. map_of (am_tickets m) k = Some t \<and> claimable task tool params t \<and>
    am_tickets m' = AList.update k (t\<lparr>tk_Consumed := True\<rparr>) (am_tickets m) \<and> ap_spent m' k"
proof -
  have ok: "tickets_ok (am_tickets m)" using assms(1) by (simp add: ap_ok_def)
  obtain j t where f: "find (\<lambda>(tid, t). claimable task tool params t) (am_tickets m) = Some (j, t)"
    using assms(2) by (auto simp: ClaimFor_def split: option.splits)
  have t: "map_of (am_tickets m) j = Some t" "claimable task tool params t"
    using find_claimable [OF ok f] by simp_all
  define m1 where "m1 = m\<lparr>am_tickets := AList.update j (t\<lparr>tk_Consumed := True\<rparr>) (am_tickets m)\<rparr>"
  have p: "fst (persistLocked w m1)" "m' = snd (persistLocked w m1)" "k = tk_ID t"
    using assms(2) f by (auto simp: ClaimFor_def m1_def Let_def split_beta split: if_splits)
  have k: "k = j" using ok t(1) p(3) by (simp add: tickets_ok_def)
  have ok1: "tickets_ok (am_tickets m1)" using ok t(1) by (auto simp: m1_def tickets_ok_def gomap_simps)
  have b: "map_of (am_tickets m1) k = Some (t\<lparr>tk_Consumed := True\<rparr>)" "burned (t\<lparr>tk_Consumed := True\<rparr>)"
    using t by (simp_all add: m1_def k gomap_simps burned_def claimable_def matches_def)
  have "ap_spent m' k"
    using p(1) b snapshot_burned [OF ok1 b] unfolding p(2) ap_spent_def
    by (cases w) (auto simp: persistLocked_def fsjson_Write_def snapshot_def split: if_splits)
  then show ?thesis using t k p(2) by (auto simp: m1_def)
qed

lemma ap_claim_step:
  assumes "ap_ok m" "ap_step m ev m'" "ap_claimed ev = Some k"
  obtains w task tool params where "ev = AClaim task tool params (Some k)"
    "ClaimFor w task tool params m = (Some k, m')"
  using assms(2,3) by (cases rule: ap_step.cases) (auto simp: prod_eq_iff)

interpretation apc: claim_store ap_ok ap_spent ap_step ap_claimed
proof
  fix m e m' k
  assume ok: "ap_ok m" and st: "ap_step m e m'"
  show "ap_ok m'" using ok st by (rule ap_step_ok)
  show "ap_spent m' k" if "ap_spent m k" using ok st that by (rule ap_step_spent)
  assume c: "ap_claimed e = Some k"
  obtain w task tool params where "ClaimFor w task tool params m = (Some k, m')"
    by (rule ap_claim_step [OF ok st c])
  from ClaimFor_Some [OF ok this] show "\<not> ap_spent m k" "ap_spent m' k"
    by (auto simp: ap_spent_def claimable_def burned_def)
qed

section \<open>Properties\<close>

text \<open>The manager of a first process, with or without a store file.\<close>

definition ap_boot :: "bool \<Rightarrow> bool \<Rightarrow> Manager" where
  "ap_boot ledger persist = snd (EnablePersistence True True True WOk persist (NewManager ledger None))"

lemma ap_boot_simps:
  "am_tickets (ap_boot ledger persist) = []"
  "am_store (ap_boot ledger persist) = (if persist then Some [] else None)"
  "am_persist (ap_boot ledger persist) = persist"
  by (simp_all add: ap_boot_def EnablePersistence_def NewManager_def persistLocked_def fsjson_Write_def
      Let_def)

lemma ap_boot_ok: "ap_ok (ap_boot ledger persist)"
  by (simp add: ap_ok_def ap_boot_simps)

text \<open>
  C11: "Allow once". In every run of the approval manager (creates with unused ids, decisions,
  edits, claims, manual burns, expiry, store writes that fail before or after the rename, and
  restarts that reload the store) no ticket id is returned by two successful claims.
\<close>

theorem approval_one_shot:
  "ev_run ap_step (ap_boot ledger persist) evs m \<Longrightarrow> distinct (results ap_claimed evs)"
  using apc.run_claims ap_boot_ok by blast

text \<open>An approval that a decision in the trace backs.\<close>

definition backed :: "ap_event list \<Rightarrow> Ticket \<Rightarrow> bool" where
  "backed evs t \<longleftrightarrow> (tk_State t = StateApproved \<longrightarrow>
     (\<exists>now. ADecide (tk_ID t) True (tk_DecidedBy t) now \<in> set evs \<and> now \<le> tk_Deadline t))"

definition all_backed :: "ap_event list \<Rightarrow> Manager \<Rightarrow> bool" where
  "all_backed evs m \<longleftrightarrow> (\<forall>k t. map_of (am_tickets m) k = Some t \<longrightarrow> backed evs t) \<and>
     (\<forall>ts. am_store m = Some ts \<longrightarrow> (\<forall>t\<in>set ts. backed evs t))"

lemma backed_more: "backed evs t \<Longrightarrow> backed (evs @ us) t"
  by (auto simp: backed_def)

lemma backed_simps [simp]:
  "backed evs (stored_ticket t) = backed evs t" "backed evs (t\<lparr>tk_Consumed := c\<rparr>) = backed evs t"
  by (simp_all add: backed_def stored_ticket_def)

lemma ts_step_backed:
  assumes "ts_step D ts ts'" "\<And>k t. map_of ts k = Some t \<Longrightarrow> backed evs t"
    and "\<And>t. D t \<Longrightarrow> backed (evs @ [ev]) t" and "map_of ts' k = Some t"
  shows "backed (evs @ [ev]) t"
proof (cases "tk_State t = StateApproved")
  case True
  then consider "D t" | u c where "map_of ts k = Some u" "t = u\<lparr>tk_Consumed := c\<rparr>"
    using assms(1,4) unfolding ts_step_def by blast
  then show ?thesis
  proof cases
    case 2
    then show ?thesis using assms(2) [of k u] backed_more [of evs u "[ev]"] by simp
  qed (rule assms(3))
qed (simp add: backed_def)

lemma snapshot_backed:
  assumes "tickets_ok ts" "\<And>k t. map_of ts k = Some t \<Longrightarrow> backed evs t" "u \<in> set (snapshot ts)"
  shows "backed evs u"
proof -
  obtain k t where "(k, t) \<in> set ts" "u = stored_ticket t" using assms(3) by (auto simp: snapshot_def)
  then show ?thesis using assms(1,2) by (simp add: tickets_ok_def gomap_ok_mem)
qed

lemma evolves_backed:
  assumes e: "evolves D m m'" and b: "all_backed evs m" and D: "\<And>t. D t \<Longrightarrow> backed (evs @ [ev]) t"
  shows "all_backed (evs @ [ev]) m'"
proof -
  have old: "map_of (am_tickets m) k = Some t \<Longrightarrow> backed evs t" for k t
    using b by (simp add: all_backed_def)
  have new: "backed (evs @ [ev]) t" if "ts_step D (am_tickets m) ts" "map_of ts k = Some t" for ts k t
    by (rule ts_step_backed [OF that(1) old D that(2)])
  have "backed (evs @ [ev]) t" if "am_store m' = Some ts" "t \<in> set ts" for ts t
  proof (cases "am_store m' = am_store m")
    case True
    then have "am_store m = Some ts" using that(1) by simp
    then show ?thesis using b that(2) by (simp add: all_backed_def backed_more)
  next
    case False
    then obtain us where us: "ts_step D (am_tickets m) us" "am_store m' = Some (snapshot us)"
      using e unfolding evolves_def by blast
    then have "ts = snapshot us" using that(1) by simp
    with us(1) show ?thesis using snapshot_backed [of us "evs @ [ev]" t] new that(2) by (simp add: ts_step_def)
  qed
  then show ?thesis using e new by (auto simp: all_backed_def evolves_def)
qed

lemma ap_run_backed:
  assumes "ev_run ap_step m evs m'" "ap_ok m" "all_backed [] m"
  shows "ap_ok m' \<and> all_backed evs m'"
  using assms
proof (induction rule: ev_run.induct)
  case (ev_run_snoc m evs m1 ev m2)
  then have ok: "ap_ok m1" and b: "all_backed evs m1" by simp_all
  from ev_run_snoc.hyps(2) ok have "all_backed (evs @ [ev]) m2"
  proof (cases rule: ap_step_cases)
    case (evolve D)
    show ?thesis
      by (rule evolves_backed [OF evolve(1) b]) (use evolve(2) in \<open>fastforce simp: backed_def\<close>)
  next
    case (reload w ledger ts)
    have "all_backed evs (reloaded ledger ts)"
      using b reload(2) load_from [of ts "[]"] by (fastforce simp: all_backed_def reloaded_def)
    moreover have "evolves (\<lambda>_. False) (reloaded ledger ts) m2"
      unfolding reload(5) by (rule evolves_persist_same) (simp add: reloaded_def load_ok)
    ultimately show ?thesis using evolves_backed [of "\<lambda>_. False"] by simp
  qed
  then show ?case using ap_step_ok [OF ok ev_run_snoc.hyps(2)] by blast
qed simp

lemma claim_backed:
  assumes "ev_run ap_step (ap_boot ledger persist) evs m"
    and "ClaimFor w task tool params m = (Some k, m')"
  shows "\<exists>t now. map_of (am_tickets m) k = Some t \<and> tk_TaskID t = task \<and> tk_Tool t = tool \<and>
    sameParams (tk_Params t) params \<and> ADecide k True (tk_DecidedBy t) now \<in> set evs \<and>
    now \<le> tk_Deadline t"
proof -
  have "ap_ok m \<and> all_backed evs m"
    using assms(1) by (rule ap_run_backed) (simp_all add: ap_boot_ok all_backed_def ap_boot_simps)
  then have ok: "ap_ok m" and b: "all_backed evs m" by blast+
  from ClaimFor_Some [OF ok assms(2)] obtain t where
    t: "map_of (am_tickets m) k = Some t" "claimable task tool params t" by blast
  then have "backed evs t" "tk_ID t = k" using b ok by (simp_all add: all_backed_def ap_ok_def tickets_ok_def)
  then show ?thesis using t by (auto simp: claimable_def matches_def backed_def)
qed

text \<open>
  C28: A claim is backed by a human decision on exactly this call. When \<open>ClaimFor\<close> returns a
  ticket, that ticket has the claimed task, tool and (canonically encoded) parameters, and the
  trace contains a call of \<open>Decide\<close> that approved it, by the person the ticket records, at a time
  not after the ticket's deadline.
\<close>

theorem approval_claim_decided:
  assumes "ev_run ap_step (ap_boot ledger persist) evs m"
    and "ClaimFor w task tool params m = (Some k, m')"
  shows "\<exists>t now. map_of (am_tickets m) k = Some t \<and> tk_TaskID t = task \<and> tk_Tool t = tool \<and>
    sameParams (tk_Params t) params \<and> ADecide k True (tk_DecidedBy t) now \<in> set evs \<and>
    now \<le> tk_Deadline t"
  using assms by (rule claim_backed)

text \<open>
  Decisions are final. Over any run without a restart, a ticket that was approved, rejected or
  expired keeps every field; only its consumed mark can be set, and once set it stays set.
\<close>

theorem approval_decision_final:
  assumes "ev_run ap_step m evs m'" "ap_ok m" "ARestart \<notin> set evs"
    and "map_of (am_tickets m) k = Some t" "tk_State t \<noteq> StatePending"
  shows "\<exists>c. (tk_Consumed t \<longrightarrow> c) \<and> map_of (am_tickets m') k = Some (t\<lparr>tk_Consumed := c\<rparr>)"
  using assms
proof (induction rule: ev_run.induct)
  case (ev_run_nil m)
  then show ?case by (intro exI [of _ "tk_Consumed t"]) simp
next
  case (ev_run_snoc m evs m1 ev m2)
  then obtain c where c: "tk_Consumed t \<longrightarrow> c" "map_of (am_tickets m1) k = Some (t\<lparr>tk_Consumed := c\<rparr>)"
    by auto
  have ok: "ap_ok m1"
    using ev_run_invariant [OF ev_run_snoc.hyps(1), of ap_ok] ev_run_snoc.prems(1) ap_step_ok by blast
  from ev_run_snoc.hyps(2) ok obtain D where "evolves D m1 m2"
    by (rule ap_step_cases) (use ev_run_snoc.prems(2) in auto)
  then have "ts_step D (am_tickets m1) (am_tickets m2)" by (simp add: evolves_def)
  from ts_step_decided [OF this c(2)] ev_run_snoc.prems(4) obtain c' where
    "c \<longrightarrow> c'" "map_of (am_tickets m2) k = Some (t\<lparr>tk_Consumed := c\<rparr>\<lparr>tk_Consumed := c'\<rparr>)" by auto
  then show ?case using c(1) by (intro exI [of _ c']) simp
qed

text \<open>
  C29: A decision whose store write fails is reported as an error but takes effect: the ticket is
  approved in memory, and the next claim that can write the store unlocks the execution.
\<close>

theorem approval_failed_decide_effective:
  assumes "ap_ok m" "am_persist m" "map_of (am_tickets m) k = Some t" "tk_State t = StatePending"
    and "\<not> tk_Consumed t" "now \<le> tk_Deadline t"
  shows "fst (ap_Decide now now2 WFail k True by' m) = Some ErrPersist \<and>
    fst (ClaimFor WOk (tk_TaskID t) (tk_Tool t) (tk_Params t) (snd (ap_Decide now now2 WFail k True by' m))) \<noteq> None"
proof -
  define t1 where "t1 = t\<lparr>tk_State := StateApproved, tk_DecidedBy := by', tk_DecidedAt := now2\<rparr>"
  have d: "ap_Decide now now2 WFail k True by' m =
      (Some ErrPersist, m\<lparr>am_tickets := AList.update k t1 (am_tickets m)\<rparr>)"
    using assms by (simp add: ap_Decide_def persistLocked_def fsjson_Write_def t1_def)
  have "(k, t1) \<in> set (AList.update k t1 (am_tickets m))"
    by (rule map_of_SomeD) (simp add: gomap_simps)
  moreover have "claimable (tk_TaskID t) (tk_Tool t) (tk_Params t) t1"
    using assms(5) by (simp add: claimable_def matches_def t1_def sameParams_def)
  ultimately have "find (\<lambda>(tid, t'). claimable (tk_TaskID t) (tk_Tool t) (tk_Params t) t')
      (AList.update k t1 (am_tickets m)) \<noteq> None"
    by (auto simp: find_None_iff)
  then show ?thesis
    by (auto simp: d ClaimFor_def persistLocked_def fsjson_Write_def Let_def split: prod.splits)
qed

section \<open>A concrete run\<close>

definition ap_demo_ticket :: Ticket where
  "ap_demo_ticket = \<lparr>tk_ID = [], tk_TaskID = ''t'', tk_Target = ''prod'', tk_Tool = ''push'', tk_Params = VNil,
     tk_Evidence = [], tk_Why = [], tk_Rollback = [], tk_CreatedAt = 0, tk_Deadline = 0,
     tk_State = StatePending, tk_DecidedBy = [], tk_DecidedAt = 0, tk_Consumed = False, tk_EditedBy = [],
     tk_EditedAt = None, tk_CreatedBy = [], tk_CreatedByKeyFp = []\<rparr>"

definition ap_demo1 :: Manager where
  "ap_demo1 = snd (ap_Create 10 (Some ''a'') WOk ap_demo_ticket (ap_boot True True))"

definition ap_demo2 :: Manager where
  "ap_demo2 = snd (ap_Decide 20 21 WOk ''a'' True ''ann'' ap_demo1)"

definition ap_demo3 :: Manager where
  "ap_demo3 = snd (ClaimFor WOk ''t'' ''push'' VNil ap_demo2)"

lemma ap_demo_claims:
  "fst (ClaimFor WOk ''t'' ''push'' VNil ap_demo2) = Some ''a''"
  "fst (ClaimFor WOk ''t'' ''push'' VNil ap_demo3) = None"
  by code_simp+

lemma ap_demo_run2: "ev_run ap_step (ap_boot True True) [AOther, ADecide ''a'' True ''ann'' 20] ap_demo2"
proof -
  have "ap_step (ap_boot True True) AOther ap_demo1"
    unfolding ap_demo1_def by (rule ap_create) (simp add: ap_boot_simps)
  then have "ev_run ap_step (ap_boot True True) [AOther] ap_demo1" by (rule ev_run_one)
  then have "ev_run ap_step (ap_boot True True) ([AOther] @ [ADecide ''a'' True ''ann'' 20]) ap_demo2"
    by (rule ev_run_snoc) (simp add: ap_demo2_def ap_decide)
  then show ?thesis by simp
qed

lemma ap_demo_claim_step: "ap_step ap_demo2 (AClaim ''t'' ''push'' VNil (Some ''a'')) ap_demo3"
  unfolding ap_demo3_def ap_demo_claims(1) [symmetric] by (rule ap_claim)

lemma ap_demo_run:
  "ev_run ap_step (ap_boot True True) [AOther, ADecide ''a'' True ''ann'' 20,
     AClaim ''t'' ''push'' VNil (Some ''a''), AClaim ''t'' ''push'' VNil None]
     (snd (ClaimFor WOk ''t'' ''push'' VNil ap_demo3))"
proof -
  from ev_run_snoc [where step = ap_step, OF ap_demo_run2 ap_demo_claim_step]
  have r: "ev_run ap_step (ap_boot True True) [AOther, ADecide ''a'' True ''ann'' 20,
      AClaim ''t'' ''push'' VNil (Some ''a'')] ap_demo3" by simp
  have "ap_step ap_demo3 (AClaim ''t'' ''push'' VNil None) (snd (ClaimFor WOk ''t'' ''push'' VNil ap_demo3))"
    unfolding ap_demo_claims(2) [symmetric] by (rule ap_claim)
  from ev_run_snoc [where step = ap_step, OF r this] show ?thesis by simp
qed

theorem approval_one_shot_witness:
  "distinct (results ap_claimed [AOther, ADecide ''a'' True ''ann'' 20,
     AClaim ''t'' ''push'' VNil (Some ''a''), AClaim ''t'' ''push'' VNil None])"
  by (rule approval_one_shot [OF ap_demo_run])

theorem approval_claim_decided_witness:
  "\<exists>t now. map_of (am_tickets ap_demo2) ''a'' = Some t \<and> tk_TaskID t = ''t'' \<and> tk_Tool t = ''push'' \<and>
    sameParams (tk_Params t) VNil \<and>
    ADecide ''a'' True (tk_DecidedBy t) now \<in> set [AOther, ADecide ''a'' True ''ann'' 20] \<and> now \<le> tk_Deadline t"
  by (rule approval_claim_decided [OF ap_demo_run2, of WOk _ _ _ _ ap_demo3])
    (simp add: prod_eq_iff ap_demo_claims ap_demo3_def)

definition ap_demo_approved :: Ticket where
  "ap_demo_approved = ap_demo_ticket\<lparr>tk_ID := ''a'', tk_CreatedAt := 10,
     tk_Deadline := 300000000010, tk_State := StateApproved, tk_DecidedBy := ''ann'', tk_DecidedAt := 21\<rparr>"

lemma ap_demo2_ticket: "map_of (am_tickets ap_demo2) ''a'' = Some ap_demo_approved"
  by code_simp

lemma ap_demo2_ok: "ap_ok ap_demo2"
  using ev_run_invariant [OF ap_demo_run2, of ap_ok] ap_boot_ok ap_step_ok by blast

theorem approval_decision_final_witness:
  "\<exists>c. map_of (am_tickets ap_demo3) ''a'' = Some (ap_demo_approved\<lparr>tk_Consumed := c\<rparr>)"
proof -
  from ev_run_one [where step = ap_step, OF ap_demo_claim_step]
  have "\<exists>c. (tk_Consumed ap_demo_approved \<longrightarrow> c) \<and>
      map_of (am_tickets ap_demo3) ''a'' = Some (ap_demo_approved\<lparr>tk_Consumed := c\<rparr>)"
    by (rule approval_decision_final [OF _ ap_demo2_ok _ ap_demo2_ticket])
      (simp_all add: ap_demo_approved_def)
  then show ?thesis by blast
qed

lemma ap_demo1_facts:
  "am_persist ap_demo1"
  "map_of (am_tickets ap_demo1) ''a'' = Some (ap_demo_ticket\<lparr>tk_ID := ''a'', tk_CreatedAt := 10,
     tk_Deadline := 300000000010\<rparr>)"
  by code_simp+

lemma ap_demo1_ok: "ap_ok ap_demo1"
proof -
  have "ap_step (ap_boot True True) AOther ap_demo1"
    unfolding ap_demo1_def by (rule ap_create) (simp add: ap_boot_simps)
  then show ?thesis using ap_step_ok ap_boot_ok by blast
qed

theorem approval_failed_decide_effective_witness:
  "fst (ap_Decide 20 21 WFail ''a'' True ''ann'' ap_demo1) = Some ErrPersist \<and>
   fst (ClaimFor WOk ''t'' ''push'' VNil (snd (ap_Decide 20 21 WFail ''a'' True ''ann'' ap_demo1))) \<noteq> None"
  using approval_failed_decide_effective [OF ap_demo1_ok ap_demo1_facts, of 20 21 "''ann''"]
  by (simp add: ap_demo_ticket_def)

end
