(* ===== verification/Policy.thy ===== *)
theory Policy
  imports Approval
begin

text \<open>
  The tool gateway, \<^verbatim>\<open>internal/policy/gateway.go\<close>, and the executors of
  \<^verbatim>\<open>executor.go\<close>. A call of \<open>Execute\<close> returns the response, the error, what it did in order
  (audit records, the approval callback, the run of the executor) and the approval manager after
  it. The approval hook is the one that \<^verbatim>\<open>internal/api/exec_runtime.go\<close> installs: a claim on
  the manager for the task. The host-side executor is an argument.
\<close>

section \<open>Rules\<close>

type_synonym Action = string

record ToolRequest =
  tq_Name :: string
  tq_Args :: gval
  tq_Effect :: string

text \<open>\<open>tp_Result = VNil\<close> is the nil map.\<close>

record ToolResponse =
  tp_OK :: bool
  tp_Summary :: string
  tp_Result :: gval
  tp_Reason :: string

record Rule =
  rl_Name :: string
  rl_Action :: Action
  rl_Effect :: string
  rl_Reason :: string

record Gateway =
  gw_rules :: "Rule list"
  gw_ledger :: bool

definition NewGateway :: "Rule list \<Rightarrow> bool \<Rightarrow> Gateway" where
  "NewGateway rules ledger =
     (let hasCatchAll = list_ex (\<lambda>r. rl_Name r = ''*'') rules
      in \<lparr>gw_rules = (if hasCatchAll then rules
            else rules @ [\<lparr>rl_Name = ''*'', rl_Action = ''deny'', rl_Effect = [], rl_Reason = ''no matching allow rule''\<rparr>]),
          gw_ledger = ledger\<rparr>)"

text \<open>Raw rules are (name, action, effect, reason).\<close>

definition CompileRules :: "(string \<times> string \<times> string \<times> string) list \<Rightarrow> Rule list" where
  "CompileRules raw = map (\<lambda>(name, action, effect, reason).
     \<lparr>rl_Name = name, rl_Action = (if ToLower action = [] then ''deny'' else ToLower action),
      rl_Effect = effect, rl_Reason = reason\<rparr>) raw"

fun decide_loop :: "Rule list \<Rightarrow> ToolRequest \<Rightarrow> Action \<times> Rule" where
  "decide_loop [] req = (''deny'', \<lparr>rl_Name = ''*'', rl_Action = ''deny'', rl_Effect = [], rl_Reason = []\<rparr>)"
| "decide_loop (r # rs) req =
     (if rl_Name r = tq_Name req \<or> rl_Name r = ''*''
      then if rl_Effect r \<noteq> [] \<and> rl_Effect r \<noteq> tq_Effect req then decide_loop rs req
           else (rl_Action r, r)
      else decide_loop rs req)"

definition Decide :: "Gateway \<Rightarrow> ToolRequest \<Rightarrow> Action \<times> Rule" where
  "Decide g req = decide_loop (gw_rules g) req"

section \<open>Execution\<close>

datatype perr = ErrDenied | ErrApprovalRequired | ErrExecutor string

datatype geffect = GAudit lrecord | GApproved string | GExec ToolRequest

text \<open>
  The runtime hooks: the executor, the task of the approval hook, and whether an approval callback
  is installed.
\<close>

record Hooks =
  hk_executor :: "(ToolRequest \<Rightarrow> string + ToolResponse) option"
  hk_approvalCheck :: "string option"
  hk_onApproved :: bool

definition SetRuntimeOnce :: "Hooks \<Rightarrow> Hooks \<Rightarrow> Hooks" where
  "SetRuntimeOnce new h =
     \<lparr>hk_executor = (if hk_executor h = None then hk_executor new else hk_executor h),
      hk_approvalCheck = (if hk_approvalCheck h = None then hk_approvalCheck new else hk_approvalCheck h),
      hk_onApproved = (hk_onApproved h \<or> hk_onApproved new)\<rparr>"

definition sanitize :: "ToolResponse \<Rightarrow> ToolResponse" where
  "sanitize r =
     (let r1 = r\<lparr>tp_Summary := RedactSecrets (tp_Summary r), tp_Reason := RedactSecrets (tp_Reason r)\<rparr>
      in if tp_Result r1 = VNil then r1 else r1\<lparr>tp_Result := ScrubValue (tp_Result r1)\<rparr>)"

definition gw_audit :: "Gateway \<Rightarrow> ToolRequest \<Rightarrow> string \<Rightarrow> string \<Rightarrow> geffect list" where
  "gw_audit g req dec reason =
     (if \<not> gw_ledger g then []
      else [GAudit (audit_rec ''execution'' ''agent'' (''tool:'' @ tq_Name req) (ScrubValue (tq_Args req))
              dec (RedactSecrets reason))])"

definition response :: "bool \<Rightarrow> string \<Rightarrow> string \<Rightarrow> ToolResponse" where
  "response ok summary reason = \<lparr>tp_OK = ok, tp_Summary = summary, tp_Result = VNil, tp_Reason = reason\<rparr>"

definition Execute ::
  "wres \<Rightarrow> Gateway \<Rightarrow> Hooks \<Rightarrow> ToolRequest \<Rightarrow> Manager \<Rightarrow>
     ToolResponse \<times> perr option \<times> geffect list \<times> Manager" where
  "Execute w g h req m =
     (let (act, rule) = Decide g req;
          simulated = tq_Name req @ '': simulated (no executor)''
      in
      if act = ''deny''
      then (response False [] (''denied: '' @ rl_Reason rule), Some ErrDenied,
            gw_audit g req ''deny'' (''denied by rule: '' @ rl_Reason rule), m)
      else if act = ''approve''
      then let (claim, m1) = (case hk_approvalCheck h of
                 None \<Rightarrow> (None, m) | Some task \<Rightarrow> ClaimFor w task (tq_Name req) (tq_Args req) m)
           in case claim of
             Some tid \<Rightarrow>
               let pre = (if hk_onApproved h then [GApproved tid] else []) @
                         gw_audit g req ''allow'' (''unlocked by approved ticket '' @ tid)
               in (case hk_executor h of
                     None \<Rightarrow> (response True (simulated @ '', unlocked by ticket '' @ tid) [], None, pre, m1)
                   | Some ex \<Rightarrow>
                       (case ex req of
                          Inl e \<Rightarrow> (response False [] [], Some (ErrExecutor e), pre @ [GExec req] @
                                   gw_audit g req ''deny'' (''executor error (approved): '' @ e), m1)
                        | Inr resp \<Rightarrow> (sanitize resp, None, pre @ [GExec req], m1)))
           | None \<Rightarrow>
               (response False [] ''approval required'', Some ErrApprovalRequired,
                gw_audit g req ''approve'' (''approval required: '' @ rl_Reason rule), m1)
      else if act = ''allow'' \<or> act = ''constrain''
      then (case hk_executor h of
              None \<Rightarrow> (response True simulated [], None, gw_audit g req act (''dry-run '' @ act), m)
            | Some ex \<Rightarrow>
                (case ex req of
                   Inl e \<Rightarrow> (response False [] [], Some (ErrExecutor e),
                     [GExec req] @ gw_audit g req ''deny'' (''executor error: '' @ e), m)
                 | Inr resp \<Rightarrow> (sanitize resp, None,
                     [GExec req] @ gw_audit g req act (''executed '' @ act), m)))
      else (response False [] [], Some ErrDenied, [], m))"

text \<open>The executor that touches no guest.\<close>

definition SimExecutor :: "ToolRequest \<Rightarrow> string + ToolResponse" where
  "SimExecutor req = Inr \<lparr>tp_OK = True,
     tp_Summary = tq_Name req @ '': simulated execution (PVM_EXEC_SIM)'',
     tp_Result = VObj [(''exit_code'', VInt 0), (''simulated'', VBool True)], tp_Reason = []\<rparr>"

section \<open>Decisions\<close>

definition applies :: "ToolRequest \<Rightarrow> Rule \<Rightarrow> bool" where
  "applies req r \<longleftrightarrow> (rl_Name r = tq_Name req \<or> rl_Name r = ''*'') \<and>
     (rl_Effect r = [] \<or> rl_Effect r = tq_Effect req)"

lemma decide_loop_find:
  "decide_loop rs req = (case find (applies req) rs of
     None \<Rightarrow> (''deny'', \<lparr>rl_Name = ''*'', rl_Action = ''deny'', rl_Effect = [], rl_Reason = []\<rparr>)
   | Some r \<Rightarrow> (rl_Action r, r))"
  by (induction rs) (auto simp: applies_def)

text \<open>
  C30: First match wins and everything else is denied. A gateway built from any rule list decides
  other than deny only by a configured rule that names the tool (or every tool), whose effect, if
  it has one, is the request's, and that no earlier applicable rule precedes; when no configured
  rule applies, the decision is deny.
\<close>

theorem Decide_first_match:
  "case find (applies req) rules of
     Some r \<Rightarrow> Decide (NewGateway rules ledger) req = (rl_Action r, r)
   | None \<Rightarrow> fst (Decide (NewGateway rules ledger) req) = ''deny''"
proof -
  have app: "find P (xs @ [y]) = (case find P xs of None \<Rightarrow> if P y then Some y else None | Some x \<Rightarrow> Some x)"
    for P and xs :: "Rule list" and y by (induction xs) auto
  show ?thesis
    by (auto simp: Decide_def NewGateway_def decide_loop_find Let_def app split: option.splits)
qed

section \<open>Execution behind approval\<close>

lemma sanitize_clean: "clean_text (tp_Summary (sanitize r)) \<and> clean_text (tp_Reason (sanitize r)) \<and>
  clean_value (tp_Result (sanitize r))"
  using ScrubValue_is_clean by (auto simp: sanitize_def Let_def)


lemma Execute_approve:
  assumes "Execute w g h req m = (resp, err, effs, m')" "fst (Decide g req) = ''approve''"
    and "GExec req' \<in> set effs" and "hk_approvalCheck h = Some task"
  shows "req' = req \<and> (\<exists>k. ClaimFor w task (tq_Name req) (tq_Args req) m = (Some k, m'))"
  using assms
  by (auto simp: Execute_def gw_audit_def Let_def split: prod.splits option.splits sum.splits if_splits)

text \<open>
  C15: Side effects wait for a human, once. After any run of the approval manager, when \<open>Execute\<close>
  runs the executor for a request that the rules send to approval, then it runs this request, and
  it has claimed a ticket that no earlier claim returned; the ticket binds the gateway's task, the
  tool and the arguments, was approved by a decision made before its deadline, and the manager
  afterwards is the one of the run extended by this claim, so no later execution can use it.
\<close>

theorem Execute_approved_once:
  assumes "ev_run ap_step (ap_boot ledger persist) evs m"
    and "Execute w g h req m = (resp, err, effs, m')"
    and "fst (Decide g req) = ''approve''" "GExec req' \<in> set effs" "hk_approvalCheck h = Some task"
  shows "req' = req \<and> (\<exists>k t now. k \<notin> set (results ap_claimed evs) \<and>
    map_of (am_tickets m) k = Some t \<and> tk_TaskID t = task \<and> tk_Tool t = tq_Name req \<and>
    sameParams (tk_Params t) (tq_Args req) \<and> ADecide k True (tk_DecidedBy t) now \<in> set evs \<and>
    now \<le> tk_Deadline t \<and>
    ev_run ap_step (ap_boot ledger persist) (evs @ [AClaim task (tq_Name req) (tq_Args req) (Some k)]) m')"
proof -
  obtain k where k: "ClaimFor w task (tq_Name req) (tq_Args req) m = (Some k, m')" and "req' = req"
    using Execute_approve [OF assms(2-5)] by blast
  have "ap_step m (AClaim task (tq_Name req) (tq_Args req) (Some k)) m'"
    using ap_claim [of m task "tq_Name req" "tq_Args req" w] by (simp add: k)
  from ev_run_snoc [where step = ap_step, OF assms(1) this] have run: "ev_run ap_step (ap_boot ledger persist)
      (evs @ [AClaim task (tq_Name req) (tq_Args req) (Some k)]) m'" .
  then have "k \<notin> set (results ap_claimed evs)"
    using apc.run_claims [OF run ap_boot_ok] by simp
  then show ?thesis using claim_backed [OF assms(1) k] run \<open>req' = req\<close> by blast
qed

section \<open>Concrete calls\<close>

definition gw_demo :: Gateway where
  "gw_demo = NewGateway (CompileRules [(''push'', ''Approve'', [], ''prod''), (''ls'', ''allow'', ''read'', [])]) True"

definition gw_demo_hooks :: Hooks where
  "gw_demo_hooks = \<lparr>hk_executor = Some SimExecutor, hk_approvalCheck = Some ''t'', hk_onApproved = True\<rparr>"

definition gw_push :: ToolRequest where
  "gw_push = \<lparr>tq_Name = ''push'', tq_Args = VNil, tq_Effect = ''send''\<rparr>"

definition gw_demo_call :: "ToolResponse \<times> perr option \<times> geffect list \<times> Manager" where
  "gw_demo_call = Execute WOk gw_demo gw_demo_hooks gw_push ap_demo2"

lemma gw_demo_hooks_simps [simp]:
  "hk_executor gw_demo_hooks = Some SimExecutor" "hk_approvalCheck gw_demo_hooks = Some ''t''"
  "hk_onApproved gw_demo_hooks"
  by (simp_all add: gw_demo_hooks_def)

lemma gw_demo_decide: "fst (Decide gw_demo gw_push) = ''approve''"
  by code_simp

lemma gw_demo_call_val:
  "gw_demo_call = (sanitize (projr (SimExecutor gw_push)), None,
     [GApproved ''a''] @ gw_audit gw_demo gw_push ''allow'' (''unlocked by approved ticket '' @ ''a'') @ [GExec gw_push],
     ap_demo3)"
proof -
  obtain r where d: "Decide gw_demo gw_push = (''approve'', r)"
    using gw_demo_decide by (cases "Decide gw_demo gw_push") simp
  have c: "ClaimFor WOk ''t'' ''push'' VNil ap_demo2 = (Some ''a'', ap_demo3)"
    by (simp add: prod_eq_iff ap_demo_claims ap_demo3_def)
  show ?thesis
    unfolding gw_demo_call_def Execute_def d
    by (simp add: c gw_push_def SimExecutor_def)
qed


theorem Execute_approved_once_witness:
  "gw_push = gw_push \<and> (\<exists>k t now. k \<notin> set (results ap_claimed [AOther, ADecide ''a'' True ''ann'' 20]) \<and>
    map_of (am_tickets ap_demo2) k = Some t \<and> tk_TaskID t = ''t'' \<and> tk_Tool t = tq_Name gw_push \<and>
    sameParams (tk_Params t) (tq_Args gw_push) \<and>
    ADecide k True (tk_DecidedBy t) now \<in> set [AOther, ADecide ''a'' True ''ann'' 20] \<and> now \<le> tk_Deadline t \<and>
    ev_run ap_step (ap_boot True True)
      ([AOther, ADecide ''a'' True ''ann'' 20] @ [AClaim ''t'' (tq_Name gw_push) (tq_Args gw_push) (Some k)]) ap_demo3)"
  by (rule Execute_approved_once [OF ap_demo_run2, of WOk gw_demo gw_demo_hooks gw_push
        "fst gw_demo_call" "fst (snd gw_demo_call)" "fst (snd (snd gw_demo_call))" ap_demo3])
    (simp_all add: gw_demo_call_def [symmetric] gw_demo_call_val gw_demo_decide)

end
