(* ===== verification/Qcow2Layout.thy ===== *)
theory Qcow2Layout
  imports Bytes
begin

text \<open>
  Metadata sizing of a new qcow2 image, \<^verbatim>\<open>internal/cow/qcow2.go\<close>: the ceiling division
  and the fixed point that sizes refcount table and refcount blocks for the worst case. The
  \<^verbatim>\<open>uint64\<close> values stay below \<open>2 ^ 64\<close> because the virtual size is capped at 16 TiB,
  so they are natural numbers here; only \<open>divCeil\<close> is called with unchecked sizes and keeps its
  overflow branch.
\<close>

text \<open>An error is named by the check that reports it.\<close>

type_synonym qerr = string

definition maxVirtualSize :: nat where
  "maxVirtualSize = 16 * 2 ^ 40"

definition clusterBits :: nat where
  "clusterBits = 12"

definition divCeil :: "nat \<Rightarrow> nat \<Rightarrow> (qerr, nat) go" where
  "divCeil a b =
     (if b = 0 then Err ''division by zero''
      else let q = a div b; r = a mod b
           in if r > 0 then if q = 2 ^ 64 - 1 then Err ''ceiling division overflow'' else Ok (q + 1) else Ok q)"

record qcow2Layout =
  ly_clusterBits :: nat
  ly_clusterSize :: nat
  ly_l1Size :: nat
  ly_l1Clusters :: nat
  ly_l2Count :: nat
  ly_reftableCls :: nat
  ly_refblockCnt :: nat
  ly_refUsedCls :: nat
  ly_physMeta :: nat
  ly_reftableOff :: nat
  ly_refblockOff :: nat
  ly_l1Off :: nat
  ly_l2Off :: nat

text \<open>
  One round of the sizing loop: metadata clusters, refcount blocks and refcount table clusters that
  cover the worst case. Its arguments are the metadata clusters other than the refcount ones
  (header, L1 and preallocated L2 tables), the data clusters, and the two loop variables.
\<close>

definition ceil_div :: "nat \<Rightarrow> nat \<Rightarrow> nat" where
  "ceil_div a b = (a + b - 1) div b"

definition layout_round :: "nat \<Rightarrow> nat \<Rightarrow> nat \<Rightarrow> nat \<Rightarrow> nat \<Rightarrow> nat \<times> nat \<times> nat" where
  "layout_round cs base dataClusters refblockCnt reftableCls =
     (let physMeta = base + reftableCls + refblockCnt;
          worst = physMeta + dataClusters;
          nbW = ceil_div worst (cs div 2);
          nt = ceil_div nbW (cs div 8)
      in (physMeta, nbW, nt))"

text \<open>The loop, with the rounds that are left.\<close>

primrec layout_loop :: "nat \<Rightarrow> nat \<Rightarrow> nat \<Rightarrow> nat \<Rightarrow> nat \<Rightarrow> nat \<Rightarrow> (nat \<times> nat \<times> nat) option" where
  "layout_loop 0 cs base dataClusters refblockCnt reftableCls = None"
| "layout_loop (Suc i) cs base dataClusters refblockCnt reftableCls =
     (case layout_round cs base dataClusters refblockCnt reftableCls of
        (physMeta, nbW, nt) \<Rightarrow>
          if nbW = refblockCnt \<and> nt = reftableCls then Some (physMeta, refblockCnt, reftableCls)
          else layout_loop i cs base dataClusters nbW nt)"

definition computeQcow2Layout :: "nat \<Rightarrow> nat \<Rightarrow> bool \<Rightarrow> (qerr, qcow2Layout) go" where
  "computeQcow2Layout virtualSize bits0 prealloc =
     (let bits = (if bits0 = 0 then clusterBits else bits0) in
      if bits < 9 \<or> 21 < bits then Err ''cluster_bits''
      else if virtualSize > maxVirtualSize then Err ''virtual size cap''
      else let cs = 2 ^ bits; l2Entries = cs div 8 in
        go_bind (divCeil virtualSize (l2Entries * cs)) (\<lambda>l1Size.
        if l1Size > 0xFFFFFFFF then Err ''L1 too large''
        else go_bind (divCeil (l1Size * 8) cs) (\<lambda>l1Clusters.
        let l2Count = (if prealloc then l1Size else 0) in
        go_bind (divCeil virtualSize cs) (\<lambda>dataClusters.
        case layout_loop 32 cs (1 + l1Clusters + l2Count) dataClusters 1 1 of
          None \<Rightarrow> Err ''no convergence''
        | Some (physMeta, refblockCnt, reftableCls) \<Rightarrow>
            go_bind (divCeil (2 * physMeta) cs) (\<lambda>refUsedCls.
            let refblockOff = (1 + reftableCls) * cs;
                l1Off = refblockOff + refblockCnt * cs
            in Ok \<lparr>ly_clusterBits = bits, ly_clusterSize = cs, ly_l1Size = l1Size,
                   ly_l1Clusters = l1Clusters, ly_l2Count = l2Count, ly_reftableCls = reftableCls,
                   ly_refblockCnt = refblockCnt, ly_refUsedCls = refUsedCls, ly_physMeta = physMeta,
                   ly_reftableOff = cs, ly_refblockOff = refblockOff, ly_l1Off = l1Off,
                   ly_l2Off = l1Off + l1Clusters * cs\<rparr>)))))"

section \<open>Ceiling division\<close>

lemma ceil_div_bounds:
  assumes "0 < b"
  shows "a \<le> ceil_div a b * b" "ceil_div a b * b < a + b"
proof -
  let ?q = "ceil_div a b"
  have e: "?q * b + (a + b - 1) mod b = a + b - 1" unfolding ceil_div_def by simp
  have "(a + b - 1) mod b < b" using assms by simp
  with e assms show "a \<le> ?q * b" "?q * b < a + b" by linarith+
qed

lemma ceil_div_unique:
  assumes "0 < b" "a \<le> q * b" "q * b < a + b"
  shows "ceil_div a b = q"
proof -
  note c = ceil_div_bounds [OF assms(1), of a]
  have "ceil_div a b * b < (q + 1) * b" using c(2) assms(2) by simp
  moreover have "q * b < (ceil_div a b + 1) * b" using c(1) assms(3) by simp
  ultimately show ?thesis using assms(1) by (metis Suc_eq_plus1 less_antisym mult_less_cancel2 not_less_eq)
qed

lemma ceil_div_mono: "a \<le> a' \<Longrightarrow> ceil_div a b \<le> ceil_div a' b"
  unfolding ceil_div_def by (rule div_le_mono) simp

lemma ceil_div_add:
  assumes "0 < b"
  shows "ceil_div (a + d) b \<le> ceil_div a b + ceil_div d b"
proof -
  have "a + d \<le> (ceil_div a b + ceil_div d b) * b"
    using ceil_div_bounds(1) [OF assms, of a] ceil_div_bounds(1) [OF assms, of d]
    by (simp add: add_mult_distrib)
  moreover have "ceil_div (a + d) b * b < a + d + b" by (rule ceil_div_bounds(2) [OF assms])
  ultimately have "ceil_div (a + d) b * b < (ceil_div a b + ceil_div d b + 1) * b" by simp
  then show ?thesis using assms by (metis less_Suc_eq_le mult_less_cancel2 Suc_eq_plus1)
qed

text \<open>On 64-bit arguments the overflow branch of \<open>divCeil\<close> is never taken.\<close>

lemma divCeil_eq:
  assumes "a < 2 ^ 64" "0 < b"
  shows "divCeil a b = Ok (ceil_div a b)"
proof -
  have q: "a mod b > 0 \<Longrightarrow> a div b \<noteq> 2 ^ 64 - 1"
  proof
    assume m: "a mod b > 0" and d: "a div b = 2 ^ 64 - 1"
    have "(2 ^ 64 - 1) * b + a mod b = a" using div_mult_mod_eq [of a b] d by simp
    then have "(2 ^ 64 - 1) * b < 2 ^ 64" using assms by linarith
    then have "b \<le> 1" by (rule_tac ccontr) (simp add: not_le)
    then have "b = 1" using assms(2) by simp
    then show False using m by simp
  qed
  define k r where "k = a div b" and "r = a mod b"
  have e: "a = k * b + r" "r < b" using assms(2) by (simp_all add: k_def r_def)
  have "ceil_div a b = (if r > 0 then k + 1 else k)"
    by (rule ceil_div_unique [OF assms(2)]) (use e in \<open>auto simp: add_mult_distrib\<close>)
  then have "ceil_div a b = (if a mod b > 0 then a div b + 1 else a div b)" by (simp add: k_def r_def)
  then show ?thesis using q assms(2) by (simp add: divCeil_def Let_def)
qed

section \<open>Convergence\<close>

text \<open>
  The loop only depends on the number of refcount blocks after its first round. A round is
  monotone and shrinks the distance to a fixed point: the distance after a round is at most
  a 256th of the distance before, plus two.
\<close>

definition nb_step :: "nat \<Rightarrow> nat \<Rightarrow> nat \<Rightarrow> nat" where
  "nb_step cs c nb = ceil_div (c + nb + ceil_div nb (cs div 8)) (cs div 2)"

lemma layout_round_nb:
  "layout_round cs base d nb (ceil_div nb (cs div 8)) =
     (base + ceil_div nb (cs div 8) + nb, nb_step cs (base + d) nb, ceil_div (nb_step cs (base + d) nb) (cs div 8))"
  by (simp add: layout_round_def nb_step_def Let_def ac_simps)

lemma nb_step_mono: "nb \<le> nb' \<Longrightarrow> nb_step cs c nb \<le> nb_step cs c nb'"
  unfolding nb_step_def by (intro ceil_div_mono add_mono) simp_all

lemma nb_step_gap:
  assumes "512 \<le> cs" "nb \<le> s" "nb_step cs c s = s"
  shows "256 * (s - nb_step cs c nb) \<le> 2 * (s - nb) + 512"
proof -
  define e h g where "e = cs div 8" and "h = cs div 2" and "g = s - nb"
  have h: "256 \<le> h" "64 \<le> e" using assms(1) by (simp_all add: h_def e_def)
  have s: "s = nb + g" using assms(2) by (simp add: g_def)
  have e1: "ceil_div g e \<le> g"
  proof (cases "g = 0")
    case True
    then show ?thesis using h(2) by (simp add: ceil_div_def)
  next
    case False
    have "ceil_div g e \<le> ceil_div (g * e) e" using h(2) by (intro ceil_div_mono) simp
    also have "ceil_div (g * e) e = g" using h(2) by (intro ceil_div_unique) simp_all
    finally show ?thesis .
  qed
  have "c + s + ceil_div s e \<le> (c + nb + ceil_div nb e) + (g + ceil_div g e)"
    using ceil_div_add [of e nb g] h(2) s by simp
  also have "\<dots> \<le> (c + nb + ceil_div nb e) + 2 * g" using e1 by simp
  finally have "nb_step cs c s \<le> ceil_div ((c + nb + ceil_div nb e) + 2 * g) h"
    unfolding nb_step_def e_def [symmetric] h_def [symmetric] by (rule ceil_div_mono)
  also have "\<dots> \<le> nb_step cs c nb + ceil_div (2 * g) h"
    unfolding nb_step_def e_def [symmetric] h_def [symmetric] using h(1) by (intro ceil_div_add) simp
  finally have gap: "s - nb_step cs c nb \<le> ceil_div (2 * g) h" using assms(3) by simp
  have "256 * ceil_div (2 * g) h \<le> 2 * g + 512"
  proof -
    have "ceil_div (2 * g) h \<le> ceil_div (2 * g) 256"
    proof -
      have "ceil_div (2 * g) h * h < 2 * g + h" using ceil_div_bounds(2) [of h "2 * g"] h(1) by simp
      moreover have "2 * g \<le> ceil_div (2 * g) 256 * 256" by (rule ceil_div_bounds(1)) simp
      moreover have "ceil_div (2 * g) 256 * 256 \<le> ceil_div (2 * g) 256 * h" using h(1) by simp
      moreover have "(ceil_div (2 * g) 256 + 1) * h = ceil_div (2 * g) 256 * h + h" by simp
      ultimately have "ceil_div (2 * g) h * h < (ceil_div (2 * g) 256 + 1) * h" by linarith
      then show ?thesis by (metis less_Suc_eq_le mult_less_cancel2 Suc_eq_plus1)
    qed
    moreover have "ceil_div (2 * g) 256 * 256 < 2 * g + 256" by (rule ceil_div_bounds(2)) simp
    ultimately show ?thesis by simp
  qed
  then show ?thesis using gap g_def by simp
qed

text \<open>A fixed point above every starting value that is small enough.\<close>

lemma nb_step_le:
  assumes "512 \<le> cs" "nb \<le> c + 4"
  shows "nb_step cs c nb \<le> c + 4"
proof -
  define h where "h = cs div 2"
  have h: "256 \<le> h" using assms(1) by (simp add: h_def)
  have "ceil_div nb (cs div 8) \<le> nb"
  proof (cases "nb = 0")
    case True
    then show ?thesis using assms(1) by (simp add: ceil_div_def)
  next
    case False
    have e: "0 < cs div 8" using assms(1) by simp
    have "ceil_div nb (cs div 8) \<le> ceil_div (nb * (cs div 8)) (cs div 8)"
      using e by (intro ceil_div_mono) (simp add: False)
    also have "\<dots> = nb" using e by (intro ceil_div_unique) simp_all
    finally show ?thesis .
  qed
  then have le: "nb_step cs c nb \<le> ceil_div (3 * c + 8) h"
    unfolding nb_step_def h_def [symmetric] using assms(2) by (intro ceil_div_mono) simp
  have "ceil_div (3 * c + 8) h * h < 3 * c + 8 + h" using h by (intro ceil_div_bounds) simp
  moreover have "3 * c + 8 + h \<le> (c + 5) * h"
  proof -
    have "c * 3 \<le> c * h" using h by (intro mult_le_mono) simp_all
    moreover have "(c + 5) * h = c * h + 5 * h" by (simp add: add_mult_distrib)
    ultimately show ?thesis using h by linarith
  qed
  ultimately have "ceil_div (3 * c + 8) h * h < (c + 5) * h" by linarith
  then have "ceil_div (3 * c + 8) h < c + 5" by (simp only: mult_less_cancel2)
  then show ?thesis using le by simp
qed

lemma nb_fixed_point:
  assumes "512 \<le> cs" "0 < c"
  obtains s where "nb_step cs c s = s" "1 \<le> s" "s \<le> c + 4"
proof -
  define s where "s = (LEAST s. nb_step cs c s \<le> s)"
  have top: "nb_step cs c (c + 4) \<le> c + 4" using nb_step_le [OF assms(1)] by simp
  then have pre: "nb_step cs c s \<le> s" unfolding s_def by (rule LeastI)
  have least: "s \<le> t" if "nb_step cs c t \<le> t" for t unfolding s_def using that by (rule Least_le)
  have "nb_step cs c (nb_step cs c s) \<le> nb_step cs c s" using pre by (rule nb_step_mono)
  then have "nb_step cs c s = s" using least pre by (simp add: le_antisym)
  moreover have "s \<noteq> 0"
  proof
    assume "s = 0"
    then have "ceil_div c (cs div 2) = 0"
      using pre assms(1) by (simp add: nb_step_def ceil_div_def)
    then show False using ceil_div_bounds(1) [of "cs div 2" c] assms by simp
  qed
  ultimately show ?thesis using that least [OF top] by simp
qed

text \<open>The loop returns within \<open>i\<close> rounds from every point at distance at most \<open>g\<close>.\<close>

definition converges :: "nat \<Rightarrow> nat \<Rightarrow> nat \<Rightarrow> nat \<Rightarrow> nat \<Rightarrow> nat \<Rightarrow> bool" where
  "converges cs base d s i g \<longleftrightarrow> (\<forall>nb. nb \<le> s \<longrightarrow> nb \<le> nb_step cs (base + d) nb \<longrightarrow> s - nb \<le> g \<longrightarrow>
     layout_loop i cs base d nb (ceil_div nb (cs div 8)) \<noteq> None)"

lemma converges_round:
  assumes "nb_step cs (base + d) s = s"
    and "\<And>nb. \<lbrakk>nb \<le> s; nb \<le> nb_step cs (base + d) nb; nb \<noteq> nb_step cs (base + d) nb; s - nb \<le> g'\<rbrakk> \<Longrightarrow>
      s - nb_step cs (base + d) nb \<le> g"
    and "converges cs base d s i g"
  shows "converges cs base d s (Suc i) g'"
  unfolding converges_def
proof (intro allI impI)
  fix nb
  assume nb: "nb \<le> s" "nb \<le> nb_step cs (base + d) nb" "s - nb \<le> g'"
  let ?n = "nb_step cs (base + d) nb"
  show "layout_loop (Suc i) cs base d nb (ceil_div nb (cs div 8)) \<noteq> None"
  proof (cases "?n = nb")
    case True
    then show ?thesis by (simp add: layout_round_nb)
  next
    case False
    have "?n \<le> s" using nb_step_mono [OF nb(1), of cs "base + d"] assms(1) by simp
    moreover have "?n \<le> nb_step cs (base + d) ?n" using nb(2) by (rule nb_step_mono)
    moreover have "s - ?n \<le> g" using assms(2) nb False by simp
    ultimately show ?thesis using assms(3) False by (simp add: layout_round_nb converges_def)
  qed
qed

lemma converges_small:
  assumes "nb_step cs (base + d) s = s"
  shows "converges cs base d s (Suc g) g"
proof (induction g)
  case 0
  have "nb_step cs (base + d) nb = nb" if "nb \<le> s" "s - nb \<le> 0" for nb using that assms by simp
  then show ?case by (simp add: converges_def layout_round_nb)
next
  case (Suc g)
  show ?case
  proof (rule converges_round [OF assms _ Suc])
    fix nb
    assume "nb \<le> s" "nb \<le> nb_step cs (base + d) nb" "nb \<noteq> nb_step cs (base + d) nb" "s - nb \<le> Suc g"
    then show "s - nb_step cs (base + d) nb \<le> g" by simp
  qed
qed

lemma converges_big:
  assumes "512 \<le> cs" "nb_step cs (base + d) s = s" "converges cs base d s i g" "2 * g' + 512 \<le> 256 * g + 255"
  shows "converges cs base d s (Suc i) g'"
proof (rule converges_round [OF assms(2) _ assms(3)])
  fix nb
  assume "nb \<le> s" "s - nb \<le> g'"
  then show "s - nb_step cs (base + d) nb \<le> g"
    using nb_step_gap [OF assms(1) _ assms(2), of nb] assms(4) by linarith
qed

lemma layout_loop_converges:
  assumes "512 \<le> cs" "0 < base" "base + d \<le> 2 ^ 37"
  shows "layout_loop 32 cs base d 1 1 \<noteq> None"
proof -
  obtain s where s: "nb_step cs (base + d) s = s" "1 \<le> s" "s \<le> base + d + 4"
    using nb_fixed_point [OF assms(1), of "base + d"] assms(2) by auto
  note big = converges_big [OF assms(1) s(1)]
  have "converges cs base d s 26 25" using converges_small [OF s(1), of 25] by simp
  then have "converges cs base d s 27 3000" using big [of 26 25 3000] by simp
  then have "converges cs base d s 28 380000" using big [of 27 3000 380000] by simp
  then have "converges cs base d s 29 48000000" using big [of 28 380000 48000000] by simp
  then have "converges cs base d s 30 6000000000" using big [of 29 48000000 6000000000] by simp
  then have "converges cs base d s 31 700000000000" using big [of 30 6000000000 700000000000] by simp
  then have "converges cs base d s 32 80000000000000"
    using big [of 31 700000000000 80000000000000] by simp
  moreover have "s - 1 \<le> 80000000000000" using s(3) assms(3) by simp
  moreover have "1 \<le> nb_step cs (base + d) 1"
  proof -
    have "0 < nb_step cs (base + d) 1"
      using ceil_div_bounds(1) [of "cs div 2" "base + d + 1 + ceil_div 1 (cs div 8)"] assms(1)
      by (cases "nb_step cs (base + d) 1") (auto simp: nb_step_def)
    then show ?thesis by simp
  qed
  moreover have "ceil_div 1 (cs div 8) = 1"
    using assms(1) by (intro ceil_div_unique) simp_all
  ultimately show ?thesis using s(2) unfolding converges_def by metis
qed

section \<open>Soundness of the layout\<close>

lemma layout_loop_result:
  "layout_loop i cs base d nb nt = Some (pm, b, t) \<Longrightarrow>
   pm = base + t + b \<and> b = ceil_div (pm + d) (cs div 2) \<and> t = ceil_div b (cs div 8)"
  by (induction i arbitrary: nb nt) (auto simp: layout_round_def Let_def split: if_splits)

text \<open>
  The regions follow each other without gap or overlap (header, refcount table, refcount blocks,
  L1 table, L2 tables); the L1 table maps the whole virtual disk and fits its clusters; the
  refcount blocks count every metadata and data cluster, and the table holds all blocks.
\<close>

definition layout_sound :: "nat \<Rightarrow> nat \<Rightarrow> bool \<Rightarrow> qcow2Layout \<Rightarrow> bool" where
  "layout_sound virtualSize bits prealloc l \<longleftrightarrow>
     (let cs = ly_clusterSize l in
      ly_clusterBits l = bits \<and> cs = 2 ^ bits \<and>
      virtualSize \<le> ly_l1Size l * (cs div 8 * cs) \<and> ly_l1Size l * 8 \<le> ly_l1Clusters l * cs \<and>
      ly_l2Count l = (if prealloc then ly_l1Size l else 0) \<and>
      ly_reftableOff l = cs \<and>
      ly_refblockOff l = ly_reftableOff l + ly_reftableCls l * cs \<and>
      ly_l1Off l = ly_refblockOff l + ly_refblockCnt l * cs \<and>
      ly_l2Off l = ly_l1Off l + ly_l1Clusters l * cs \<and>
      ly_physMeta l * cs = ly_l2Off l + ly_l2Count l * cs \<and>
      ly_physMeta l + ceil_div virtualSize cs \<le> ly_refblockCnt l * (cs div 2) \<and>
      ly_refblockCnt l \<le> ly_reftableCls l * (cs div 8) \<and>
      2 * ly_physMeta l \<le> ly_refUsedCls l * cs \<and> ly_refUsedCls l \<le> ly_refblockCnt l)"

lemma two_power_range: "(9::nat) \<le> b \<Longrightarrow> b \<le> 21 \<Longrightarrow> (512::nat) \<le> 2 ^ b \<and> (2::nat) ^ b \<le> 2097152"
proof -
  assume b: "9 \<le> b" "b \<le> 21"
  have "(2::nat) ^ 9 \<le> 2 ^ b" "(2::nat) ^ b \<le> 2 ^ 21" using b by (intro power_increasing; simp)+
  then show ?thesis by simp
qed

lemma ceil_div_le: "a \<le> m * b \<Longrightarrow> 0 < b \<Longrightarrow> ceil_div a b \<le> m"
proof -
  assume "a \<le> m * b" and b: "0 < b"
  then have "ceil_div a b \<le> ceil_div (m * b) b" by (intro ceil_div_mono)
  also have "\<dots> = m" using b by (intro ceil_div_unique) simp_all
  finally show ?thesis .
qed

text \<open>Sizes before the loop: L1 entries, L1 clusters and data clusters stay small.\<close>

lemma layout_sizes:
  assumes "virtualSize \<le> 2 ^ 44" "512 \<le> cs"
  shows "ceil_div virtualSize (cs div 8 * cs) \<le> 2 ^ 29" "ceil_div virtualSize cs \<le> 2 ^ 35"
    "ceil_div (n * 8) cs \<le> n"
proof -
  have e: "64 \<le> cs div 8" "0 < cs div 8 * cs" using assms(2) by simp_all
  have "64 * 512 \<le> cs div 8 * cs" using e assms(2) by (intro mult_le_mono) simp_all
  then have "2 ^ 29 * (64 * 512) \<le> 2 ^ 29 * (cs div 8 * cs)" by (rule mult_le_mono2)
  moreover have "(2::nat) ^ 44 = 2 ^ 29 * (64 * 512)" by simp
  ultimately show "ceil_div virtualSize (cs div 8 * cs) \<le> 2 ^ 29"
    using assms(1) e(2) by (intro ceil_div_le) (simp only:)
  have "2 ^ 35 * 512 \<le> 2 ^ 35 * cs" using assms(2) by (rule mult_le_mono2)
  moreover have "(2::nat) ^ 44 = 2 ^ 35 * 512" by simp
  ultimately show "ceil_div virtualSize cs \<le> 2 ^ 35" using assms by (intro ceil_div_le) (simp only:, simp)
  show "ceil_div (n * 8) cs \<le> n" using assms(2) by (intro ceil_div_le) simp_all
qed

text \<open>The fixed point of the loop covers the worst case and is not much larger than it.\<close>

lemma layout_fixed:
  assumes "layout_loop i cs base dc nb0 nt0 = Some (pm, nb, nt)" "512 \<le> cs" "cs \<le> 2097152"
    "base + dc \<le> 2 ^ 37"
  shows "pm = base + nt + nb" "pm + dc \<le> nb * (cs div 2)" "nb * (cs div 2) < pm + dc + cs div 2"
    "nb \<le> nt * (cs div 8)" "nt * (cs div 8) < nb + cs div 8" "2 * pm \<le> nb * cs" "pm + dc < 2 ^ 39"
proof -
  have pm: "pm = base + nt + nb" and nb: "ceil_div (pm + dc) (cs div 2) = nb"
    and nt: "ceil_div nb (cs div 8) = nt"
    using layout_loop_result [OF assms(1)] by (blast intro: sym)+
  have h: "256 \<le> cs div 2" "cs div 2 \<le> 1048576" "64 \<le> cs div 8" "0 < cs div 2" "0 < cs div 8"
    using assms(2,3) by linarith+
  have hb: "pm + dc \<le> nb * (cs div 2)" "nb * (cs div 2) < pm + dc + cs div 2"
    using ceil_div_bounds [OF h(4), of "pm + dc"] unfolding nb .
  have tb: "nb \<le> nt * (cs div 8)" "nt * (cs div 8) < nb + cs div 8"
    using ceil_div_bounds [OF h(5), of nb] unfolding nt .
  have "256 * nb \<le> nb * (cs div 2)" "64 * nt \<le> nt * (cs div 8)" using h by simp_all
  moreover have "cs div 8 \<le> 262144" "(2::nat) ^ 39 = 4 * 2 ^ 37" "(2::nat) ^ 37 = 137438953472"
    using assms(3) by simp_all
  ultimately show "pm + dc < 2 ^ 39" using hb(2) tb(2) pm h(2) assms(4) by linarith
  have "nb * (2 * (cs div 2)) \<le> nb * cs" by (intro mult_le_mono2) simp
  moreover have "nb * (2 * (cs div 2)) = 2 * (nb * (cs div 2))" by (simp only: ac_simps)
  ultimately show "2 * pm \<le> nb * cs" using hb(1) by linarith
  show "pm = base + nt + nb" by (rule pm)
  show "pm + dc \<le> nb * (cs div 2)" "nb * (cs div 2) < pm + dc + cs div 2" by (rule hb)+
  show "nb \<le> nt * (cs div 8)" "nt * (cs div 8) < nb + cs div 8" by (rule tb)+
qed

lemma computeQcow2Layout_ok:
  assumes "virtualSize \<le> maxVirtualSize" "bits = 0 \<or> 9 \<le> bits \<and> bits \<le> 21"
  obtains l where "computeQcow2Layout virtualSize bits prealloc = Ok l"
    "layout_sound virtualSize (if bits = 0 then clusterBits else bits) prealloc l"
    "ly_l1Size l = ceil_div virtualSize (ly_clusterSize l div 8 * ly_clusterSize l)"
    "ly_physMeta l < 2 ^ 39" "ly_l1Size l \<le> 2 ^ 29"
    "ly_refblockCnt l * (ly_clusterSize l div 2) < 2 ^ 39 + ly_clusterSize l div 2"
    "ly_reftableCls l * (ly_clusterSize l div 8) < ly_refblockCnt l + ly_clusterSize l div 8"
proof -
  define b where "b = (if bits = 0 then clusterBits else bits)"
  have b: "9 \<le> b" "b \<le> 21" using assms(2) by (auto simp: b_def clusterBits_def)
  define cs :: nat where "cs = 2 ^ b"
  have cs: "512 \<le> cs" "cs \<le> 2097152" using two_power_range [OF b] by (simp_all add: cs_def)
  have e: "0 < cs div 8 * cs" "0 < cs" using cs by simp_all
  have vs: "virtualSize \<le> 2 ^ 44" using assms(1) by (simp add: maxVirtualSize_def)
  define l1 lc dc l2 where "l1 = ceil_div virtualSize (cs div 8 * cs)" and "lc = ceil_div (l1 * 8) cs"
    and "dc = ceil_div virtualSize cs" and "l2 = (if prealloc then l1 else 0)"
  define base where "base = 1 + lc + l2"
  have sz: "l1 \<le> 2 ^ 29" "dc \<le> 2 ^ 35" "lc \<le> l1"
    using layout_sizes [OF vs cs(1)] unfolding l1_def dc_def lc_def by blast+
  then have base: "0 < base" "base + dc \<le> 2 ^ 37" by (simp_all add: base_def l2_def)
  from layout_loop_converges [OF cs(1) base] obtain pm nb nt where
    loop: "layout_loop 32 cs base dc 1 1 = Some (pm, nb, nt)" by auto
  note fx = layout_fixed [OF loop cs base(2)]
  define ru where "ru = ceil_div (2 * pm) cs"
  have ru: "ru \<le> nb" unfolding ru_def using fx(6) e(2) by (rule ceil_div_le)
  have dvc: "divCeil virtualSize (cs div 8 * cs) = Ok l1" "divCeil (l1 * 8) cs = Ok lc"
    "divCeil virtualSize cs = Ok dc" "divCeil (2 * pm) cs = Ok ru"
    unfolding l1_def lc_def dc_def ru_def using vs e cs sz(1) fx(7)
    by (intro divCeil_eq; simp add: l1_def [symmetric])+
  let ?l = "\<lparr>ly_clusterBits = b, ly_clusterSize = cs, ly_l1Size = l1, ly_l1Clusters = lc,
    ly_l2Count = l2, ly_reftableCls = nt, ly_refblockCnt = nb, ly_refUsedCls = ru, ly_physMeta = pm,
    ly_reftableOff = cs, ly_refblockOff = (1 + nt) * cs, ly_l1Off = (1 + nt) * cs + nb * cs,
    ly_l2Off = (1 + nt) * cs + nb * cs + lc * cs\<rparr>"
  have c: "computeQcow2Layout virtualSize bits prealloc = Ok ?l"
    unfolding computeQcow2Layout_def b_def [symmetric] Let_def
    using b assms(1) dvc loop sz(1) by (simp add: cs_def [symmetric] l2_def base_def)
  have a: "virtualSize \<le> l1 * (cs div 8 * cs)" "l1 * 8 \<le> lc * cs" "2 * pm \<le> ru * cs"
    using ceil_div_bounds(1) [OF e(1), of virtualSize] ceil_div_bounds(1) [OF e(2), of "l1 * 8"]
      ceil_div_bounds(1) [OF e(2), of "2 * pm"]
    unfolding l1_def [symmetric] lc_def [symmetric] ru_def [symmetric] .
  have "pm * cs = (1 + nt) * cs + nb * cs + lc * cs + l2 * cs"
    unfolding fx(1) base_def by (simp add: add_mult_distrib)
  then have "layout_sound virtualSize b prealloc ?l"
    using a fx(2,4) ru by (simp add: layout_sound_def Let_def cs_def [symmetric] dc_def [symmetric] l2_def)
  then show ?thesis using that [OF c] sz(1) fx(3,5,7) by (simp add: b_def [symmetric] l1_def)
qed

text \<open>
  C32: Sizing always succeeds and is sound. For every virtual size up to the 16 TiB cap and every
  cluster size of the qcow2 range (0 stands for the default) the sizing loop reaches its fixed
  point within its 32 rounds, and the layout it returns has contiguous regions, an L1 table that
  maps the whole disk, and refcount blocks and table that cover every metadata cluster written at
  creation and every data cluster of the disk.\<close>

theorem computeQcow2Layout_sound:
  assumes "virtualSize \<le> maxVirtualSize" "bits = 0 \<or> 9 \<le> bits \<and> bits \<le> 21"
  shows "\<exists>l. computeQcow2Layout virtualSize bits prealloc = Ok l \<and>
    layout_sound virtualSize (if bits = 0 then clusterBits else bits) prealloc l"
  using computeQcow2Layout_ok [OF assms] by metis

theorem computeQcow2Layout_sound_witness:
  "\<exists>l. computeQcow2Layout 1048576 0 True = Ok l \<and>
    layout_sound 1048576 (if (0::nat) = 0 then clusterBits else 0) True l"
  by (rule computeQcow2Layout_sound) (simp_all add: maxVirtualSize_def)

section \<open>Refcounts without preallocated tables\<close>

lemma layout_loop_numeral:
  "layout_loop (numeral k) cs base dataClusters refblockCnt reftableCls =
     (case layout_round cs base dataClusters refblockCnt reftableCls of
        (physMeta, nbW, nt) \<Rightarrow>
          if nbW = refblockCnt \<and> nt = reftableCls then Some (physMeta, refblockCnt, reftableCls)
          else layout_loop (pred_numeral k) cs base dataClusters nbW nt)"
  by (simp only: numeral_eq_Suc [of k] layout_loop.simps)

text \<open>
  Without preallocated metadata the worst case is underestimated. L2 tables that are allocated on
  first write are clusters too, but the sizing does not count them: for a 511 GiB image with the
  default 4 KiB clusters the refcount table cannot refer to enough refcount blocks for the metadata,
  the data clusters and the L2 tables of a fully written image, and the table cannot grow later.\<close>

theorem refcount_table_short:
  "\<exists>l. computeQcow2Layout (511 * 2 ^ 30) clusterBits False = Ok l \<and>
     ly_reftableCls l * (ly_clusterSize l div 8) * (ly_clusterSize l div 2)
       < ly_physMeta l + ceil_div (511 * 2 ^ 30) (ly_clusterSize l) + ly_l1Size l"
  by (simp add: computeQcow2Layout_def divCeil_def clusterBits_def maxVirtualSize_def Let_def
      layout_loop_numeral layout_round_def ceil_div_def)

end
