(* ===== verification/Qcow2Image.thy ===== *)
theory Qcow2Image
  imports Qcow2Layout
begin

text \<open>
  Reading and writing a qcow2 image, \<^verbatim>\<open>internal/cow/qcow2.go\<close> (resolve, ReadAt, the L2
  table cache) and \<^verbatim>\<open>qcow2_write.go\<close> (WriteAt, copy-on-write, cluster allocation, refcounts).

  The state is the opened image together with its host file. A host operation is a
  \<^verbatim>\<open>pread\<close> or \<^verbatim>\<open>pwrite\<close>; \<open>im_io\<close> says which of them fail (a failing write leaves
  the file as it was). The mutexes make every call atomic. Table entries and offsets are natural
  numbers below \<open>2 ^ 64\<close>; an entry's offset field is masked to 56 bits, so sums of offsets and
  cluster sizes do not wrap.
\<close>

unbundle bit_operations_syntax

section \<open>Image state\<close>

record Img =
  im_file :: "u8 list"
  im_ops :: nat
  im_io :: "nat \<Rightarrow> bool"
  im_size :: nat
  im_l1Offset :: nat
  im_refcountOffset :: nat
  im_refcountClusters :: nat
  im_bits :: nat
  im_fileSize :: nat
  im_l1 :: "nat list"
  im_cache :: "(nat, nat list) gomap"
  im_cacheBytes :: nat
  im_backing :: "(nat \<Rightarrow> nat \<Rightarrow> u8 list \<times> qerr option) option"

text \<open>
  \<open>im_backing\<close> is the \<^verbatim>\<open>ReadAt\<close> of the backing image: the bytes read at a guest offset (fewer
  than asked for at its end) and the error. A raw image reads its own bytes.
\<close>

definition raw_ReadAt :: "u8 list \<Rightarrow> nat \<Rightarrow> nat \<Rightarrow> u8 list \<times> qerr option" where
  "raw_ReadAt file off n =
     (let bs = take n (drop off file) in (bs, if length bs < n then Some ''EOF'' else None))"

definition im_cs :: "Img \<Rightarrow> nat" where
  "im_cs s = 2 ^ im_bits s"

type_synonym 'a qm = "Img \<Rightarrow> (qerr + 'a) \<times> Img"

definition qret :: "'a \<Rightarrow> 'a qm" where
  "qret x s = (Inr x, s)"

definition qfail :: "qerr \<Rightarrow> 'a qm" where
  "qfail e s = (Inl e, s)"

definition qbind :: "'a qm \<Rightarrow> ('a \<Rightarrow> 'b qm) \<Rightarrow> 'b qm" where
  "qbind m f s = (case m s of (Inl e, s1) \<Rightarrow> (Inl e, s1) | (Inr x, s1) \<Rightarrow> f x s1)"

definition oflagCopied :: nat where "oflagCopied = 2 ^ 63"

definition l1eOffsetMask :: nat where "l1eOffsetMask = 0x00fffffffffffe00"

definition reftOffsetMask :: nat where "reftOffsetMask = 0xfffffffffffffe00"

definition e_off :: "nat \<Rightarrow> nat" where
  "e_off e = e AND l1eOffsetMask"

definition is_copied :: "nat \<Rightarrow> bool" where
  "is_copied e = bit e 63"

definition is_compressed :: "nat \<Rightarrow> bool" where
  "is_compressed e = bit e 62"

definition is_zero :: "nat \<Rightarrow> bool" where
  "is_zero e = bit e 0"

section \<open>Host file\<close>

text \<open>
  \<^verbatim>\<open>WriteAt\<close> past the end leaves a hole that reads as zeros; offsets beyond the signed 64-bit range
  are refused.
\<close>

definition write_at :: "u8 list \<Rightarrow> nat \<Rightarrow> u8 list \<Rightarrow> u8 list" where
  "write_at f off p = take off (f @ replicate (off - length f) 0) @ p @ drop (off + length p) f"

definition host_write :: "nat \<Rightarrow> u8 list \<Rightarrow> unit qm" where
  "host_write off p s =
     (let s1 = s\<lparr>im_ops := Suc (im_ops s)\<rparr> in
      if \<not> im_io s (im_ops s) \<or> 2 ^ 63 \<le> off + length p then (Inl ''io'', s1)
      else (Inr (), s1\<lparr>im_file := write_at (im_file s) off p\<rparr>))"

text \<open>\<open>n\<close> bytes at an offset; a short read returns what is there and \<open>EOF\<close>.\<close>

definition host_pread :: "nat \<Rightarrow> nat \<Rightarrow> Img \<Rightarrow> (u8 list \<times> qerr option) \<times> Img" where
  "host_pread off n s =
     (let s1 = s\<lparr>im_ops := Suc (im_ops s)\<rparr> in
      if \<not> im_io s (im_ops s) then (([], Some ''io''), s1)
      else (raw_ReadAt (im_file s) off n, s1))"

definition host_read :: "nat \<Rightarrow> nat \<Rightarrow> u8 list qm" where
  "host_read off n s =
     (case host_pread off n s of ((bs, Some e), s1) \<Rightarrow> (Inl e, s1) | ((bs, None), s1) \<Rightarrow> (Inr bs, s1))"

definition readUint64At :: "nat \<Rightarrow> nat qm" where
  "readUint64At off = qbind (host_read off 8) (\<lambda>b. qret (be_get b))"

section \<open>L2 tables\<close>

definition l2CacheMaxBytes :: nat where
  "l2CacheMaxBytes = 32 * 2 ^ 20"

definition decode_table :: "nat \<Rightarrow> u8 list \<Rightarrow> nat list" where
  "decode_table entries buf = map (\<lambda>i. be_get (take 8 (drop (i * 8) buf))) [0..<entries]"

definition cache_insert :: "nat \<Rightarrow> nat list \<Rightarrow> Img \<Rightarrow> Img" where
  "cache_insert l2Off tbl s =
     (let s1 = (if im_cacheBytes s + im_cs s > l2CacheMaxBytes \<and> im_cache s \<noteq> []
                then s\<lparr>im_cache := [], im_cacheBytes := 0\<rparr> else s)
      in s1\<lparr>im_cache := AList.update l2Off tbl (im_cache s1),
            im_cacheBytes := im_cacheBytes s1 + length tbl * 8\<rparr>)"

definition l2EntryAt :: "nat \<Rightarrow> nat \<Rightarrow> nat qm" where
  "l2EntryAt l2Off l2Idx s =
     (if im_cs s div 8 \<le> l2Idx then (Inl ''L2 index'', s)
      else case map_of (im_cache s) l2Off of
        Some tbl \<Rightarrow> (Inr (tbl ! l2Idx), s)
      | None \<Rightarrow>
          if l2Off mod im_cs s \<noteq> 0 then (Inl ''L2 not aligned'', s)
          else if im_fileSize s < l2Off + im_cs s then (Inl ''L2 exceeds file'', s)
          else qbind (host_read l2Off (im_cs s)) (\<lambda>buf s1.
                 let loaded = decode_table (im_cs s div 8) buf
                 in (Inr (loaded ! l2Idx), cache_insert l2Off loaded s1)) s)"

definition updateL2Cache :: "nat \<Rightarrow> nat \<Rightarrow> nat \<Rightarrow> Img \<Rightarrow> Img" where
  "updateL2Cache l2Off l2Idx val s =
     (case map_of (im_cache s) l2Off of
        None \<Rightarrow> s
      | Some tbl \<Rightarrow> s\<lparr>im_cache := AList.update l2Off (tbl[l2Idx := val]) (im_cache s)\<rparr>)"

section \<open>Reading\<close>

datatype rhost = RZero | RBacking | RHost nat

definition backingOrZero :: "Img \<Rightarrow> rhost" where
  "backingOrZero s = (if im_backing s = None then RZero else RBacking)"

definition resolve :: "nat \<Rightarrow> nat \<Rightarrow> (rhost \<times> nat) qm" where
  "resolve guest want s =
     (let cs = im_cs s;
          clusterIdx = guest div cs;
          inCluster = guest mod cs;
          n = min (cs - inCluster) want;
          l1Idx = clusterIdx div (cs div 8);
          l2Idx = clusterIdx mod (cs div 8)
      in if length (im_l1 s) \<le> l1Idx then (Inl ''beyond L1'', s)
         else let l2Off = e_off (im_l1 s ! l1Idx)
              in if l2Off = 0 then (Inr (backingOrZero s, n), s)
                 else qbind (l2EntryAt l2Off l2Idx) (\<lambda>l2e s1.
                        if is_compressed l2e then (Inl ''compressed'', s1)
                        else let host = e_off l2e
                             in if host = 0
                                then if is_zero l2e then (Inr (RZero, n), s1)
                                     else (Inr (backingOrZero s1, n), s1)
                                else if is_zero l2e then (Inr (RZero, n), s1)
                                else (Inr (RHost (host + inCluster), n), s1)) s)"

text \<open>Filling \<open>n\<close> bytes of the caller's buffer from what a guest offset resolves to.\<close>

definition fill :: "rhost \<Rightarrow> nat \<Rightarrow> u8 list \<Rightarrow> Img \<Rightarrow> (u8 list \<times> qerr option) \<times> Img" where
  "fill h guest buf s =
     (let n = length buf in
      case h of
        RZero \<Rightarrow> ((replicate n 0, None), s)
      | RBacking \<Rightarrow>
          (case im_backing s of
             None \<Rightarrow> ((buf, Some ''nil backing''), s)
           | Some rd \<Rightarrow>
               (case rd guest n of
                  (bs, err) \<Rightarrow>
                    if err \<noteq> None \<and> err \<noteq> Some ''EOF'' then ((bs @ drop (length bs) buf, err), s)
                    else ((bs @ replicate (n - length bs) 0, None), s)))
      | RHost host \<Rightarrow>
          (case host_pread host n s of ((bs, err), s1) \<Rightarrow> ((bs @ drop (length bs) buf, err), s1)))"

text \<open>The read loop over the rest of the buffer: filled buffer, bytes counted, error.\<close>

function read_loop :: "u8 list \<Rightarrow> nat \<Rightarrow> Img \<Rightarrow> (u8 list \<times> nat \<times> qerr option) \<times> Img" where
  "read_loop rest guest s =
     (if rest = [] then (([], 0, None), s)
      else if im_size s \<le> guest then ((rest, 0, Some ''EOF''), s)
      else case resolve guest (length rest) s of
        (Inl e, s1) \<Rightarrow> ((rest, 0, Some e), s1)
      | (Inr (h, n), s1) \<Rightarrow>
          if n = 0 then ((rest, 0, Some ''unexpected EOF''), s1)
          else (case fill h guest (take n rest) s1 of
            ((chunk, Some e), s2) \<Rightarrow> ((chunk @ drop n rest, 0, Some e), s2)
          | ((chunk, None), s2) \<Rightarrow>
              (case read_loop (drop n rest) (guest + n) s2 of
                 ((r, t, e), s3) \<Rightarrow> ((chunk @ r, n + t, e), s3))))"
  by pat_completeness auto
termination
  by (relation "measure (\<lambda>(rest, guest, s). length rest)") auto

declare read_loop.simps [simp del]

definition ReadAt :: "u8 list \<Rightarrow> nat \<Rightarrow> Img \<Rightarrow> (u8 list \<times> nat \<times> qerr option) \<times> Img" where
  "ReadAt p off s = read_loop p off s"

section \<open>Allocating\<close>

text \<open>
  The refcount loop with the clusters whose entry is still to be written. Every new block is
  appended at the end of the file, so the cluster index grows until the table is full.
\<close>

definition maxBlocks :: "Img \<Rightarrow> nat" where
  "maxBlocks s = im_refcountClusters s * (im_cs s div 8)"

definition entriesPerBlock :: "Img \<Rightarrow> nat" where
  "entriesPerBlock s = im_cs s div 2"

text \<open>One round: the block of \<open>idx\<close>, allocated and registered when it is missing.\<close>

definition ensure_block :: "nat \<Rightarrow> (nat \<times> bool) qm" where
  "ensure_block idx s =
     (let blockIdx = idx div entriesPerBlock s in
      qbind (readUint64At (im_refcountOffset s + blockIdx * 8)) (\<lambda>tableEntry s1.
        let blockOff = tableEntry AND reftOffsetMask in
        if blockOff \<noteq> 0 then (Inr (blockOff, False), s1)
        else let new = im_fileSize s1 in
             qbind (host_write new (replicate (im_cs s1) 0)) (\<lambda>_ s2.
               qbind (host_write (im_refcountOffset s2 + blockIdx * 8) (be_put 8 new))
                 (\<lambda>_. qret (new, True)) (s2\<lparr>im_fileSize := im_fileSize s2 + im_cs s2\<rparr>)) s1) s)"

text \<open>Writing refcount 1 for \<open>idx\<close> into its block.\<close>

definition put_refcount :: "nat \<Rightarrow> nat \<Rightarrow> unit qm" where
  "put_refcount blockOff idx s = host_write (blockOff + (idx mod entriesPerBlock s) * 2) (be_put 2 1) s"

lemma host_write_frame:
  assumes "host_write off p s = (r, s1)"
  shows "im_fileSize s1 = im_fileSize s" "im_bits s1 = im_bits s" "im_refcountOffset s1 = im_refcountOffset s"
    "im_refcountClusters s1 = im_refcountClusters s" "im_size s1 = im_size s" "im_l1 s1 = im_l1 s"
    "im_l1Offset s1 = im_l1Offset s" "im_cache s1 = im_cache s" "im_backing s1 = im_backing s"
  using assms by (auto simp: host_write_def Let_def split: if_splits)

lemma host_read_frame:
  assumes "host_read off n s = (r, s1)"
  shows "s1 = s\<lparr>im_ops := Suc (im_ops s)\<rparr>"
  using assms by (auto simp: host_read_def host_pread_def Let_def split: if_splits prod.splits option.splits)

lemma readUint64At_frame:
  assumes "readUint64At off s = (r, s1)"
  shows "s1 = s\<lparr>im_ops := Suc (im_ops s)\<rparr>"
  using assms host_read_frame
  by (auto simp: readUint64At_def qbind_def qret_def split: prod.splits sum.splits)

lemma ensure_block_frame:
  assumes "ensure_block idx s = (Inr (b, fresh), s1)"
  shows "im_bits s1 = im_bits s" "im_refcountClusters s1 = im_refcountClusters s"
    "im_fileSize s1 = (if fresh then im_fileSize s + im_cs s else im_fileSize s)"
    "fresh \<Longrightarrow> b = im_fileSize s"
  using assms readUint64At_frame host_write_frame
  by (auto simp: ensure_block_def qbind_def qret_def Let_def im_cs_def split: prod.splits sum.splits if_splits)
    fastforce+

definition bump_room :: "nat \<Rightarrow> Img \<Rightarrow> nat" where
  "bump_room idx s =
     (if idx < maxBlocks s * entriesPerBlock s
      then Suc (maxBlocks s * entriesPerBlock s + 1 - im_fileSize s div im_cs s) else 0)"

lemma maxBlocks_cong: "im_bits s1 = im_bits s \<Longrightarrow> im_refcountClusters s1 = im_refcountClusters s \<Longrightarrow>
    maxBlocks s1 = maxBlocks s \<and> entriesPerBlock s1 = entriesPerBlock s \<and> im_cs s1 = im_cs s"
  by (simp add: maxBlocks_def entriesPerBlock_def im_cs_def)

lemma below_capacity:
  assumes "\<not> maxBlocks s \<le> idx div entriesPerBlock s"
  shows "idx < maxBlocks s * entriesPerBlock s"
proof -
  have "0 < entriesPerBlock s"
  proof (rule ccontr)
    assume "\<not> 0 < entriesPerBlock s"
    then have "im_cs s < 2" by (simp add: entriesPerBlock_def)
    then have "maxBlocks s = 0" by (simp add: maxBlocks_def)
    with assms show False by simp
  qed
  with assms show ?thesis by (simp add: div_less_iff_less_mult not_le)
qed

lemma bump_room_push:
  assumes "\<not> maxBlocks s \<le> idx div entriesPerBlock s" "ensure_block idx s = (Inr (b, True), s1)"
  shows "bump_room (b div im_cs s1) s1 < bump_room idx s"
proof -
  have f: "im_bits s1 = im_bits s" "im_refcountClusters s1 = im_refcountClusters s"
    "im_fileSize s1 = im_fileSize s + im_cs s" "b = im_fileSize s"
    using ensure_block_frame [OF assms(2)] by simp_all
  have c: "maxBlocks s1 = maxBlocks s" "entriesPerBlock s1 = entriesPerBlock s" "im_cs s1 = im_cs s"
    using maxBlocks_cong [OF f(1,2)] by simp_all
  have "(im_fileSize s + im_cs s) div im_cs s = Suc (im_fileSize s div im_cs s)"
    using div_add_self2 [of "im_cs s" "im_fileSize s"] by (simp add: im_cs_def)
  with below_capacity [OF assms(1)] show ?thesis
    by (auto simp: bump_room_def c f)
qed

lemma bump_room_pop:
  assumes "\<not> maxBlocks s \<le> idx div entriesPerBlock s" "ensure_block idx s = (Inr (b, fresh), s1)"
    "put_refcount b idx s1 = (r, s2)"
  shows "bump_room d s2 \<le> bump_room idx s"
proof -
  have f: "im_bits s1 = im_bits s" "im_refcountClusters s1 = im_refcountClusters s"
    "im_fileSize s \<le> im_fileSize s1"
    using ensure_block_frame(1,2,3) [OF assms(2)] by simp_all
  have g: "im_bits s2 = im_bits s" "im_refcountClusters s2 = im_refcountClusters s"
    "im_fileSize s2 = im_fileSize s1"
    using host_write_frame(1,2,4) [OF assms(3) [unfolded put_refcount_def]] f by simp_all
  have c: "maxBlocks s2 = maxBlocks s" "entriesPerBlock s2 = entriesPerBlock s" "im_cs s2 = im_cs s"
    using maxBlocks_cong [OF g(1,2)] by simp_all
  have "im_fileSize s div im_cs s \<le> im_fileSize s2 div im_cs s"
    using f(3) g(3) by (simp add: div_le_mono)
  with below_capacity [OF assms(1)] show ?thesis by (auto simp: bump_room_def c)
qed

function bump_loop :: "nat \<Rightarrow> nat list \<Rightarrow> unit qm" where
  "bump_loop idx deferred s =
     (if maxBlocks s \<le> idx div entriesPerBlock s then (Inl ''refcount table full'', s)
      else case ensure_block idx s of
        (Inl e, s1) \<Rightarrow> (Inl e, s1)
      | (Inr (blockOff, fresh), s1) \<Rightarrow>
          if fresh \<and> blockOff div im_cs s1 \<noteq> idx
          then bump_loop (blockOff div im_cs s1) (idx # deferred) s1
          else (case put_refcount blockOff idx s1 of
            (Inl e, s2) \<Rightarrow> (Inl e, s2)
          | (Inr u, s2) \<Rightarrow>
              (case deferred of [] \<Rightarrow> (Inr (), s2) | d # ds \<Rightarrow> bump_loop d ds s2)))"
  by pat_completeness auto
termination
proof (relation "inv_image (less_than <*lex*> less_than) (\<lambda>(idx, deferred, s). (bump_room idx s, length deferred))",
    goal_cases)
  case 1
  show ?case by auto
next
  case 2
  then show ?case by clarsimp (erule bump_room_push, simp)
next
  case 3
  then show ?case
    by clarsimp (metis bump_room_pop le_less)
qed

declare bump_loop.simps [simp del]

definition bumpRefcount :: "nat \<Rightarrow> unit qm" where
  "bumpRefcount clusterIdx s =
     (if maxBlocks s \<noteq> 0 \<and> maxBlocks s \<le> clusterIdx div entriesPerBlock s
      then (Inl ''refcount table full'', s)
      else bump_loop clusterIdx [] s)"

definition allocCluster :: "nat qm" where
  "allocCluster s =
     (let off = im_fileSize s in
      if off mod im_cs s \<noteq> 0 then (Inl ''not aligned'', s)
      else qbind (bumpRefcount (off div im_cs s)) (\<lambda>_. qret off)
             (s\<lparr>im_fileSize := im_fileSize s + im_cs s\<rparr>))"

section \<open>Writing\<close>

definition hostOffset :: "nat \<Rightarrow> nat qm" where
  "hostOffset clusterIdx s =
     (let l2Entries = im_cs s div 8;
          l1Idx = clusterIdx div l2Entries;
          l2Idx = clusterIdx mod l2Entries
      in if length (im_l1 s) \<le> l1Idx then (Inl ''beyond L1'', s)
         else let l2Off = e_off (im_l1 s ! l1Idx)
              in if l2Off = 0 then (Inr 0, s)
                 else qbind (l2EntryAt l2Off l2Idx) (\<lambda>l2e.
                        if is_compressed l2e then qfail ''compressed''
                        else if \<not> (is_copied l2e \<and> \<not> is_zero l2e) then qret 0
                        else qret (e_off l2e)) s)"

text \<open>The L2 table of an L1 slot, allocated, zeroed and linked on first use.\<close>

definition ensureL2 :: "nat \<Rightarrow> nat qm" where
  "ensureL2 l1Idx s =
     (let l2Off = e_off (im_l1 s ! l1Idx) in
      if l2Off \<noteq> 0 then (Inr l2Off, s)
      else qbind allocCluster (\<lambda>new s1.
             qbind (host_write new (replicate (im_cs s1) 0)) (\<lambda>_ s2.
               qbind (host_write (im_l1Offset s2 + l1Idx * 8) (be_put 8 (new OR oflagCopied))) (\<lambda>_ s3.
                 (Inr new, s3\<lparr>im_l1 := (im_l1 s3)[l1Idx := new OR oflagCopied]\<rparr>)) s2) s1) s)"

definition setL2Entry :: "nat \<Rightarrow> nat \<Rightarrow> unit qm" where
  "setL2Entry clusterIdx l2e s =
     (let l2Entries = im_cs s div 8;
          l1Idx = clusterIdx div l2Entries;
          l2Idx = clusterIdx mod l2Entries
      in if length (im_l1 s) \<le> l1Idx then (Inl ''beyond L1'', s)
         else qbind (ensureL2 l1Idx) (\<lambda>l2Off.
                qbind (host_write (l2Off + l2Idx * 8) (be_put 8 l2e)) (\<lambda>_ s2.
                  (Inr (), updateL2Cache l2Off l2Idx l2e s2))) s)"

definition linkL2 :: "nat \<Rightarrow> nat \<Rightarrow> unit qm" where
  "linkL2 clusterIdx hostOff = setL2Entry clusterIdx (hostOff OR oflagCopied)"

text \<open>The cluster as the guest sees it, zero past the virtual size, for copy-on-write.\<close>

definition cow_cluster :: "nat \<Rightarrow> u8 list qm" where
  "cow_cluster clusterIdx s =
     (let cs = im_cs s;
          clusterStart = clusterIdx * cs;
          readLen = min cs (im_size s - clusterStart)
      in case ReadAt (replicate readLen 0) clusterStart s of
           ((buf, t, err), s1) \<Rightarrow>
             if err \<noteq> None \<and> err \<noteq> Some ''EOF'' then (Inl ''read backing for CoW'', s1)
             else (Inr (buf @ replicate (cs - readLen) 0), s1))"

definition allocDataCluster :: "nat \<Rightarrow> u8 list \<Rightarrow> nat \<Rightarrow> bool \<Rightarrow> nat qm" where
  "allocDataCluster clusterIdx data guest fullCluster =
     qbind allocCluster (\<lambda>hostOff.
       qbind (if fullCluster then host_write hostOff data
              else qbind (cow_cluster clusterIdx) (\<lambda>buf s1.
                     host_write hostOff (splice buf (guest mod im_cs s1) data) s1)) (\<lambda>_.
         qbind (linkL2 clusterIdx hostOff) (\<lambda>_. qret hostOff)))"

text \<open>One chunk of a write, within one cluster.\<close>

definition write_chunk :: "nat \<Rightarrow> u8 list \<Rightarrow> unit qm" where
  "write_chunk guest data s =
     (let cs = im_cs s;
          clusterIdx = guest div cs;
          inCluster = guest mod cs
      in qbind (hostOffset clusterIdx) (\<lambda>host.
           if host = 0
           then qbind (allocDataCluster clusterIdx data guest (inCluster = 0 \<and> length data = cs)) (\<lambda>_. qret ())
           else host_write (host + inCluster) data) s)"

function write_loop :: "u8 list \<Rightarrow> nat \<Rightarrow> Img \<Rightarrow> (nat \<times> qerr option) \<times> Img" where
  "write_loop rest guest s =
     (if rest = [] then ((0, None), s)
      else if im_size s \<le> guest then ((0, Some ''write beyond virtual size''), s)
      else let n = min (im_cs s - guest mod im_cs s) (length rest) in
           case write_chunk guest (take n rest) s of
             (Inl e, s1) \<Rightarrow> ((0, Some e), s1)
           | (Inr u, s1) \<Rightarrow>
               (case write_loop (drop n rest) (guest + n) s1 of ((t, e), s2) \<Rightarrow> ((n + t, e), s2)))"
  by pat_completeness auto
termination
  by (relation "measure (\<lambda>(rest, guest, s). length rest)") (auto simp: im_cs_def)

declare write_loop.simps [simp del]

definition WriteAt :: "u8 list \<Rightarrow> nat \<Rightarrow> Img \<Rightarrow> (nat \<times> qerr option) \<times> Img" where
  "WriteAt p off s = write_loop p off s"

end
