(* ===== verification/Qcow2Inv.thy ===== *)
theory Qcow2Inv
  imports Qcow2Image
begin

text \<open>
  The invariant of a qcow2 image and the guest's view of it. \<open>content\<close> is the byte a two-level
  lookup ends in, falling through to the backing image. The invariant \<open>img_wf\<close> gives every host cluster
  a role (refcount table and blocks, L1 table, L2 table of an L1 slot, data of a guest cluster); the
  frame lemmas say which part of it depends on the bytes of which clusters.
\<close>

unbundle bit_operations_syntax

section \<open>Bytes of a file\<close>

definition fb :: "u8 list \<Rightarrow> nat \<Rightarrow> u8" where
  "fb f x = (if x < length f then f ! x else 0)"

definition be8 :: "u8 list \<Rightarrow> nat \<Rightarrow> nat" where
  "be8 f off = be_get (map (fb f) [off..<off + 8])"

lemma length_write_at [simp]: "length (write_at f off p) = max (length f) (off + length p)"
  by (auto simp: write_at_def)

lemma fb_write_at:
  "fb (write_at f off p) x = (if off \<le> x \<and> x < off + length p then p ! (x - off) else fb f x)"
  by (auto simp: fb_def write_at_def nth_append min_def)

lemma fb_replicate [simp]: "fb (replicate n 0) x = 0"
  by (simp add: fb_def)

lemma take_drop_fb:
  assumes "off + n \<le> length f"
  shows "take n (drop off f) = map (fb f) [off..<off + n]"
  using assms by (intro nth_equalityI) (auto simp: fb_def)

lemma be8_cong:
  assumes "\<And>x. off \<le> x \<Longrightarrow> x < off + 8 \<Longrightarrow> fb f x = fb f' x"
  shows "be8 f off = be8 f' off"
  unfolding be8_def using assms by (metis (mono_tags, lifting) atLeastLessThan_iff map_cong set_upt)

lemma be8_write_at: "be8 (write_at f off (be_put 8 v)) off = v mod 2 ^ 64"
proof -
  have "map (fb (write_at f off (be_put 8 v))) [off..<off + 8] = be_put 8 v"
    by (intro nth_equalityI) (auto simp: fb_write_at simp del: le_put_numeral)
  then show ?thesis by (simp add: be8_def be_get_put)
qed

lemma be8_other:
  assumes "k' \<noteq> (k::nat)"
  shows "be8 (write_at f (a + k * 8) (be_put 8 v)) (a + k' * 8) = be8 f (a + k' * 8)"
proof (rule be8_cong)
  fix x assume x: "a + k' * 8 \<le> x" "x < a + k' * 8 + 8"
  have "k' < k \<or> k < k'" using assms by auto
  then show "fb (write_at f (a + k * 8) (be_put 8 v)) x = fb f x"
    using x by (auto simp: fb_write_at simp del: le_put_numeral)
qed

lemma be8_bound: "be8 f off < 2 ^ 64"
  using be_get_bound [of "map (fb f) [off..<off + 8]"] by (simp add: be8_def)

lemma be8_replicate: 
  assumes "\<And>x. off \<le> x \<Longrightarrow> x < off + 8 \<Longrightarrow> fb f x = 0"
  shows "be8 f off = 0"
proof -
  have "be8 f off = be8 [] off" using assms by (intro be8_cong) (auto simp: fb_def)
  also have "\<dots> = 0" by (simp add: be8_def fb_def be_get_def upt_rec)
  finally show ?thesis .
qed

section \<open>Masks\<close>

lemma l1eOffsetMask_bits: "l1eOffsetMask = push_bit 9 (mask 47)"
  by (simp add: l1eOffsetMask_def push_bit_eq_mult mask_eq_exp_minus_1)

lemma reftOffsetMask_bits: "reftOffsetMask = push_bit 9 (mask 55)"
  by (simp add: reftOffsetMask_def push_bit_eq_mult mask_eq_exp_minus_1)

lemma bit_low_zero: "512 dvd (n::nat) \<Longrightarrow> k < 9 \<Longrightarrow> \<not> bit n k"
proof -
  assume "512 dvd n" "k < 9"
  then obtain m where "n = 2 ^ 9 * m" by auto
  then have "n = push_bit 9 m" by (simp add: push_bit_eq_mult mult.commute)
  with \<open>k < 9\<close> show ?thesis by (simp add: bit_push_bit_iff)
qed

lemma bit_high_zero: "(n::nat) < 2 ^ w \<Longrightarrow> w \<le> k \<Longrightarrow> \<not> bit n k"
  by (metis bit_take_bit_iff linorder_not_less take_bit_nat_eq_self)

lemma bit_oflagCopied: "bit oflagCopied n \<longleftrightarrow> n = 63"
  unfolding oflagCopied_def by (subst bit_exp_iff) auto

lemma e_off_linked:
  assumes "512 dvd off" "off < 2 ^ 56"
  shows "e_off (off OR oflagCopied) = off"
proof (rule bit_eqI)
  fix n
  show "bit (e_off (off OR oflagCopied)) n = bit off n"
    using bit_low_zero [OF assms(1), of n] bit_high_zero [OF assms(2), of n]
    by (cases "n < 9"; cases "56 \<le> n")
      (auto simp: e_off_def l1eOffsetMask_bits bit_oflagCopied bit_and_iff bit_or_iff bit_push_bit_iff
        bit_mask_iff)
qed

lemma linked_flags:
  assumes "512 dvd off" "off < 2 ^ 56"
  shows "is_copied (off OR oflagCopied)" "\<not> is_compressed (off OR oflagCopied)"
    "\<not> is_zero (off OR oflagCopied)"
  using bit_low_zero [OF assms(1), of 0] bit_high_zero [OF assms(2), of 62]
  by (simp_all add: is_copied_def is_compressed_def is_zero_def bit_oflagCopied bit_or_iff)

lemma linked_bound:
  assumes "off < 2 ^ 56"
  shows "off OR oflagCopied < 2 ^ 64"
proof -
  have "take_bit 64 (off OR oflagCopied) = off OR oflagCopied"
  proof (rule bit_eqI)
    fix n
    show "bit (take_bit 64 (off OR oflagCopied)) n = bit (off OR oflagCopied) n"
      using bit_high_zero [OF assms, of n]
      by (cases "n < 64") (auto simp: bit_take_bit_iff bit_or_iff bit_oflagCopied)
  qed
  then show ?thesis by (metis take_bit_nat_less_exp)
qed

lemma linked_mod:
  assumes "off < 2 ^ 56"
  shows "(off OR oflagCopied) mod 2 ^ 64 = off OR oflagCopied"
  using linked_bound [OF assms] by simp

lemma reft_mask:
  assumes "512 dvd off" "off < 2 ^ 64"
  shows "off AND reftOffsetMask = off"
proof (rule bit_eqI)
  fix n
  show "bit (off AND reftOffsetMask) n = bit off n"
    using bit_low_zero [OF assms(1), of n] bit_high_zero [OF assms(2), of n]
    by (cases "n < 9"; cases "64 \<le> n")
      (auto simp: reftOffsetMask_bits bit_and_iff bit_push_bit_iff bit_mask_iff)
qed

lemma e_off_zero [simp]: "e_off 0 = 0" "\<not> is_compressed 0" "\<not> is_zero 0" "\<not> is_copied 0"
  by (simp_all add: e_off_def is_compressed_def is_zero_def is_copied_def)

lemma e_off_bound: "e_off e < 2 ^ 56"
proof -
  have "e_off e = take_bit 56 (e_off e)"
    by (rule bit_eqI)
      (auto simp: e_off_def l1eOffsetMask_bits bit_and_iff bit_push_bit_iff bit_mask_iff bit_take_bit_iff)
  then show ?thesis by (metis take_bit_nat_less_exp)
qed

section \<open>Clusters\<close>

text \<open>An aligned cluster: the offsets of its bytes and entries.\<close>

lemma cluster_div: "(cs::nat) dvd o0 \<Longrightarrow> o0 \<le> x \<Longrightarrow> x < o0 + cs \<Longrightarrow> x div cs = o0 div cs"
proof -
  assume a: "cs dvd o0" "o0 \<le> x" "x < o0 + cs"
  obtain k where k: "o0 = cs * k" using a(1) by (rule dvdE)
  have c0: "0 < cs" using a by (cases cs) auto
  have "x = cs * k + (x - o0)" "x - o0 < cs" using a k by auto
  then have "x div cs = k" using c0 div_mult_self4 [of cs k "x - o0"] by simp
  then show ?thesis using k c0 by simp
qed

lemma entry_in_cluster: "8 dvd (cs::nat) \<Longrightarrow> j < cs div 8 \<Longrightarrow> 8 * j + 8 \<le> cs"
  by (auto elim!: dvdE)

section \<open>The image invariant\<close>

datatype role = RFree | ROther | RTab | RBlk nat | RL1 | RL2 nat | RData nat | RShared

definition mapped :: "role \<Rightarrow> bool" where
  "mapped r = (case r of RL2 i \<Rightarrow> True | RData g \<Rightarrow> True | RShared \<Rightarrow> True | _ \<Rightarrow> False)"

definition counted :: "role \<Rightarrow> bool" where
  "counted r = (case r of RL2 i \<Rightarrow> True | RData g \<Rightarrow> True | _ \<Rightarrow> False)"

definition refd :: "role \<Rightarrow> bool" where
  "refd r = (case r of RTab \<Rightarrow> True | RBlk k \<Rightarrow> True | _ \<Rightarrow> False)"

lemma role_simps [simp]:
  "mapped (RL2 i)" "mapped (RData g)" "mapped RShared" "\<not> mapped RFree" "\<not> mapped RTab" "\<not> mapped (RBlk k)"
  "\<not> mapped RL1" "\<not> mapped ROther"
  "counted (RL2 i)" "counted (RData g)" "\<not> counted RShared" "\<not> counted RFree" "\<not> counted RTab"
  "\<not> counted (RBlk k)" "\<not> counted RL1" "\<not> counted ROther"
  "refd RTab" "refd (RBlk k)" "\<not> refd RFree" "\<not> refd RL1" "\<not> refd ROther" "\<not> refd (RL2 i)" "\<not> refd (RData g)"
  "\<not> refd RShared"
  by (simp_all add: mapped_def counted_def refd_def)

lemma mapped_not: "mapped r \<Longrightarrow> r \<noteq> RFree \<and> \<not> refd r \<and> r \<noteq> RL1"
  by (cases r) auto

text \<open>An L2 entry for guest cluster \<open>g\<close>: an owned cluster has the role of \<open>g\<close>'s data.\<close>

definition ent_ok :: "nat \<Rightarrow> (nat \<Rightarrow> role) \<Rightarrow> u8 list \<Rightarrow> nat \<Rightarrow> nat \<Rightarrow> bool" where
  "ent_ok cs role f g e \<longleftrightarrow> \<not> is_compressed e \<and>
     (e_off e \<noteq> 0 \<and> \<not> is_zero e \<longrightarrow>
        cs dvd e_off e \<and> e_off e + cs \<le> length f \<and>
        role (e_off e div cs) = (if is_copied e then RData g else RShared))"

definition tbl_ok :: "nat \<Rightarrow> (nat \<Rightarrow> role) \<Rightarrow> u8 list \<Rightarrow> nat \<Rightarrow> nat \<Rightarrow> bool" where
  "tbl_ok cs role f i t \<longleftrightarrow>
     cs dvd t \<and> t + cs \<le> length f \<and> role (t div cs) = RL2 i \<and>
     (\<forall>j < cs div 8. ent_ok cs role f (i * (cs div 8) + j) (be8 f (t + 8 * j)))"

definition table :: "nat \<Rightarrow> u8 list \<Rightarrow> nat \<Rightarrow> nat list" where
  "table cs f t = map (\<lambda>j. be8 f (t + 8 * j)) [0..<cs div 8]"

definition wf_map :: "nat \<Rightarrow> (nat \<Rightarrow> role) \<Rightarrow> nat list \<Rightarrow> (nat, nat list) gomap \<Rightarrow> u8 list \<Rightarrow> bool" where
  "wf_map cs role l1 cache f \<longleftrightarrow>
     (\<forall>i < length l1. e_off (l1 ! i) \<noteq> 0 \<longrightarrow> tbl_ok cs role f i (e_off (l1 ! i))) \<and>
     (\<forall>t tbl. map_of cache t = Some tbl \<longrightarrow>
        t \<noteq> 0 \<and> (\<exists>i < length l1. e_off (l1 ! i) = t) \<and> tbl = table cs f t)"

text \<open>The L2 entry of a guest cluster, \<open>0\<close> when its table does not exist, and the guest's view.\<close>

definition lookup :: "nat \<Rightarrow> nat list \<Rightarrow> u8 list \<Rightarrow> nat \<Rightarrow> nat" where
  "lookup cs l1 f c =
     (let t = e_off (l1 ! (c div (cs div 8)))
      in if t = 0 then 0 else be8 f (t + 8 * (c mod (cs div 8))))"

definition content_of :: "nat \<Rightarrow> (nat \<Rightarrow> u8) \<Rightarrow> nat list \<Rightarrow> u8 list \<Rightarrow> nat \<Rightarrow> u8" where
  "content_of cs bk l1 f g =
     (let e = lookup cs l1 f (g div cs)
      in if is_zero e then 0 else if e_off e = 0 then bk g else fb f (e_off e + g mod cs))"

text \<open>Refcounts: the block of a table slot and the count of a host cluster.\<close>

definition tabe :: "nat \<Rightarrow> u8 list \<Rightarrow> nat \<Rightarrow> nat" where
  "tabe rt f k = be8 f (rt + k * 8) AND reftOffsetMask"

definition refc :: "nat \<Rightarrow> nat \<Rightarrow> u8 list \<Rightarrow> nat \<Rightarrow> nat" where
  "refc cs rt f c =
     (let b = tabe rt f (c div (cs div 2)); x = b + (c mod (cs div 2)) * 2
      in if b = 0 then 0 else be_get (map (fb f) [x..<x + 2]))"

definition wf_ref :: "nat \<Rightarrow> nat \<Rightarrow> nat \<Rightarrow> (nat \<Rightarrow> role) \<Rightarrow> u8 list \<Rightarrow> bool" where
  "wf_ref cs mb rt role f \<longleftrightarrow>
     (\<forall>x. rt \<le> x \<and> x < rt + mb * 8 \<longrightarrow> role (x div cs) = RTab) \<and>
     (\<forall>k < mb. tabe rt f k \<noteq> 0 \<longrightarrow> cs dvd tabe rt f k \<and> role (tabe rt f k div cs) = RBlk k) \<and>
     (\<forall>c. counted (role c) \<longrightarrow> c div (cs div 2) < mb \<and> refc cs rt f c \<noteq> 0)"

definition wf_l1 :: "nat \<Rightarrow> nat \<Rightarrow> (nat \<Rightarrow> role) \<Rightarrow> nat list \<Rightarrow> u8 list \<Rightarrow> bool" where
  "wf_l1 cs l1Off role l1 f \<longleftrightarrow>
     (\<forall>x. l1Off \<le> x \<and> x < l1Off + length l1 * 8 \<longrightarrow> role (x div cs) = RL1) \<and>
     (\<forall>i < length l1. be8 f (l1Off + i * 8) = l1 ! i)"

definition wf_size :: "nat \<Rightarrow> (nat \<Rightarrow> role) \<Rightarrow> u8 list \<Rightarrow> nat \<Rightarrow> bool" where
  "wf_size cs role f fs \<longleftrightarrow>
     length f \<le> fs \<and> role 0 = ROther \<and> (\<forall>c. role c \<noteq> RFree \<longrightarrow> c * cs + cs \<le> fs)"

definition wf_geom :: "Img \<Rightarrow> bool" where
  "wf_geom s \<longleftrightarrow>
     9 \<le> im_bits s \<and> im_bits s \<le> 21 \<and>
     im_size s \<le> length (im_l1 s) * (im_cs s div 8) * im_cs s \<and>
     maxBlocks s * entriesPerBlock s * im_cs s \<le> 2 ^ 56"

definition img_wf :: "(nat \<Rightarrow> role) \<Rightarrow> Img \<Rightarrow> bool" where
  "img_wf role s \<longleftrightarrow>
     wf_geom s \<and>
     wf_size (im_cs s) role (im_file s) (im_fileSize s) \<and>
     wf_map (im_cs s) role (im_l1 s) (im_cache s) (im_file s) \<and>
     wf_l1 (im_cs s) (im_l1Offset s) role (im_l1 s) (im_file s) \<and>
     wf_ref (im_cs s) (maxBlocks s) (im_refcountOffset s) role (im_file s)"

text \<open>What a backing image promises: reads return its bytes, and zeros follow its end.\<close>

definition backs :: "(nat \<Rightarrow> nat \<Rightarrow> u8 list \<times> qerr option) \<Rightarrow> (nat \<Rightarrow> u8) \<Rightarrow> bool" where
  "backs rd bk \<longleftrightarrow>
     (\<forall>g n bs err. rd g n = (bs, err) \<longrightarrow> length bs \<le> n \<and>
        (err = None \<or> err = Some ''EOF'' \<longrightarrow>
           (\<forall>k < n. bk (g + k) = (if k < length bs then bs ! k else 0))))"

definition bk_ok :: "(nat \<Rightarrow> u8) \<Rightarrow> Img \<Rightarrow> bool" where
  "bk_ok bk s \<longleftrightarrow> (case im_backing s of None \<Rightarrow> (\<forall>g. bk g = 0) | Some rd \<Rightarrow> backs rd bk)"

definition content :: "(nat \<Rightarrow> u8) \<Rightarrow> Img \<Rightarrow> nat \<Rightarrow> u8" where
  "content bk s = content_of (im_cs s) bk (im_l1 s) (im_file s)"

section \<open>Frames\<close>

lemma div_div_less:
  assumes "x < n * m * (k::nat)"
  shows "x div k div m < n"
  using assms by (metis div_mult2_eq less_mult_imp_div_less mult.assoc mult.commute)

lemma im_upd [simp]:
  "im_cs (s\<lparr>im_ops := a\<rparr>) = im_cs s" "im_cs (s\<lparr>im_file := f\<rparr>) = im_cs s"
  "im_cs (s\<lparr>im_fileSize := a\<rparr>) = im_cs s" "im_cs (s\<lparr>im_l1 := l\<rparr>) = im_cs s"
  "im_cs (s\<lparr>im_cache := c\<rparr>) = im_cs s" "im_cs (s\<lparr>im_cacheBytes := a\<rparr>) = im_cs s"
  "maxBlocks (s\<lparr>im_ops := a\<rparr>) = maxBlocks s" "maxBlocks (s\<lparr>im_file := f\<rparr>) = maxBlocks s"
  "maxBlocks (s\<lparr>im_fileSize := a\<rparr>) = maxBlocks s" "maxBlocks (s\<lparr>im_l1 := l\<rparr>) = maxBlocks s"
  "maxBlocks (s\<lparr>im_cache := c\<rparr>) = maxBlocks s" "maxBlocks (s\<lparr>im_cacheBytes := a\<rparr>) = maxBlocks s"
  "entriesPerBlock (s\<lparr>im_ops := a\<rparr>) = entriesPerBlock s" "entriesPerBlock (s\<lparr>im_file := f\<rparr>) = entriesPerBlock s"
  "entriesPerBlock (s\<lparr>im_fileSize := a\<rparr>) = entriesPerBlock s" "entriesPerBlock (s\<lparr>im_l1 := l\<rparr>) = entriesPerBlock s"
  "entriesPerBlock (s\<lparr>im_cache := c\<rparr>) = entriesPerBlock s"
  "entriesPerBlock (s\<lparr>im_cacheBytes := a\<rparr>) = entriesPerBlock s"
  by (simp_all add: im_cs_def maxBlocks_def entriesPerBlock_def)

lemma wf_cs:
  assumes "wf_geom s"
  shows "512 dvd im_cs s" "8 dvd im_cs s" "0 < im_cs s" "0 < im_cs s div 8" "8 * (im_cs s div 8) = im_cs s"
    "2 * (im_cs s div 2) = im_cs s" "0 < im_cs s div 2" "im_cs s \<le> 2 ^ 21"
proof -
  have b: "9 \<le> im_bits s" "im_bits s \<le> 21" using assms by (simp_all add: wf_geom_def)
  show d: "512 dvd im_cs s" using le_imp_power_dvd [OF b(1), of "2::nat"] by (simp add: im_cs_def)
  then obtain k where k: "im_cs s = 512 * k" by (rule dvdE)
  show p: "0 < im_cs s" by (simp add: im_cs_def)
  show "8 dvd im_cs s" "0 < im_cs s div 8" "8 * (im_cs s div 8) = im_cs s"
    "2 * (im_cs s div 2) = im_cs s" "0 < im_cs s div 2" using k p by simp_all
  show "im_cs s \<le> 2 ^ 21" unfolding im_cs_def by (rule power_increasing) (use b in simp_all)
qed

text \<open>A table keeps its entries when the bytes of its cluster do.\<close>

lemma be8_in_cluster:
  assumes "cs dvd t" "8 dvd cs" "j < cs div 8" "\<And>x. x div cs = t div cs \<Longrightarrow> fb f' x = fb f x"
  shows "be8 f' (t + 8 * j) = be8 f (t + 8 * j)"
proof (rule be8_cong)
  fix x assume x: "t + 8 * j \<le> x" "x < t + 8 * j + 8"
  have "x div cs = t div cs"
    using entry_in_cluster [OF assms(2,3)] x by (intro cluster_div assms(1)) auto
  then show "fb f' x = fb f x" by (rule assms(4))
qed

lemma tbl_ok_frame:
  assumes "tbl_ok cs role f i t" "8 dvd cs" "length f \<le> length f'"
    "\<And>x i. role (x div cs) = RL2 i \<Longrightarrow> fb f' x = fb f x"
    "\<And>c. mapped (role c) \<Longrightarrow> role' c = role c"
  shows "tbl_ok cs role' f' i t" "j < cs div 8 \<Longrightarrow> be8 f' (t + 8 * j) = be8 f (t + 8 * j)"
proof -
  have t: "cs dvd t" "role (t div cs) = RL2 i" using assms(1) by (simp_all add: tbl_ok_def)
  have same: "be8 f' (t + 8 * j) = be8 f (t + 8 * j)" if "j < cs div 8" for j
    using that t assms(4) by (intro be8_in_cluster [OF t(1) assms(2)]) auto
  then show "j < cs div 8 \<Longrightarrow> be8 f' (t + 8 * j) = be8 f (t + 8 * j)" .
  have "ent_ok cs role' f' (i * (cs div 8) + j) (be8 f' (t + 8 * j))" if j: "j < cs div 8" for j
  proof -
    have "ent_ok cs role f (i * (cs div 8) + j) (be8 f (t + 8 * j))"
      using assms(1) j by (simp add: tbl_ok_def)
    then show ?thesis using assms(3) assms(5) [of "e_off (be8 f (t + 8 * j)) div cs"]
      by (auto simp: ent_ok_def same [OF j] split: if_splits)
  qed
  then show "tbl_ok cs role' f' i t"
    using assms(1,3,5) by (auto simp: tbl_ok_def)
qed

lemma table_frame:
  assumes "tbl_ok cs role f i t" "8 dvd cs" "\<And>x i. role (x div cs) = RL2 i \<Longrightarrow> fb f' x = fb f x"
  shows "table cs f' t = table cs f t"
proof -
  have t: "cs dvd t" "role (t div cs) = RL2 i" using assms(1) by (simp_all add: tbl_ok_def)
  have "be8 f' (t + 8 * j) = be8 f (t + 8 * j)" if "j < cs div 8" for j
    using that t assms(3) by (intro be8_in_cluster [OF t(1) assms(2)]) auto
  then show ?thesis by (auto simp: table_def)
qed

lemma wf_map_frame:
  assumes "wf_map cs role l1 cache f" "8 dvd cs" "length f \<le> length f'"
    "\<And>x i. role (x div cs) = RL2 i \<Longrightarrow> fb f' x = fb f x"
    "\<And>c. mapped (role c) \<Longrightarrow> role' c = role c"
  shows "wf_map cs role' l1 cache f'"
  unfolding wf_map_def
proof (intro conjI allI impI)
  fix i assume "i < length l1" "e_off (l1 ! i) \<noteq> 0"
  then show "tbl_ok cs role' f' i (e_off (l1 ! i))"
    using assms(1) by (intro tbl_ok_frame(1) [OF _ assms(2-5)]) (auto simp: wf_map_def)
next
  fix t tbl assume c: "map_of cache t = Some tbl"
  then show t0: "t \<noteq> 0" and ex: "\<exists>i<length l1. e_off (l1 ! i) = t"
    using assms(1) by (auto simp: wf_map_def)
  then obtain i where "tbl_ok cs role f i t" using assms(1) by (auto simp: wf_map_def)
  then have "table cs f' t = table cs f t" using assms(2,4) by (rule table_frame)
  then show "tbl = table cs f' t" using c assms(1) by (auto simp: wf_map_def)
qed

lemma lookup_frame:
  assumes "wf_map cs role l1 cache f" "8 dvd cs" "0 < cs"
    "\<And>x i. role (x div cs) = RL2 i \<Longrightarrow> fb f' x = fb f x" "c div (cs div 8) < length l1"
  shows "lookup cs l1 f' c = lookup cs l1 f c"
proof -
  let ?t = "e_off (l1 ! (c div (cs div 8)))"
  have j: "c mod (cs div 8) < cs div 8" using assms(2,3) by (auto elim!: dvdE)
  show ?thesis
  proof (cases "?t = 0")
    case False
    then have "tbl_ok cs role f (c div (cs div 8)) ?t" using assms(1,5) by (simp add: wf_map_def)
    then have t: "cs dvd ?t" "role (?t div cs) = RL2 (c div (cs div 8))" by (simp_all add: tbl_ok_def)
    have "be8 f' (?t + 8 * (c mod (cs div 8))) = be8 f (?t + 8 * (c mod (cs div 8)))"
      using t assms(4) by (intro be8_in_cluster [OF t(1) assms(2) j]) auto
    then show ?thesis by (simp add: lookup_def Let_def)
  qed (simp add: lookup_def)
qed

lemma lookup_ok:
  assumes "wf_map cs role l1 cache f" "8 dvd cs" "0 < cs" "c div (cs div 8) < length l1"
  shows "ent_ok cs role f c (lookup cs l1 f c)"
proof -
  have j: "c mod (cs div 8) < cs div 8" using assms(2,3) by (auto elim!: dvdE)
  show ?thesis
  proof (cases "e_off (l1 ! (c div (cs div 8))) = 0")
    case True
    then show ?thesis by (simp add: lookup_def ent_ok_def)
  next
    case False
    then have "tbl_ok cs role f (c div (cs div 8)) (e_off (l1 ! (c div (cs div 8))))"
      using assms(1,4) by (simp add: wf_map_def)
    then have "ent_ok cs role f (c div (cs div 8) * (cs div 8) + c mod (cs div 8)) (lookup cs l1 f c)"
      using j False by (simp add: tbl_ok_def lookup_def Let_def)
    then show ?thesis by (simp only: div_mult_mod_eq)
  qed
qed

lemma data_div:
  assumes "cs dvd h" "0 < (cs::nat)"
  shows "(h + g mod cs) div cs = h div cs"
  using assms by (intro cluster_div) auto

lemma content_frame:
  assumes "wf_map cs role l1 cache f" "8 dvd cs" "0 < cs"
    "\<And>x. mapped (role (x div cs)) \<Longrightarrow> fb f' x = fb f x" "g div cs div (cs div 8) < length l1"
  shows "content_of cs bk l1 f' g = content_of cs bk l1 f g"
proof -
  let ?e = "lookup cs l1 f (g div cs)"
  have e: "lookup cs l1 f' (g div cs) = ?e" by (rule lookup_frame [OF assms(1-3) _ assms(5)]) (simp add: assms(4))
  have ok: "ent_ok cs role f (g div cs) ?e" using assms by (intro lookup_ok)
  have "fb f' (e_off ?e + g mod cs) = fb f (e_off ?e + g mod cs)" if "e_off ?e \<noteq> 0" "\<not> is_zero ?e"
  proof (rule assms(4))
    have "cs dvd e_off ?e" "mapped (role (e_off ?e div cs))"
      using ok that by (auto simp: ent_ok_def split: if_splits)
    then show "mapped (role ((e_off ?e + g mod cs) div cs))" using assms(3) by (simp add: data_div)
  qed
  then show ?thesis by (simp add: content_of_def e Let_def)
qed

lemma tabe_frame:
  assumes "wf_ref cs mb rt role f" "\<And>x. role (x div cs) = RTab \<Longrightarrow> fb f' x = fb f x" "k < mb"
  shows "tabe rt f' k = tabe rt f k"
proof -
  have "be8 f' (rt + k * 8) = be8 f (rt + k * 8)"
  proof (rule be8_cong)
    fix x assume "rt + k * 8 \<le> x" "x < rt + k * 8 + 8"
    then have "rt \<le> x" "x < rt + mb * 8" using assms(3) by auto
    then show "fb f' x = fb f x" using assms(1,2) by (simp add: wf_ref_def)
  qed
  then show ?thesis by (simp add: tabe_def)
qed

lemma count_div:
  assumes "(cs::nat) dvd b" "2 * (cs div 2) = cs" "0 < cs" "b + (c mod (cs div 2)) * 2 \<le> x"
    "x < b + (c mod (cs div 2)) * 2 + 2"
  shows "x div cs = b div cs"
proof (rule cluster_div [OF assms(1)])
  have "c mod (cs div 2) < cs div 2" using assms(2,3) by (intro mod_less_divisor) presburger
  then have "(c mod (cs div 2)) * 2 + 2 \<le> cs" using assms(2) by simp
  then show "x < b + cs" using assms(5) by simp
qed (use assms in simp)

lemma refc_frame:
  assumes "wf_ref cs mb rt role f" "2 * (cs div 2) = cs" "0 < cs"
    "\<And>x. refd (role (x div cs)) \<Longrightarrow> fb f' x = fb f x" "c div (cs div 2) < mb"
  shows "refc cs rt f' c = refc cs rt f c"
proof -
  let ?b = "tabe rt f (c div (cs div 2))"
  have b: "tabe rt f' (c div (cs div 2)) = ?b" using assms by (intro tabe_frame) auto
  have "map (fb f') [?b + (c mod (cs div 2)) * 2..<?b + (c mod (cs div 2)) * 2 + 2]
      = map (fb f) [?b + (c mod (cs div 2)) * 2..<?b + (c mod (cs div 2)) * 2 + 2]" if "?b \<noteq> 0"
  proof (rule map_cong [OF refl])
    have d: "cs dvd ?b" "role (?b div cs) = RBlk (c div (cs div 2))"
      using assms(1,5) that by (simp_all add: wf_ref_def)
    fix x assume "x \<in> set [?b + (c mod (cs div 2)) * 2..<?b + (c mod (cs div 2)) * 2 + 2]"
    then have "x div cs = ?b div cs"
      by (intro count_div [OF d(1) assms(2,3), of c]) (simp_all only: set_upt atLeastLessThan_iff)
    then show "fb f' x = fb f x" using d(2) by (intro assms(4)) simp
  qed
  then show ?thesis by (simp add: refc_def b Let_def)
qed

lemma wf_ref_frame:
  assumes "wf_ref cs mb rt role f" "2 * (cs div 2) = cs" "0 < cs"
    "\<And>x. refd (role (x div cs)) \<Longrightarrow> fb f' x = fb f x"
    "\<And>c. refd (role c) \<Longrightarrow> role' c = role c"
    "\<And>c. counted (role' c) \<Longrightarrow> counted (role c) \<or> c div (cs div 2) < mb \<and> refc cs rt f c \<noteq> 0"
  shows "wf_ref cs mb rt role' f'"
  unfolding wf_ref_def
proof (intro conjI allI impI)
  fix x assume "rt \<le> x \<and> x < rt + mb * 8"
  then have "role (x div cs) = RTab" using assms(1) by (simp add: wf_ref_def)
  then show "role' (x div cs) = RTab" using assms(5) [of "x div cs"] by simp
next
  fix k assume k: "k < mb" "tabe rt f' k \<noteq> 0"
  have t: "tabe rt f' k = tabe rt f k" using assms k by (intro tabe_frame) auto
  then have "cs dvd tabe rt f k" "role (tabe rt f k div cs) = RBlk k"
    using k assms(1) by (simp_all add: wf_ref_def)
  then show "cs dvd tabe rt f' k" "role' (tabe rt f' k div cs) = RBlk k"
    using assms(5) [of "tabe rt f k div cs"] t by simp_all
next
  fix c assume "counted (role' c)"
  then have c: "c div (cs div 2) < mb" "refc cs rt f c \<noteq> 0"
    using assms(6) [of c] assms(1) by (auto simp: wf_ref_def)
  then show "c div (cs div 2) < mb" "refc cs rt f' c \<noteq> 0"
    using refc_frame [OF assms(1-4)] by simp_all
qed

lemma wf_l1_frame:
  assumes "wf_l1 cs l1Off role l1 f" "\<And>x. role (x div cs) = RL1 \<Longrightarrow> fb f' x = fb f x"
    "\<And>c. role c = RL1 \<Longrightarrow> role' c = RL1"
  shows "wf_l1 cs l1Off role' l1 f'"
  unfolding wf_l1_def
proof (intro conjI allI impI)
  fix x assume "l1Off \<le> x \<and> x < l1Off + length l1 * 8"
  then show "role' (x div cs) = RL1" using assms(1,3) by (simp add: wf_l1_def)
next
  fix i assume i: "i < length l1"
  have "be8 f' (l1Off + i * 8) = be8 f (l1Off + i * 8)"
  proof (rule be8_cong)
    fix x assume "l1Off + i * 8 \<le> x" "x < l1Off + i * 8 + 8"
    then have "l1Off \<le> x" "x < l1Off + length l1 * 8" using i by auto
    then show "fb f' x = fb f x" using assms(1,2) by (simp add: wf_l1_def)
  qed
  then show "be8 f' (l1Off + i * 8) = l1 ! i" using assms(1) i by (simp add: wf_l1_def)
qed

end
