(* ===== verification/Qcow2Alloc.thy ===== *)
theory Qcow2Alloc
  imports Qcow2Inv
begin

text \<open>
  Allocating clusters keeps the image invariant: refcount blocks are registered before they are
  used, refcounts are only added, and an allocated cluster is counted before it is handed out. Every
  lemma covers the runs in which a host operation fails part-way.
\<close>

unbundle bit_operations_syntax

section \<open>Growing an image\<close>

text \<open>Everything but the file, its size and the operation count is kept.\<close>

definition keep :: "Img \<Rightarrow> Img \<Rightarrow> bool" where
  "keep s s' \<longleftrightarrow>
     im_bits s' = im_bits s \<and> im_size s' = im_size s \<and> im_l1Offset s' = im_l1Offset s \<and>
     im_refcountOffset s' = im_refcountOffset s \<and> im_refcountClusters s' = im_refcountClusters s \<and>
     im_backing s' = im_backing s \<and> im_l1 s' = im_l1 s \<and> im_cache s' = im_cache s"

lemma keep_refl [simp]: "keep s s"
  by (simp add: keep_def)

lemma keep_trans: "keep s s1 \<Longrightarrow> keep s1 s2 \<Longrightarrow> keep s s2"
  by (simp add: keep_def)

lemma keep_cs:
  assumes "keep s s'"
  shows "im_cs s' = im_cs s" "maxBlocks s' = maxBlocks s" "entriesPerBlock s' = entriesPerBlock s"
    "wf_geom s' = wf_geom s"
  using assms by (simp_all add: keep_def im_cs_def maxBlocks_def entriesPerBlock_def wf_geom_def)

lemma keep_ops [simp]: "keep s (s\<lparr>im_ops := n\<rparr>)" "keep s (s\<lparr>im_file := f\<rparr>)" "keep s (s\<lparr>im_fileSize := m\<rparr>)"
  by (simp_all add: keep_def)

text \<open>A step of the allocator: roles and refcounts are only added, other bytes are kept.\<close>

definition grow :: "(nat \<Rightarrow> role) \<Rightarrow> Img \<Rightarrow> (nat \<Rightarrow> role) \<Rightarrow> Img \<Rightarrow> bool" where
  "grow role s role' s' \<longleftrightarrow>
     keep s s' \<and>
     (\<forall>c. role c \<noteq> RFree \<longrightarrow> role' c = role c) \<and>
     (\<forall>c. role' c \<noteq> role c \<longrightarrow> im_fileSize s \<le> c * im_cs s \<and> refd (role' c)) \<and>
     im_fileSize s \<le> im_fileSize s' \<and> length (im_file s) \<le> length (im_file s') \<and>
     (\<forall>x. role (x div im_cs s) \<noteq> RFree \<and> \<not> refd (role (x div im_cs s)) \<longrightarrow>
        fb (im_file s') x = fb (im_file s) x) \<and>
     (\<forall>c. c div entriesPerBlock s < maxBlocks s \<and> refc (im_cs s) (im_refcountOffset s) (im_file s) c \<noteq> 0 \<longrightarrow>
        refc (im_cs s) (im_refcountOffset s) (im_file s') c \<noteq> 0) \<and>
     (im_cs s dvd im_fileSize s \<longrightarrow> im_cs s dvd im_fileSize s')"

lemma grow_refl [simp]: "grow role s role s"
  by (simp add: grow_def)

lemma grow_ops: "grow role s role (s\<lparr>im_ops := n\<rparr>)"
  by (simp add: grow_def)

lemma grow_trans:
  assumes "grow role s role1 s1" "grow role1 s1 role2 s2"
  shows "grow role s role2 s2"
proof -
  note k = assms(1) [unfolded grow_def, THEN conjunct1]
  have k2: "keep s1 s2" using assms(2) by (simp add: grow_def)
  have rc: "im_refcountOffset s1 = im_refcountOffset s" using k by (simp add: keep_def)
  note eqs = keep_cs(1-3) [OF k] rc
  note a = assms(1) [unfolded grow_def, THEN conjunct2]
  note b = assms(2) [unfolded grow_def eqs, THEN conjunct2]
  have roles: "role2 c = role c" if "role c \<noteq> RFree" for c using a b that by metis
  have fresh: "im_fileSize s \<le> c * im_cs s \<and> refd (role2 c)" if "role2 c \<noteq> role c" for c
  proof (cases "role1 c = role c")
    case True
    then show ?thesis using a b that by (metis le_trans)
  next
    case False
    then have "im_fileSize s \<le> c * im_cs s" "refd (role1 c)" using a by blast+
    then show ?thesis using b by (metis role_simps(19))
  qed
  have bytes: "fb (im_file s2) x = fb (im_file s) x"
    if "role (x div im_cs s) \<noteq> RFree" "\<not> refd (role (x div im_cs s))" for x
    using a b that by metis
  show ?thesis unfolding grow_def using keep_trans [OF k k2] roles fresh bytes a b by (simp add: le_trans)
qed

lemma growD:
  assumes "grow role s role' s'"
  shows "keep s s'" "role c \<noteq> RFree \<Longrightarrow> role' c = role c"
    "role' c \<noteq> role c \<Longrightarrow> im_fileSize s \<le> c * im_cs s \<and> refd (role' c)"
    "im_fileSize s \<le> im_fileSize s'" "length (im_file s) \<le> length (im_file s')"
    "role (x div im_cs s) \<noteq> RFree \<Longrightarrow> \<not> refd (role (x div im_cs s)) \<Longrightarrow>
       fb (im_file s') x = fb (im_file s) x"
    "im_cs s dvd im_fileSize s \<Longrightarrow> im_cs s dvd im_fileSize s'"
  using assms by (simp_all add: grow_def)

lemma grow_refc:
  assumes "grow role s role' s'" "c div entriesPerBlock s < maxBlocks s"
    "refc (im_cs s) (im_refcountOffset s) (im_file s) c \<noteq> 0"
  shows "refc (im_cs s) (im_refcountOffset s) (im_file s') c \<noteq> 0"
  using assms by (simp add: grow_def)

lemma wfD:
  assumes "img_wf role s"
  shows "wf_geom s" "wf_size (im_cs s) role (im_file s) (im_fileSize s)"
    "wf_map (im_cs s) role (im_l1 s) (im_cache s) (im_file s)"
    "wf_l1 (im_cs s) (im_l1Offset s) role (im_l1 s) (im_file s)"
    "wf_ref (im_cs s) (maxBlocks s) (im_refcountOffset s) role (im_file s)"
  using assms by (simp_all add: img_wf_def)

text \<open>What of the invariant is left to show after such a step.\<close>

lemma grow_wf:
  assumes "img_wf role s" "grow role s role' s'"
    "wf_size (im_cs s) role' (im_file s') (im_fileSize s')"
    "wf_ref (im_cs s) (maxBlocks s) (im_refcountOffset s) role' (im_file s')"
  shows "img_wf role' s'"
proof -
  note k = growD(1) [OF assms(2)]
  note geo = wfD(1) [OF assms(1)]
  have eqs: "im_l1 s' = im_l1 s" "im_cache s' = im_cache s" "im_l1Offset s' = im_l1Offset s"
    "im_refcountOffset s' = im_refcountOffset s" using k by (simp_all add: keep_def)
  have m: "fb (im_file s') x = fb (im_file s) x" if "role (x div im_cs s) = RL2 i" for x i
    using that by (intro growD(6) [OF assms(2)]) simp_all
  have mr: "role' c = role c" if "mapped (role c)" for c
    using mapped_not [OF that] by (intro growD(2) [OF assms(2)]) simp
  have "wf_map (im_cs s) role' (im_l1 s) (im_cache s) (im_file s')"
    by (rule wf_map_frame [OF wfD(3) [OF assms(1)] wf_cs(2) [OF geo] growD(5) [OF assms(2)] m mr])
  moreover have "wf_l1 (im_cs s) (im_l1Offset s) role' (im_l1 s) (im_file s')"
    by (rule wf_l1_frame [OF wfD(4) [OF assms(1)]])
      (use growD(2) [OF assms(2)] growD(6) [OF assms(2)] in simp_all)
  ultimately show ?thesis using geo assms(3,4) by (simp add: img_wf_def eqs keep_cs [OF k])
qed

text \<open>The guest bytes the L1 table covers, the virtual size and the rest of its last cluster among them.\<close>

definition l1_span :: "Img \<Rightarrow> nat" where
  "l1_span s = length (im_l1 s) * (im_cs s div 8) * im_cs s"

lemma span_l1: "g < l1_span s \<Longrightarrow> g div im_cs s div (im_cs s div 8) < length (im_l1 s)"
  unfolding l1_span_def by (rule div_div_less)

lemma size_span: "wf_geom s \<Longrightarrow> im_size s \<le> l1_span s"
  by (simp add: wf_geom_def l1_span_def)

lemma grow_content:
  assumes "img_wf role s" "grow role s role' s'" "g < l1_span s"
  shows "content bk s' g = content bk s g"
proof -
  note geo = wfD(1) [OF assms(1)]
  have m: "fb (im_file s') x = fb (im_file s) x" if "mapped (role (x div im_cs s))" for x
    using mapped_not [OF that] by (intro growD(6) [OF assms(2)]) simp_all
  have "content_of (im_cs s) bk (im_l1 s) (im_file s') g = content_of (im_cs s) bk (im_l1 s) (im_file s) g"
    by (rule content_frame [OF wfD(3) [OF assms(1)] wf_cs(2,3) [OF geo] m span_l1 [OF assms(3)]])
  then show ?thesis using growD(1) [OF assms(2)] by (simp add: content_def keep_def im_cs_def)
qed

section \<open>Host operations\<close>

lemma host_write_cases:
  assumes "host_write off p s = (r, s')"
  obtains (fail) "r = Inl ''io''" "s' = s\<lparr>im_ops := Suc (im_ops s)\<rparr>"
  | (ok) "r = Inr ()" "off + length p < 2 ^ 63"
      "s' = s\<lparr>im_ops := Suc (im_ops s), im_file := write_at (im_file s) off p\<rparr>"
  using assms by (auto simp: host_write_def Let_def split: if_splits)

lemma host_read_cases:
  assumes "host_read off n s = (r, s')"
  obtains (fail) e where "r = Inl e" "s' = s\<lparr>im_ops := Suc (im_ops s)\<rparr>"
      "off + n \<le> length (im_file s) \<Longrightarrow> e = ''io''"
  | (ok) "r = Inr (map (fb (im_file s)) [off..<off + n])" "s' = s\<lparr>im_ops := Suc (im_ops s)\<rparr>"
proof -
  have s': "s' = s\<lparr>im_ops := Suc (im_ops s)\<rparr>" by (rule host_read_frame [OF assms])
  show ?thesis
  proof (cases "im_io s (im_ops s) \<and> n \<le> length (im_file s) - off")
    case True
    have "take n (drop off (im_file s)) = map (fb (im_file s)) [off..<off + n]"
    proof (cases "n = 0")
      case False
      with True show ?thesis by (intro take_drop_fb) linarith
    qed simp
    then have "r = Inr (map (fb (im_file s)) [off..<off + n])"
      using assms True by (auto simp: host_read_def host_pread_def raw_ReadAt_def Let_def)
    with s' show ?thesis using ok by blast
  next
    case False
    then have "\<exists>e. r = Inl e \<and> (off + n \<le> length (im_file s) \<longrightarrow> e = ''io'')"
      using assms by (auto simp: host_read_def host_pread_def raw_ReadAt_def Let_def split: if_splits)
    with s' show ?thesis using fail by blast
  qed
qed

lemma readUint64At_cases:
  assumes "readUint64At off s = (r, s')"
  obtains (fail) e where "r = Inl e" "s' = s\<lparr>im_ops := Suc (im_ops s)\<rparr>"
  | (ok) "r = Inr (be8 (im_file s) off)" "s' = s\<lparr>im_ops := Suc (im_ops s)\<rparr>"
proof -
  obtain r1 s1 where h: "host_read off 8 s = (r1, s1)" by (cases "host_read off 8 s")
  from h show ?thesis
  proof (cases rule: host_read_cases)
    case (fail e)
    then have "r = Inl e" using assms h by (simp add: readUint64At_def qbind_def)
    moreover have "s' = s\<lparr>im_ops := Suc (im_ops s)\<rparr>" using fail assms h by (simp add: readUint64At_def qbind_def)
    ultimately show ?thesis by (rule that(1))
  next
    case ok
    then show ?thesis using assms h that(2) by (simp add: readUint64At_def qbind_def qret_def be8_def)
  qed
qed

lemma img_wf_ops: "img_wf role s \<Longrightarrow> img_wf role (s\<lparr>im_ops := n\<rparr>)"
  by (simp add: img_wf_def wf_geom_def)

text \<open>A write to clusters without a role.\<close>

lemma write_free:
  assumes "img_wf role s" "keep s s'" "im_file s' = write_at (im_file s) off p"
    "im_fileSize s \<le> im_fileSize s'" "off + length p \<le> im_fileSize s'"
    "\<And>x. off \<le> x \<Longrightarrow> x < off + length p \<Longrightarrow> role (x div im_cs s) = RFree"
    "im_cs s dvd im_fileSize s \<Longrightarrow> im_cs s dvd im_fileSize s'"
  shows "img_wf role s' \<and> grow role s role s'"
proof -
  note geo = wfD(1) [OF assms(1)] and ref = wfD(5) [OF assms(1)] and sz = wfD(2) [OF assms(1)]
  have same: "fb (im_file s') x = fb (im_file s) x" if "role (x div im_cs s) \<noteq> RFree" for x
    using assms(6) [of x] that by (auto simp: assms(3) fb_write_at)
  have rs: "fb (im_file s') x = fb (im_file s) x" if "refd (role (x div im_cs s))" for x
    using that by (intro same) auto
  have rc: "refc (im_cs s) (im_refcountOffset s) (im_file s') c = refc (im_cs s) (im_refcountOffset s) (im_file s) c"
    if "c div entriesPerBlock s < maxBlocks s" for c
    by (rule refc_frame [OF ref wf_cs(6,3) [OF geo] rs that [unfolded entriesPerBlock_def]])
  have g: "grow role s role s'" using assms(2,4,7) same rc by (simp add: grow_def assms(3))
  have "wf_size (im_cs s) role (im_file s') (im_fileSize s')"
    using sz assms(4,5) by (auto simp: wf_size_def assms(3) intro: le_trans)
  moreover have "wf_ref (im_cs s) (maxBlocks s) (im_refcountOffset s) role (im_file s')"
    by (rule wf_ref_frame [OF ref wf_cs(6,3) [OF geo] rs]) simp_all
  ultimately show ?thesis using grow_wf [OF assms(1) g] g by simp
qed

section \<open>Refcounts\<close>

lemma beyond_eof:
  assumes "wf_size cs role f fs" "cs dvd fs" "fs \<le> x" "0 < cs"
  shows "role (x div cs) = RFree"
proof (rule ccontr)
  assume "role (x div cs) \<noteq> RFree"
  then have "x div cs * cs + cs \<le> fs" using assms(1) by (simp add: wf_size_def)
  moreover have "x < x div cs * cs + cs" using div_mult_mod_eq [of x cs] mod_less_divisor [OF assms(4), of x] by linarith
  ultimately show False using assms(3) by simp
qed

lemma tabe_other: "k' \<noteq> k \<Longrightarrow> tabe rt (write_at f (rt + k * 8) (be_put 8 v)) k' = tabe rt f k'"
  by (simp only: tabe_def be8_other not_False_eq_True)

lemma role_end:
  assumes "wf_size cs role f fs" "role (x div cs) \<noteq> RFree" "0 < cs"
  shows "x < fs"
proof -
  have "x div cs * cs + cs \<le> fs" using assms(1,2) by (simp add: wf_size_def)
  then show ?thesis using div_mult_mod_eq [of x cs] mod_less_divisor [OF assms(3), of x] by linarith
qed

lemma tabe_new:
  assumes "512 dvd v" "v < 2 ^ 63"
  shows "tabe rt (write_at f (rt + k * 8) (be_put 8 v)) k = v"
  using reft_mask [OF assms(1)] assms(2) unfolding tabe_def be8_write_at by simp

text \<open>Registering a block: the slot was empty and the block's cluster had no role.\<close>

lemma register_block:
  assumes "img_wf role s" "keep s s'" "k < maxBlocks s" "tabe (im_refcountOffset s) (im_file s) k = 0"
    "im_cs s dvd b" "b \<noteq> 0" "b < 2 ^ 63" "role (b div im_cs s) = RFree" "b + im_cs s \<le> im_fileSize s"
    "im_fileSize s' = im_fileSize s" "im_fileSize s0 \<le> b"
    "im_file s' = write_at (im_file s) (im_refcountOffset s + k * 8) (be_put 8 b)"
    "grow role s0 role s" "img_wf role s0"
  shows "img_wf (role(b div im_cs s := RBlk k)) s' \<and> grow role s0 (role(b div im_cs s := RBlk k)) s' \<and>
    tabe (im_refcountOffset s) (im_file s') k = b"
proof -
  let ?r = "role(b div im_cs s := RBlk k)" and ?cs = "im_cs s" and ?rt = "im_refcountOffset s"
  let ?f = "im_file s" and ?f' = "im_file s'"
  note geo = wfD(1) [OF assms(1)] and ref = wfD(5) [OF assms(1)] and sz = wfD(2) [OF assms(1)]
  have tab: "role (x div ?cs) = RTab" if "?rt + k * 8 \<le> x" "x < ?rt + k * 8 + 8" for x
    using ref that assms(3) by (auto simp: wf_ref_def)
  have same: "fb ?f' x = fb ?f x" if "role (x div ?cs) \<noteq> RTab" for x
    using tab [of x] that by (auto simp: assms(12) fb_write_at simp del: le_put_numeral)
  have len: "?rt + k * 8 + 8 \<le> im_fileSize s"
    using role_end [OF sz _ wf_cs(3) [OF geo], of "?rt + k * 8 + 7"] tab [of "?rt + k * 8 + 7"] by simp
  have tk: "tabe ?rt ?f' k = b"
    unfolding assms(12) using assms(7) dvd_trans [OF wf_cs(1) [OF geo] assms(5)] by (intro tabe_new)
  have to: "tabe ?rt ?f' k' = tabe ?rt ?f k'" if "k' \<noteq> k" for k'
    unfolding assms(12) using that by (rule tabe_other)
  have rc: "refc ?cs ?rt ?f' c = refc ?cs ?rt ?f c"
    if c: "c div (?cs div 2) < maxBlocks s" "refc ?cs ?rt ?f c \<noteq> 0" for c
  proof -
    let ?b = "tabe ?rt ?f (c div (?cs div 2))"
    have b0: "?b \<noteq> 0" using c(2) by (auto simp: refc_def Let_def split: if_splits)
    then have "c div (?cs div 2) \<noteq> k" using assms(4) by auto
    then have t: "tabe ?rt ?f' (c div (?cs div 2)) = ?b" by (rule to)
    have d: "?cs dvd ?b" "role (?b div ?cs) = RBlk (c div (?cs div 2))"
      using ref c(1) b0 by (simp_all add: wf_ref_def)
    have "fb ?f' x = fb ?f x" if "?b + (c mod (?cs div 2)) * 2 \<le> x" "x < ?b + (c mod (?cs div 2)) * 2 + 2" for x
      using count_div [OF d(1) wf_cs(6,3) [OF geo] that] d(2) by (intro same) simp
    then have "map (fb ?f') [?b + (c mod (?cs div 2)) * 2..<?b + (c mod (?cs div 2)) * 2 + 2]
        = map (fb ?f) [?b + (c mod (?cs div 2)) * 2..<?b + (c mod (?cs div 2)) * 2 + 2]"
      by (intro map_cong refl) (simp only: set_upt atLeastLessThan_iff)
    then show ?thesis by (simp add: refc_def t Let_def)
  qed
  have wr: "wf_ref ?cs (maxBlocks s) ?rt ?r ?f'"
    unfolding wf_ref_def
  proof (intro conjI allI impI)
    fix x assume "?rt \<le> x \<and> x < ?rt + maxBlocks s * 8"
    then have "role (x div ?cs) = RTab" using ref by (simp add: wf_ref_def)
    then show "?r (x div ?cs) = RTab" using assms(8) by auto
  next
    fix k' assume k': "k' < maxBlocks s" "tabe ?rt ?f' k' \<noteq> 0"
    show "?cs dvd tabe ?rt ?f' k'" "?r (tabe ?rt ?f' k' div ?cs) = RBlk k'"
    proof -
      have "?cs dvd tabe ?rt ?f k' \<and> role (tabe ?rt ?f k' div ?cs) = RBlk k'" if "k' \<noteq> k"
        using ref k' to [OF that] by (simp add: wf_ref_def)
      then show "?cs dvd tabe ?rt ?f' k'" "?r (tabe ?rt ?f' k' div ?cs) = RBlk k'"
        using tk to assms(5,8) by (cases "k' = k"; auto)+
    qed
  next
    fix c assume "counted (?r c)"
    then have "counted (role c)" by (auto split: if_splits)
    then have c: "c div (?cs div 2) < maxBlocks s" "refc ?cs ?rt ?f c \<noteq> 0" using ref by (simp_all add: wf_ref_def)
    then show "c div (?cs div 2) < maxBlocks s" "refc ?cs ?rt ?f' c \<noteq> 0" using rc by simp_all
  qed
  have bd: "b div ?cs * ?cs = b" using assms(5) by simp
  note k0 = growD(1) [OF assms(13)]
  have e0: "im_cs s0 = ?cs" "entriesPerBlock s0 = entriesPerBlock s" "maxBlocks s0 = maxBlocks s"
    "im_refcountOffset s0 = ?rt" using keep_cs(1-3) [OF k0] k0 by (simp_all add: keep_def)
  have g: "grow role s0 ?r s'"
    unfolding grow_def e0
  proof (intro conjI allI impI)
    show "keep s0 s'" using k0 assms(2) by (rule keep_trans)
    show "im_fileSize s0 \<le> im_fileSize s'" "length (im_file s0) \<le> length ?f'"
      using growD(4,5) [OF assms(13)] assms(10,12) by simp_all
    show "?cs dvd im_fileSize s'" if "?cs dvd im_fileSize s0"
      using growD(7) [OF assms(13)] that by (simp add: e0 assms(10))
  next
    fix c assume "role c \<noteq> RFree"
    then show "?r c = role c" using assms(8) by auto
  next
    fix c assume "?r c \<noteq> role c"
    then have "c = b div ?cs" by (auto split: if_splits)
    then show "im_fileSize s0 \<le> c * ?cs" "refd (?r c)" using assms(11) bd by simp_all
  next
    fix x assume x: "role (x div ?cs) \<noteq> RFree \<and> \<not> refd (role (x div ?cs))"
    then have "fb ?f' x = fb ?f x" by (intro same) auto
    then show "fb ?f' x = fb (im_file s0) x" using growD(6) [OF assms(13), of x] x by (simp add: e0)
  next
    fix c assume "c div entriesPerBlock s < maxBlocks s \<and> refc ?cs ?rt (im_file s0) c \<noteq> 0"
    moreover from this have "refc ?cs ?rt ?f c \<noteq> 0" using assms(13) by (simp add: grow_def e0)
    ultimately show "refc ?cs ?rt ?f' c \<noteq> 0" using rc by (simp add: entriesPerBlock_def)
  qed
  have nz: "b div ?cs \<noteq> 0" using bd assms(6) by (metis mult_0)
  have "wf_size ?cs ?r ?f' (im_fileSize s')"
    using sz assms(9,10,12) len bd nz by (auto simp: wf_size_def assms(6) simp del: le_put_numeral)
  then have "img_wf ?r s'" using wr by (intro grow_wf [OF assms(14) g]) (simp_all only: e0)
  with g tk show ?thesis by blast
qed

text \<open>Writing a count into a registered block.\<close>

lemma put_count:
  assumes "img_wf role s" "keep s s'" "c div (im_cs s div 2) < maxBlocks s"
    "tabe (im_refcountOffset s) (im_file s) (c div (im_cs s div 2)) = b" "b \<noteq> 0"
    "im_fileSize s' = im_fileSize s"
    "im_file s' = write_at (im_file s) (b + (c mod (im_cs s div 2)) * 2) (be_put 2 1)"
  shows "img_wf role s' \<and> grow role s role s' \<and> refc (im_cs s) (im_refcountOffset s) (im_file s') c \<noteq> 0"
proof -
  let ?cs = "im_cs s" and ?rt = "im_refcountOffset s" and ?f = "im_file s" and ?f' = "im_file s'"
  let ?x = "b + (c mod (?cs div 2)) * 2"
  note geo = wfD(1) [OF assms(1)] and ref = wfD(5) [OF assms(1)] and sz = wfD(2) [OF assms(1)]
  have b: "?cs dvd b" "role (b div ?cs) = RBlk (c div (?cs div 2))"
    using ref assms(3,4,5) by (auto simp: wf_ref_def)
  have inb: "x div ?cs = b div ?cs" if "?x \<le> x" "x < ?x + 2" for x
    by (rule count_div [OF b(1) wf_cs(6,3) [OF geo] that])
  have out: "fb ?f' x = fb ?f x" if "\<not> (?x \<le> x \<and> x < ?x + 2)" for x
    using that by (auto simp: assms(7) fb_write_at simp del: le_put_numeral)
  have same: "fb ?f' x = fb ?f x" if "role (x div ?cs) \<noteq> RBlk (c div (?cs div 2))" for x
    using out inb b(2) that by metis
  have tab: "tabe ?rt ?f' k = tabe ?rt ?f k" if "k < maxBlocks s" for k
    by (rule tabe_frame [OF ref _ that]) (simp add: same)
  have one: "refc ?cs ?rt ?f' c = 1"
  proof -
    have "map (fb (write_at f y (be_put 2 1))) [y..<y + 2] = be_put 2 1" for f y
      by (simp add: fb_write_at be_put_def upt_rec)
    then have "map (fb ?f') [?x..<?x + 2] = be_put 2 1" unfolding assms(7) .
    moreover have "tabe ?rt ?f' (c div (?cs div 2)) = b" using tab [OF assms(3)] assms(4) by simp
    ultimately show ?thesis using assms(5) by (simp add: refc_def be_get_put Let_def)
  qed
  have rc: "refc ?cs ?rt ?f' c' \<noteq> 0"
    if c': "c' div (?cs div 2) < maxBlocks s" "refc ?cs ?rt ?f c' \<noteq> 0" for c'
  proof (cases "c' = c")
    case True
    then show ?thesis using one by simp
  next
    case False
    let ?b = "tabe ?rt ?f (c' div (?cs div 2))"
    let ?y = "?b + (c' mod (?cs div 2)) * 2"
    have b0: "?b \<noteq> 0" using c'(2) by (auto simp: refc_def Let_def split: if_splits)
    have b': "?cs dvd ?b" "role (?b div ?cs) = RBlk (c' div (?cs div 2))"
      using ref c'(1) b0 by (simp_all add: wf_ref_def)
    have "fb ?f' x = fb ?f x" if x: "?y \<le> x" "x < ?y + 2" for x
    proof (cases "c' div (?cs div 2) = c div (?cs div 2)")
      case True
      have "c' mod (?cs div 2) \<noteq> c mod (?cs div 2)" using True False by (metis div_mult_mod_eq)
      then have "c' mod (?cs div 2) < c mod (?cs div 2) \<or> c mod (?cs div 2) < c' mod (?cs div 2)" by linarith
      moreover have "?b = b" using True assms(4) by simp
      ultimately have "\<not> (?x \<le> x \<and> x < ?x + 2)" using x by linarith
      then show ?thesis by (rule out)
    next
      case False
      have "x div ?cs = ?b div ?cs" by (rule count_div [OF b'(1) wf_cs(6,3) [OF geo] x])
      then show ?thesis using b'(2) False by (intro same) simp
    qed
    then have "map (fb ?f') [?y..<?y + 2] = map (fb ?f) [?y..<?y + 2]"
      by (intro map_cong refl) (simp only: set_upt atLeastLessThan_iff)
    then have "refc ?cs ?rt ?f' c' = refc ?cs ?rt ?f c'" by (simp add: refc_def tab [OF c'(1)] Let_def)
    then show ?thesis using c'(2) by simp
  qed
  have len: "?x + 2 \<le> im_fileSize s"
  proof -
    have "b div ?cs * ?cs + ?cs \<le> im_fileSize s" using sz b(2) by (simp add: wf_size_def)
    moreover have "c mod (?cs div 2) < ?cs div 2" using wf_cs(7) [OF geo] by (rule mod_less_divisor)
    ultimately show ?thesis using wf_cs(6) [OF geo] b(1) by simp
  qed
  have same': "fb ?f' x = fb ?f x" if "\<not> refd (role (x div ?cs))" for x
    using that by (intro same) auto
  have g: "grow role s role s'"
    unfolding grow_def using assms(2,6) same' rc by (simp add: assms(7) entriesPerBlock_def)
  have "wf_size ?cs role ?f' (im_fileSize s')"
    using sz len assms(6) by (simp add: wf_size_def assms(7) del: le_put_numeral)
  moreover have "wf_ref ?cs (maxBlocks s) ?rt role ?f'"
    using ref tab rc by (auto simp: wf_ref_def)
  ultimately have "img_wf role s'" by (rule grow_wf [OF assms(1) g])
  with g one show ?thesis by simp
qed

section \<open>The allocator\<close>

lemma ensure_block_cases:
  assumes "ensure_block idx s = (r, s')"
  defines "k \<equiv> idx div entriesPerBlock s"
  defines "f1 \<equiv> write_at (im_file s) (im_fileSize s) (replicate (im_cs s) 0)"
  obtains (fail) e n where "r = Inl e" "s' = s\<lparr>im_ops := n\<rparr>"
  | (old) n where "r = Inr (tabe (im_refcountOffset s) (im_file s) k, False)" "s' = s\<lparr>im_ops := n\<rparr>"
      "tabe (im_refcountOffset s) (im_file s) k \<noteq> 0"
  | (half) e where "r = Inl e" "tabe (im_refcountOffset s) (im_file s) k = 0"
      "keep s s'" "im_file s' = f1" "im_fileSize s' = im_fileSize s + im_cs s"
      "im_fileSize s + im_cs s < 2 ^ 63"
  | (new) "r = Inr (im_fileSize s, True)" "tabe (im_refcountOffset s) (im_file s) k = 0"
      "keep s s'" "im_file s' = write_at f1 (im_refcountOffset s + k * 8) (be_put 8 (im_fileSize s))"
      "im_fileSize s' = im_fileSize s + im_cs s"
      "im_fileSize s + im_cs s < 2 ^ 63"
proof -
  obtain r1 s1 where h: "readUint64At (im_refcountOffset s + k * 8) s = (r1, s1)" by (cases "readUint64At (im_refcountOffset s + k * 8) s")
  from h show ?thesis
  proof (cases rule: readUint64At_cases)
    case (fail e)
    then have "(r, s') = (Inl e, s\<lparr>im_ops := Suc (im_ops s)\<rparr>)"
      using assms(1) h by (simp add: ensure_block_def qbind_def k_def Let_def)
    with that(1) show ?thesis by blast
  next
    case ok
    show ?thesis
    proof (cases "tabe (im_refcountOffset s) (im_file s) k = 0")
      case False
      then have "(r, s') = (Inr (tabe (im_refcountOffset s) (im_file s) k, False), s\<lparr>im_ops := Suc (im_ops s)\<rparr>)"
        using assms(1) h ok by (simp add: ensure_block_def qbind_def k_def [symmetric] Let_def tabe_def)
      with that(2) False show ?thesis by blast
    next
      case True
      obtain r2 s2 where w1: "host_write (im_fileSize s) (replicate (im_cs s) 0) s1 = (r2, s2)"
        by (cases "host_write (im_fileSize s) (replicate (im_cs s) 0) s1")
      from w1 show ?thesis
      proof (cases rule: host_write_cases)
        case fail
        then have "(r, s') = (Inl ''io'', s\<lparr>im_ops := Suc (Suc (im_ops s))\<rparr>)" using assms(1) h ok True w1
          by (simp add: ensure_block_def qbind_def k_def [symmetric] Let_def tabe_def)
        with that(1) show ?thesis by blast
      next
        case ok2: ok
        let ?s3 = "s2\<lparr>im_fileSize := im_fileSize s2 + im_cs s2\<rparr>"
        have bd: "im_fileSize s + im_cs s < 2 ^ 63" using ok2(2) ok(2) by simp
        obtain r4 s4 where w2: "host_write (im_refcountOffset s + k * 8) (be_put 8 (im_fileSize s)) ?s3 = (r4, s4)"
          by (cases "host_write (im_refcountOffset s + k * 8) (be_put 8 (im_fileSize s)) ?s3")
        from w2 show ?thesis
        proof (cases rule: host_write_cases)
          case fail
          then have "(r, s') = (Inl ''io'', s4)" using assms(1) h ok True w1 ok2 w2
            by (simp add: ensure_block_def qbind_def k_def [symmetric] Let_def tabe_def del: le_put_numeral)
          moreover have "keep s s4" "im_file s4 = f1" "im_fileSize s4 = im_fileSize s + im_cs s"
            using fail ok2 ok by (simp_all add: keep_def f1_def)
          ultimately have "r = Inl ''io''" "keep s s'" "im_file s' = f1" "im_fileSize s' = im_fileSize s + im_cs s"
            by simp_all
          with that(3) True bd show ?thesis by blast
        next
          case ok3: ok
          then have "(r, s') = (Inr (im_fileSize s, True), s4)" using assms(1) h ok True w1 ok2 w2
            by (simp add: ensure_block_def qbind_def qret_def k_def [symmetric] Let_def tabe_def del: le_put_numeral)
          moreover have "keep s s4" "im_fileSize s4 = im_fileSize s + im_cs s"
            "im_file s4 = write_at f1 (im_refcountOffset s + k * 8) (be_put 8 (im_fileSize s))"
            using ok3 ok2 ok by (simp_all add: keep_def f1_def)
          ultimately have "r = Inr (im_fileSize s, True)" "keep s s'" "im_fileSize s' = im_fileSize s + im_cs s"
            "im_file s' = write_at f1 (im_refcountOffset s + k * 8) (be_put 8 (im_fileSize s))"
            by simp_all
          with that(4) True bd show ?thesis by blast
        qed
      qed
    qed
  qed
qed

lemma new_block:
  assumes "img_wf role s" "im_cs s dvd im_fileSize s" "keep s s'" "im_fileSize s' = im_fileSize s + im_cs s"
    "im_file s' = write_at (im_file s) (im_fileSize s) (replicate (im_cs s) 0)"
  shows "img_wf role s' \<and> grow role s role s'"
proof (rule write_free [OF assms(1,3,5)])
  fix x assume "im_fileSize s \<le> x"
  then show "role (x div im_cs s) = RFree"
    by (rule beyond_eof [OF wfD(2) [OF assms(1)] assms(2) _ wf_cs(3) [OF wfD(1) [OF assms(1)]]])
qed (simp_all add: assms(4))

lemma fileSize_pos:
  assumes "img_wf role s"
  shows "im_cs s \<le> im_fileSize s"
proof -
  have "role 0 \<noteq> RFree" "role 0 \<noteq> RFree \<longrightarrow> 0 * im_cs s + im_cs s \<le> im_fileSize s"
    using wfD(2) [OF assms] unfolding wf_size_def by (simp, blast)
  then show ?thesis by simp
qed

lemma ensure_block_wf:
  assumes "ensure_block idx s = (r, s')" "img_wf role s" "im_cs s dvd im_fileSize s"
    "idx div entriesPerBlock s < maxBlocks s"
  shows "\<exists>role'. img_wf role' s' \<and> grow role s role' s' \<and>
    (\<forall>b fresh. r = Inr (b, fresh) \<longrightarrow>
       b \<noteq> 0 \<and> tabe (im_refcountOffset s) (im_file s') (idx div entriesPerBlock s) = b)"
  using assms(1)
proof (cases rule: ensure_block_cases)
  case (fail e n)
  then show ?thesis using assms(2) by (intro exI [of _ role]) (simp add: img_wf_ops grow_ops)
next
  case (old n)
  then show ?thesis using assms(2) by (intro exI [of _ role]) (simp add: img_wf_ops grow_ops)
next
  case (half e)
  then show ?thesis using new_block [OF assms(2,3) half(3,5,4)] by (intro exI [of _ role]) simp
next
  case new
  let ?k = "idx div entriesPerBlock s" and ?rt = "im_refcountOffset s"
  define s1 where "s1 = s\<lparr>im_file := write_at (im_file s) (im_fileSize s) (replicate (im_cs s) 0),
    im_fileSize := im_fileSize s + im_cs s\<rparr>"
  note geo = wfD(1) [OF assms(2)]
  have k1: "keep s s1" by (simp add: s1_def keep_def)
  have s1: "im_cs s1 = im_cs s" "maxBlocks s1 = maxBlocks s" "im_refcountOffset s1 = ?rt"
    "im_fileSize s1 = im_fileSize s + im_cs s" "im_file s1 = write_at (im_file s) (im_fileSize s) (replicate (im_cs s) 0)"
    by (simp_all add: s1_def)
  have w1: "img_wf role s1 \<and> grow role s role s1" by (rule new_block [OF assms(2,3) k1 s1(4,5)])
  have free: "role (x div im_cs s) = RFree" if "im_fileSize s \<le> x" for x
    by (rule beyond_eof [OF wfD(2) [OF assms(2)] assms(3) that wf_cs(3) [OF geo]])
  have "tabe ?rt (im_file s1) ?k = tabe ?rt (im_file s) ?k"
  proof (rule tabe_frame [OF wfD(5) [OF assms(2)] _ assms(4)])
    fix x assume "role (x div im_cs s) = RTab"
    then have "\<not> im_fileSize s \<le> x" using free by auto
    then show "fb (im_file s1) x = fb (im_file s) x" by (simp add: s1(5) fb_write_at)
  qed
  then have t0: "tabe (im_refcountOffset s1) (im_file s1) ?k = 0" using new(2) s1(3) by simp
  have ks: "keep s1 s'" using new(3) k1 by (simp add: keep_def)
  have nz: "im_fileSize s \<noteq> 0" using fileSize_pos [OF assms(2)] wf_cs(3) [OF geo] by simp
  have b63: "im_fileSize s < 2 ^ 63" using new(6) by simp
  have "img_wf (role(im_fileSize s div im_cs s1 := RBlk ?k)) s' \<and>
      grow role s (role(im_fileSize s div im_cs s1 := RBlk ?k)) s' \<and>
      tabe (im_refcountOffset s1) (im_file s') ?k = im_fileSize s"
    by (rule register_block [OF w1 [THEN conjunct1] ks _ t0 _ nz b63])
      (use assms free new s1 w1 in \<open>simp_all del: le_put_numeral\<close>)
  then show ?thesis using new(1) nz by (intro exI) (auto simp: s1(3))
qed

text \<open>The refcount loop: on success every cluster it was asked for is counted.\<close>

lemma bump_loop_wf:
  assumes "bump_loop idx ds s = (r, s')" "img_wf role s" "im_cs s dvd im_fileSize s"
    "\<forall>d \<in> set ds. d div entriesPerBlock s < maxBlocks s"
  shows "\<exists>role'. img_wf role' s' \<and> grow role s role' s' \<and>
    (r = Inr () \<longrightarrow> (\<forall>c \<in> set (idx # ds). c div entriesPerBlock s < maxBlocks s \<and>
       refc (im_cs s) (im_refcountOffset s) (im_file s') c \<noteq> 0))"
  using assms
proof (induction idx ds s arbitrary: role rule: bump_loop.induct)
  case (1 idx ds s)
  note step = "1.prems"(1) and w = "1.prems"(2) and al = "1.prems"(3) and dsb = "1.prems"(4)
  show ?case
  proof (cases "maxBlocks s \<le> idx div entriesPerBlock s")
    case True
    then have "r = Inl ''refcount table full''" "s' = s" using step by (simp_all add: bump_loop.simps [of idx])
    then show ?thesis using w by (intro exI [of _ role]) simp
  next
    case False
    then have ib: "idx div entriesPerBlock s < maxBlocks s" by simp
    obtain r1 s1 where eb: "ensure_block idx s = (r1, s1)" by (cases "ensure_block idx s")
    obtain role1 where r1: "img_wf role1 s1" "grow role s role1 s1"
      "\<forall>b fresh. r1 = Inr (b, fresh) \<longrightarrow>
         b \<noteq> 0 \<and> tabe (im_refcountOffset s) (im_file s1) (idx div entriesPerBlock s) = b"
      using ensure_block_wf [OF eb w al ib] by blast
    note k1 = growD(1) [OF r1(2)]
    have e1: "im_cs s1 = im_cs s" "maxBlocks s1 = maxBlocks s" "entriesPerBlock s1 = entriesPerBlock s"
      "im_refcountOffset s1 = im_refcountOffset s" using keep_cs(1-3) [OF k1] k1 by (simp_all add: keep_def)
    have al1: "im_cs s1 dvd im_fileSize s1" using growD(7) [OF r1(2) al] by (simp add: e1)
    show ?thesis
    proof (cases r1)
      case (Inl e)
      then have "r = Inl e" "s' = s1" using step False eb by (simp_all add: bump_loop.simps [of idx])
      then show ?thesis using r1 by (intro exI [of _ role1]) simp
    next
      case (Inr bf)
      obtain b fresh where bf: "bf = (b, fresh)" by (cases bf)
      show ?thesis
      proof (cases "fresh \<and> b div im_cs s1 \<noteq> idx")
        case True
        then have "bump_loop (b div im_cs s1) (idx # ds) s1 = (r, s')"
          using step False eb Inr bf by (simp add: bump_loop.simps [of idx])
        then obtain role' where "img_wf role' s'" "grow role1 s1 role' s'"
          "r = Inr () \<longrightarrow> (\<forall>c \<in> set (b div im_cs s1 # idx # ds). c div entriesPerBlock s1 < maxBlocks s1 \<and>
            refc (im_cs s1) (im_refcountOffset s1) (im_file s') c \<noteq> 0)"
          using "1.IH"(1) [OF False eb [symmetric] Inr bf [symmetric] True _ r1(1) al1] ib dsb by (auto simp: e1)
        then show ?thesis using grow_trans [OF r1(2)] by (intro exI [of _ role']) (simp add: e1)
      next
        case stay: False
        obtain r2 s2 where pr: "put_refcount b idx s1 = (r2, s2)" by (cases "put_refcount b idx s1")
        have pw: "host_write (b + (idx mod (im_cs s1 div 2)) * 2) (be_put 2 1) s1 = (r2, s2)"
          using pr by (simp add: put_refcount_def entriesPerBlock_def)
        have b: "b \<noteq> 0" "tabe (im_refcountOffset s1) (im_file s1) (idx div (im_cs s1 div 2)) = b"
          using r1(3) Inr bf by (simp_all add: e1 entriesPerBlock_def)
        have ib1: "idx div (im_cs s1 div 2) < maxBlocks s1" using ib by (simp add: e1 entriesPerBlock_def)
        from pw show ?thesis
        proof (cases rule: host_write_cases)
          case fail
          then have "r = Inl ''io''" "s' = s1\<lparr>im_ops := Suc (im_ops s1)\<rparr>"
            using step False eb Inr bf stay pr by (simp_all add: bump_loop.simps [of idx])
          then show ?thesis using img_wf_ops [OF r1(1)] grow_trans [OF r1(2) grow_ops]
            by (intro exI [of _ role1]) simp
        next
          case ok
          have k2: "keep s1 s2" "im_fileSize s2 = im_fileSize s1"
            "im_file s2 = write_at (im_file s1) (b + (idx mod (im_cs s1 div 2)) * 2) (be_put 2 1)"
            using ok by (simp_all add: keep_def)
          have p2: "img_wf role1 s2" "grow role1 s1 role1 s2"
            "refc (im_cs s1) (im_refcountOffset s1) (im_file s2) idx \<noteq> 0"
            using put_count [OF r1(1) k2(1) ib1 b(2,1) k2(2,3)] by simp_all
          have g2: "grow role s role1 s2" by (rule grow_trans [OF r1(2) p2(2)])
          show ?thesis
          proof (cases ds)
            case Nil
            then have "r = Inr ()" "s' = s2"
              using step False eb Inr bf stay pr ok(1) by (simp_all add: bump_loop.simps [of idx])
            then show ?thesis using p2 g2 ib Nil by (intro exI [of _ role1]) (simp add: e1)
          next
            case (Cons d ds')
            then have run: "bump_loop d ds' s2 = (r, s')"
              using step False eb Inr bf stay pr ok(1) by (simp add: bump_loop.simps [of idx])
            have e2: "im_cs s2 = im_cs s" "maxBlocks s2 = maxBlocks s" "entriesPerBlock s2 = entriesPerBlock s"
              "im_refcountOffset s2 = im_refcountOffset s"
              using keep_cs(1-3) [OF k2(1)] k2(1) e1 by (simp_all add: keep_def)
            have al2: "im_cs s2 dvd im_fileSize s2" using al1 by (simp add: e2 e1 k2(2))
            have dsb2: "\<forall>d \<in> set ds'. d div entriesPerBlock s2 < maxBlocks s2" using dsb Cons by (simp add: e2)
            obtain role' where q: "img_wf role' s'" "grow role1 s2 role' s'"
              "r = Inr () \<longrightarrow> (\<forall>c \<in> set (d # ds'). c div entriesPerBlock s2 < maxBlocks s2 \<and>
                refc (im_cs s2) (im_refcountOffset s2) (im_file s') c \<noteq> 0)"
              using "1.IH"(2) [OF False eb [symmetric] Inr bf [symmetric] stay pr [symmetric] ok(1) Cons run p2(1) al2 dsb2]
              by blast
            have "refc (im_cs s) (im_refcountOffset s) (im_file s') idx \<noteq> 0"
              using grow_refc [OF q(2), of idx] p2(3) ib by (simp add: e1 e2)
            then show ?thesis using q(1,3) grow_trans [OF g2 q(2)] ib Cons
              by (intro exI [of _ role']) (simp add: e2)
          qed
        qed
      qed
    qed
  qed
qed

lemma allocCluster_wf:
  assumes "allocCluster s = (r, s')" "img_wf role s"
  shows "\<exists>role'. img_wf role' s' \<and> grow role s role' s' \<and>
    (\<forall>off. r = Inr off \<longrightarrow>
       off = im_fileSize s \<and> im_cs s dvd off \<and> off \<noteq> 0 \<and> off < 2 ^ 56 \<and>
       off + im_cs s \<le> im_fileSize s' \<and> role' (off div im_cs s) = RFree \<and>
       off div im_cs s div entriesPerBlock s < maxBlocks s \<and>
       refc (im_cs s) (im_refcountOffset s) (im_file s') (off div im_cs s) \<noteq> 0)"
proof (cases "im_fileSize s mod im_cs s = 0")
  case False
  then have "r = Inl ''not aligned''" "s' = s" using assms(1) by (simp_all add: allocCluster_def)
  then show ?thesis using assms(2) by (intro exI [of _ role]) simp
next
  case True
  then have al: "im_cs s dvd im_fileSize s" by (simp add: dvd_eq_mod_eq_0)
  let ?idx = "im_fileSize s div im_cs s" and ?s1 = "s\<lparr>im_fileSize := im_fileSize s + im_cs s\<rparr>"
  note geo = wfD(1) [OF assms(2)]
  have free: "role ?idx = RFree"
    by (rule beyond_eof [OF wfD(2) [OF assms(2)] al le_refl wf_cs(3) [OF geo]])
  have w1: "img_wf role ?s1" using assms(2) by (auto simp: img_wf_def wf_geom_def wf_size_def intro: le_trans)
  have g1: "grow role s role ?s1" by (simp add: grow_def)
  have nz: "im_fileSize s \<noteq> 0" using fileSize_pos [OF assms(2)] wf_cs(3) [OF geo] by simp
  obtain r1 s1 where bp: "bumpRefcount ?idx ?s1 = (r1, s1)" by (cases "bumpRefcount ?idx ?s1")
  have res: "s' = s1" "r = (case r1 of Inl e \<Rightarrow> Inl e | Inr u \<Rightarrow> Inr (im_fileSize s))"
    using assms(1) True bp by (auto simp: allocCluster_def qbind_def qret_def split: sum.splits)
  show ?thesis
  proof (cases "maxBlocks s \<noteq> 0 \<and> maxBlocks s \<le> ?idx div entriesPerBlock s")
    case True
    then have "r1 = Inl ''refcount table full''" "s1 = ?s1" using bp by (simp_all add: bumpRefcount_def)
    then show ?thesis using res w1 g1 by (intro exI [of _ role]) simp
  next
    case False
    then have run: "bump_loop ?idx [] ?s1 = (r1, s1)" using bp by (auto simp: bumpRefcount_def split: if_splits)
    obtain role' where q: "img_wf role' s1" "grow role ?s1 role' s1"
      "r1 = Inr () \<longrightarrow> (\<forall>c \<in> set [?idx]. c div entriesPerBlock ?s1 < maxBlocks ?s1 \<and>
         refc (im_cs ?s1) (im_refcountOffset ?s1) (im_file s1) c \<noteq> 0)"
      using bump_loop_wf [OF run w1] al by auto
    have lt: "?idx * im_cs s < im_fileSize s + im_cs s" using al wf_cs(3) [OF geo] by simp
    have fr: "role' ?idx = RFree"
    proof (rule ccontr)
      assume "role' ?idx \<noteq> RFree"
      then have "role' ?idx \<noteq> role ?idx" using free by simp
      from growD(3) [OF q(2) this] show False using lt by simp
    qed
    have bound: "im_fileSize s < 2 ^ 56" if "?idx div entriesPerBlock s < maxBlocks s"
    proof -
      have "?idx < maxBlocks s * entriesPerBlock s" using that by (intro below_capacity) simp
      then have "?idx * im_cs s < maxBlocks s * entriesPerBlock s * im_cs s"
        using wf_cs(3) [OF geo] by (intro mult_less_mono1)
      then show ?thesis using geo al by (simp add: wf_geom_def)
    qed
    have "grow role s role' s1" by (rule grow_trans [OF g1 q(2)])
    moreover have "im_fileSize s + im_cs s \<le> im_fileSize s1" using growD(4) [OF q(2)] by simp
    ultimately show ?thesis using q res fr nz al bound
      by (intro exI [of _ role']) (auto split: sum.splits)
  qed
qed

end
