(* ===== verification/Qcow2Refine.thy ===== *)
theory Qcow2Refine
  imports Qcow2Alloc
begin

text \<open>
  The qcow2 read and write paths refine a flat disk: reads return the guest's view, a write changes
  exactly the guest bytes it covers, whatever host operation fails on the way, and both keep the
  image invariant.
\<close>

unbundle bit_operations_syntax

section \<open>Loading L2 tables\<close>

text \<open>Everything but the cache and the operation count is kept.\<close>

definition same :: "Img \<Rightarrow> Img \<Rightarrow> bool" where
  "same s s' \<longleftrightarrow>
     im_file s' = im_file s \<and> im_fileSize s' = im_fileSize s \<and> im_io s' = im_io s \<and>
     im_bits s' = im_bits s \<and> im_size s' = im_size s \<and> im_l1Offset s' = im_l1Offset s \<and>
     im_refcountOffset s' = im_refcountOffset s \<and> im_refcountClusters s' = im_refcountClusters s \<and>
     im_backing s' = im_backing s \<and> im_l1 s' = im_l1 s"

lemma same_refl [simp]: "same s s"
  by (simp add: same_def)

lemma same_ops [simp]: "same s (s\<lparr>im_ops := n\<rparr>)"
  by (simp add: same_def)

lemma same_trans: "same s s1 \<Longrightarrow> same s1 s2 \<Longrightarrow> same s s2"
  by (simp add: same_def)

lemma same_eqs:
  assumes "same s s'"
  shows "im_cs s' = im_cs s" "maxBlocks s' = maxBlocks s" "entriesPerBlock s' = entriesPerBlock s"
    "wf_geom s' = wf_geom s" "l1_span s' = l1_span s" "content bk s' = content bk s" "bk_ok bk s' = bk_ok bk s"
  using assms by (simp_all add: same_def im_cs_def maxBlocks_def entriesPerBlock_def wf_geom_def l1_span_def
      content_def bk_ok_def)

lemma same_wf:
  assumes "img_wf role s" "same s s'" "wf_map (im_cs s) role (im_l1 s) (im_cache s') (im_file s)"
  shows "img_wf role s'"
  using assms(1,3) same_eqs(1-4) [OF assms(2)] assms(2) by (simp add: img_wf_def same_def)

lemma decode_table_fb:
  assumes "8 dvd cs"
  shows "decode_table (cs div 8) (map (fb f) [t..<t + cs]) = table cs f t"
proof -
  have "take 8 (drop (j * 8) (map (fb f) [t..<t + cs])) = map (fb f) [t + 8 * j..<t + 8 * j + 8]"
    if "j < cs div 8" for j
    using entry_in_cluster [OF assms that] by (intro nth_equalityI) (auto simp: ac_simps)
  then show ?thesis by (simp add: decode_table_def table_def be8_def)
qed

lemma map_of_cache_insert:
  assumes "map_of (im_cache (cache_insert t tbl s)) t' = Some tbl'"
  shows "t' = t \<and> tbl' = tbl \<or> map_of (im_cache s) t' = Some tbl'"
  using assms by (auto simp: cache_insert_def Let_def update_conv' split: if_splits)

lemma cache_insert_same: "same s (cache_insert t tbl s)"
  by (simp add: cache_insert_def same_def Let_def)

lemma l2EntryAt_ok:
  assumes "l2EntryAt t j s = (r, s')" "img_wf role s" "i < length (im_l1 s)" "e_off (im_l1 s ! i) = t" "t \<noteq> 0"
    "j < im_cs s div 8"
  shows "img_wf role s' \<and> same s s' \<and>
    (\<forall>e. r = Inr e \<longrightarrow> e = be8 (im_file s) (t + 8 * j)) \<and> (\<forall>e. r = Inl e \<longrightarrow> e = ''io'')"
proof -
  note geo = wfD(1) [OF assms(2)] and wm = wfD(3) [OF assms(2)] and sz = wfD(2) [OF assms(2)]
  have tbl: "tbl_ok (im_cs s) role (im_file s) i t" using wm assms(3-5) by (auto simp: wf_map_def)
  then have t: "im_cs s dvd t" "t + im_cs s \<le> length (im_file s)" by (simp_all add: tbl_ok_def)
  show ?thesis
  proof (cases "map_of (im_cache s) t")
    case (Some tb)
    then have "tb = table (im_cs s) (im_file s) t" using wm by (auto simp: wf_map_def)
    then have "tb ! j = be8 (im_file s) (t + 8 * j)" using assms(6) by (simp add: table_def)
    then show ?thesis using assms(1,2,6) Some by (auto simp: l2EntryAt_def)
  next
    case None
    obtain r1 s1 where h: "host_read t (im_cs s) s = (r1, s1)" by (cases "host_read t (im_cs s) s")
    have eq: "(r, s') = (case r1 of Inl e \<Rightarrow> (Inl e, s1)
        | Inr buf \<Rightarrow> (Inr (decode_table (im_cs s div 8) buf ! j), cache_insert t (decode_table (im_cs s div 8) buf) s1))"
      using assms(1,6) None t sz h
      by (auto simp: l2EntryAt_def qbind_def wf_size_def Let_def split: sum.splits)
    from h show ?thesis
    proof (cases rule: host_read_cases)
      case (fail e)
      then show ?thesis using eq t(2) img_wf_ops [OF assms(2)] by simp
    next
      case ok
      let ?tb = "table (im_cs s) (im_file s) t"
      have s': "s' = cache_insert t ?tb s1" "r = Inr (?tb ! j)"
        using eq ok decode_table_fb [OF wf_cs(2) [OF geo]] by simp_all
      have sm: "same s s'" using s'(1) ok(2) cache_insert_same same_ops same_trans by metis
      have "wf_map (im_cs s) role (im_l1 s) (im_cache s') (im_file s)"
        unfolding wf_map_def
      proof (intro conjI allI impI)
        fix i assume "i < length (im_l1 s)" "e_off (im_l1 s ! i) \<noteq> 0"
        then show "tbl_ok (im_cs s) role (im_file s) i (e_off (im_l1 s ! i))" using wm by (simp add: wf_map_def)
      next
        fix t' tb' assume "map_of (im_cache s') t' = Some tb'"
        then have "t' = t \<and> tb' = ?tb \<or> map_of (im_cache s) t' = Some tb'"
          using map_of_cache_insert [of t ?tb s1] ok(2) s'(1) by auto
        then show "t' \<noteq> 0" "\<exists>i<length (im_l1 s). e_off (im_l1 s ! i) = t'" "tb' = table (im_cs s) (im_file s) t'"
          using assms(3-5) wm by (auto simp: wf_map_def)
      qed
      then have "img_wf role s'" by (rule same_wf [OF assms(2) sm])
      then show ?thesis using s'(2) sm assms(6) by (simp add: table_def)
    qed
  qed
qed

section \<open>Reading\<close>

text \<open>What a resolved run of \<open>n\<close> guest bytes stands for.\<close>

definition host_view :: "(nat \<Rightarrow> u8) \<Rightarrow> Img \<Rightarrow> rhost \<Rightarrow> nat \<Rightarrow> nat \<Rightarrow> bool" where
  "host_view bk s h guest n =
     (case h of
        RZero \<Rightarrow> \<forall>k<n. content bk s (guest + k) = 0
      | RBacking \<Rightarrow> im_backing s \<noteq> None \<and> (\<forall>k<n. content bk s (guest + k) = bk (guest + k))
      | RHost x \<Rightarrow> x + n \<le> length (im_file s) \<and> (\<forall>k<n. content bk s (guest + k) = fb (im_file s) (x + k)))"

lemma host_view_same: "same s s' \<Longrightarrow> host_view bk s' h guest n = host_view bk s h guest n"
  using same_eqs(6) [of s s' bk] by (simp add: host_view_def same_def split: rhost.splits)

lemma in_cluster_run:
  assumes "guest mod cs + k < (cs::nat)"
  shows "(guest + k) div cs = guest div cs" "(guest + k) mod cs = guest mod cs + k"
proof -
  have e: "guest = guest mod cs + cs * (guest div cs)" by simp
  then show d: "(guest + k) div cs = guest div cs" using assms by (intro div_nat_eqI) (linarith, unfold mult_Suc_right, linarith)
  show "(guest + k) mod cs = guest mod cs + k"
    using e mult_div_mod_eq [of cs "guest + k"] unfolding d by linarith
qed

lemma content_run:
  assumes "k < im_cs s - guest mod im_cs s"
  defines "e \<equiv> lookup (im_cs s) (im_l1 s) (im_file s) (guest div im_cs s)"
  shows "content bk s (guest + k) =
    (if is_zero e then 0 else if e_off e = 0 then bk (guest + k)
     else fb (im_file s) (e_off e + guest mod im_cs s + k))"
  using in_cluster_run [of guest "im_cs s" k] assms by (simp add: content_def content_of_def Let_def add.assoc)

lemma backing_view:
  assumes "bk_ok bk s" "\<not> is_zero (lookup (im_cs s) (im_l1 s) (im_file s) (guest div im_cs s))"
    "e_off (lookup (im_cs s) (im_l1 s) (im_file s) (guest div im_cs s)) = 0" "n \<le> im_cs s - guest mod im_cs s"
  shows "host_view bk s (backingOrZero s) guest n"
  using assms by (auto simp: backingOrZero_def host_view_def content_run bk_ok_def split: option.splits)

lemma resolve_ok:
  assumes "resolve guest want s = (r, s')" "img_wf role s" "bk_ok bk s" "guest < l1_span s"
  shows "img_wf role s' \<and> same s s' \<and> (\<forall>e. r = Inl e \<longrightarrow> e = ''io'') \<and>
    (\<forall>h n. r = Inr (h, n) \<longrightarrow> n = min (im_cs s - guest mod im_cs s) want \<and> host_view bk s h guest n)"
proof -
  let ?cs = "im_cs s" and ?c = "guest div im_cs s"
  let ?i = "?c div (?cs div 8)" and ?j = "?c mod (?cs div 8)" and ?n = "min (?cs - guest mod ?cs) want"
  let ?t = "e_off (im_l1 s ! ?i)" and ?e = "lookup ?cs (im_l1 s) (im_file s) ?c"
  note geo = wfD(1) [OF assms(2)] and wm = wfD(3) [OF assms(2)]
  have i: "?i < length (im_l1 s)" using assms(4) by (rule span_l1)
  have j: "?j < ?cs div 8" using wf_cs(4) [OF geo] by (rule mod_less_divisor)
  have nb: "?n \<le> ?cs - guest mod ?cs" by simp
  have ent: "ent_ok ?cs role (im_file s) ?c ?e" by (rule lookup_ok [OF wm wf_cs(2,3) [OF geo] i])
  show ?thesis
  proof (cases "?t = 0")
    case True
    then have "(r, s') = (Inr (backingOrZero s, ?n), s)"
      unfolding assms(1) [symmetric] using i by (simp add: resolve_def Let_def)
    moreover have "?e = 0" using True by (simp add: lookup_def Let_def)
    then have "host_view bk s (backingOrZero s) guest ?n" using assms(3) by (intro backing_view) simp_all
    ultimately show ?thesis using assms(2) by simp
  next
    case False
    obtain r1 s1 where l: "l2EntryAt ?t ?j s = (r1, s1)" by (cases "l2EntryAt ?t ?j s")
    note lo = l2EntryAt_ok [OF l assms(2) i refl False j]
    then have sm: "same s s1" and w1: "img_wf role s1" by auto
    show ?thesis
    proof (cases r1)
      case (Inl e)
      then have "(r, s') = (Inl e, s1)"
        unfolding assms(1) [symmetric] using i False l by (simp add: resolve_def Let_def qbind_def)
      then show ?thesis using lo Inl by simp
    next
      case (Inr e)
      then have e: "e = ?e" using lo False by (simp add: lookup_def Let_def)
      have bz: "backingOrZero s1 = backingOrZero s" using sm by (simp add: backingOrZero_def same_def)
      have nc: "\<not> is_compressed ?e" using ent by (simp add: ent_ok_def)
      have run: "(r, s') = (if e_off ?e = 0 then if is_zero ?e then (Inr (RZero, ?n), s1)
            else (Inr (backingOrZero s, ?n), s1)
          else if is_zero ?e then (Inr (RZero, ?n), s1)
          else (Inr (RHost (e_off ?e + guest mod ?cs), ?n), s1))"
        unfolding assms(1) [symmetric] using i False l Inr e nc bz by (simp add: resolve_def Let_def qbind_def)
      show ?thesis
      proof (cases "is_zero ?e")
        case True
        then have "host_view bk s RZero guest ?n" by (simp add: host_view_def content_run)
        moreover have "(r, s') = (Inr (RZero, ?n), s1)" using run True by auto
        ultimately show ?thesis using sm w1 by auto
      next
        case nz: False
        show ?thesis
        proof (cases "e_off ?e = 0")
          case True
          then have "(r, s') = (Inr (backingOrZero s, ?n), s1)" using run nz by simp
          then show ?thesis using sm w1 backing_view [OF assms(3) nz True nb] by auto
        next
          case False
          then have "e_off ?e + ?cs \<le> length (im_file s)" using ent nz by (simp add: ent_ok_def)
          moreover have "guest mod ?cs + ?n \<le> ?cs"
            using mod_less_divisor [OF wf_cs(3) [OF geo], of guest] by simp
          ultimately have "host_view bk s (RHost (e_off ?e + guest mod ?cs)) guest ?n"
            using False nz by (simp add: host_view_def content_run)
          moreover have "(r, s') = (Inr (RHost (e_off ?e + guest mod ?cs), ?n), s1)" using run nz False by simp
          ultimately show ?thesis using sm w1 by auto
        qed
      qed
    qed
  qed
qed

lemma host_pread_cases:
  assumes "host_pread off n s = ((bs, err), s')" "off + n \<le> length (im_file s)"
  shows "s' = s\<lparr>im_ops := Suc (im_ops s)\<rparr> \<and>
    (err = Some ''io'' \<and> bs = [] \<or> err = None \<and> bs = map (fb (im_file s)) [off..<off + n])"
  using assms take_drop_fb [OF assms(2)]
  by (auto simp: host_pread_def raw_ReadAt_def Let_def split: if_splits)

lemma fill_ok:
  assumes "fill h guest buf s = ((chunk, err), s')" "host_view bk s h guest (length buf)" "bk_ok bk s" "img_wf role s"
  shows "img_wf role s' \<and> same s s' \<and> length chunk = length buf \<and> err \<noteq> Some ''EOF'' \<and>
    (err = None \<longrightarrow> (\<forall>k<length buf. chunk ! k = content bk s (guest + k)))"
proof (cases h)
  case RZero
  then show ?thesis using assms by (auto simp: fill_def host_view_def Let_def)
next
  case RBacking
  then obtain rd where rd: "im_backing s = Some rd" using assms(2) by (auto simp: host_view_def)
  obtain bs e where q: "rd guest (length buf) = (bs, e)" by (cases "rd guest (length buf)")
  have b: "length bs \<le> length buf"
    "e = None \<or> e = Some ''EOF'' \<longrightarrow> (\<forall>k < length buf. bk (guest + k) = (if k < length bs then bs ! k else 0))"
    using assms(3) q rd by (auto simp: bk_ok_def backs_def)
  have v: "\<forall>k<length buf. content bk s (guest + k) = bk (guest + k)" using assms(2) RBacking by (simp add: host_view_def)
  have "(chunk, err, s') = (if e \<noteq> None \<and> e \<noteq> Some ''EOF'' then (bs @ drop (length bs) buf, e, s)
      else (bs @ replicate (length buf - length bs) 0, None, s))"
    using assms(1) RBacking rd q by (auto simp: fill_def Let_def)
  then show ?thesis using assms(4) b v by (auto simp: nth_append split: if_splits)
next
  case (RHost x)
  then have x: "x + length buf \<le> length (im_file s)"
    "\<forall>k<length buf. content bk s (guest + k) = fb (im_file s) (x + k)" using assms(2) by (simp_all add: host_view_def)
  obtain bs e s1 where q: "host_pread x (length buf) s = ((bs, e), s1)" by (metis surj_pair)
  have "(chunk, err, s') = (bs @ drop (length bs) buf, e, s1)" using assms(1) RHost q by (auto simp: fill_def Let_def)
  then show ?thesis using host_pread_cases [OF q x(1)] x(2) img_wf_ops [OF assms(4)] by auto
qed

text \<open>A cluster run that starts inside the L1 table's span stays inside it.\<close>

lemma run_span:
  assumes "wf_geom s" "guest < l1_span s" "n \<le> im_cs s - guest mod im_cs s"
  shows "guest + n \<le> l1_span s"
proof -
  have "guest div im_cs s < length (im_l1 s) * (im_cs s div 8)"
    using assms(2) unfolding l1_span_def by (rule less_mult_imp_div_less)
  then have "Suc (guest div im_cs s) * im_cs s \<le> l1_span s" unfolding l1_span_def by (intro mult_le_mono1) simp
  moreover have "guest = guest div im_cs s * im_cs s + guest mod im_cs s" by simp
  moreover have "guest mod im_cs s < im_cs s" using wf_cs(3) [OF assms(1)] by (rule mod_less_divisor)
  ultimately show ?thesis using assms(3) unfolding mult_Suc by linarith
qed

lemma read_loop_ok:
  assumes "read_loop rest guest s = ((buf, t, err), s')" "img_wf role s" "bk_ok bk s"
  shows "img_wf role s' \<and> same s s' \<and> length buf = length rest \<and> t \<le> length rest \<and>
    (\<forall>k<t. buf ! k = content bk s (guest + k)) \<and> (err = None \<longrightarrow> t = length rest) \<and>
    (err = Some ''EOF'' \<longrightarrow> im_size s \<le> guest + t \<and> t < length rest)"
  using assms
proof (induction rest guest s arbitrary: buf t rule: read_loop.induct)
  case (1 rest guest s)
  note step = "1.prems"(1) and w = "1.prems"(2) and bk = "1.prems"(3)
  note geo = wfD(1) [OF w]
  consider "rest = []" | "rest \<noteq> []" "im_size s \<le> guest" | "rest \<noteq> []" "guest < im_size s" by linarith
  then show ?case
  proof cases
    case 1
    then have "((buf, t, err), s') = (([], 0, None), s)"
      unfolding step [symmetric] by (simp add: read_loop.simps [of "[]"])
    then show ?thesis using 1 w by simp
  next
    case 2
    then have "((buf, t, err), s') = ((rest, 0, Some ''EOF''), s)"
      unfolding step [symmetric] by (simp add: read_loop.simps [of rest])
    then show ?thesis using 2 w by simp
  next
    case c3: 3
    obtain r s1 where rs: "resolve guest (length rest) s = (r, s1)" by (cases "resolve guest (length rest) s")
    have sp: "guest < l1_span s" using c3(2) size_span [OF geo] by simp
    note ro = resolve_ok [OF rs w bk sp]
    then have w1: "img_wf role s1" and sm1: "same s s1" by auto
    show ?thesis
    proof (cases r)
      case (Inl e)
      then have "((buf, t, err), s') = ((rest, 0, Some e), s1)"
        unfolding step [symmetric] using c3 rs by (simp add: read_loop.simps [of rest])
      then show ?thesis using ro Inl by auto
    next
      case (Inr hn)
      obtain h n where hn: "hn = (h, n)" by (cases hn)
      have n: "n = min (im_cs s - guest mod im_cs s) (length rest)" "host_view bk s h guest n"
        using ro Inr hn by auto
      have n0: "0 < n" using n(1) c3(1) mod_less_divisor [OF wf_cs(3) [OF geo], of guest] by simp
      then have nz: "n \<noteq> 0" by simp
      have ln: "length (take n rest) = n" using n(1) by simp
      obtain chunk e s2 where fl: "fill h guest (take n rest) s1 = ((chunk, e), s2)" by (metis surj_pair)
      have hv: "host_view bk s1 h guest (length (take n rest))" using n(2) ln host_view_same [OF sm1] by simp
      have bk1: "bk_ok bk s1" using bk same_eqs(7) [OF sm1] by simp
      have fo: "img_wf role s2" "same s1 s2" "length chunk = n" "e \<noteq> Some ''EOF''"
        "e = None \<longrightarrow> (\<forall>k<n. chunk ! k = content bk s (guest + k))"
        using fill_ok [OF fl hv bk1 w1] ln same_eqs(6) [OF sm1, of bk] by auto
      have sm2: "same s s2" using sm1 fo(2) by (rule same_trans)
      show ?thesis
      proof (cases e)
        case (Some er)
        then have "((buf, t, err), s') = ((chunk @ drop n rest, 0, Some er), s2)"
          unfolding step [symmetric] using c3 rs Inr hn nz fl by (simp add: read_loop.simps [of rest])
        then show ?thesis using fo sm2 Some n(1) by auto
      next
        case None
        obtain b' t' e' s3 where rl: "read_loop (drop n rest) (guest + n) s2 = ((b', t', e'), s3)" by (metis surj_pair)
        have eq: "((buf, t, err), s') = ((chunk @ b', n + t', e'), s3)"
          unfolding step [symmetric] using c3 rs Inr hn nz fl None rl by (simp add: read_loop.simps [of rest])
        have bk2: "bk_ok bk s2" using bk same_eqs(7) [OF sm2] by simp
        have rl': "read_loop (drop n rest) (guest + n) s2 = ((b', t', err), s')" using rl eq by simp
        have "\<not> im_size s \<le> guest" using c3(2) by simp
        note ih = "1.IH" [OF c3(1) this rs [symmetric] Inr hn [symmetric] nz fl [symmetric] refl None rl' fo(1) bk2]
        have "buf ! k = content bk s (guest + k)" if "k < t" for k
        proof (cases "k < n")
          case True
          then show ?thesis using eq fo(3,5) None by (simp add: nth_append)
        next
          case False
          then have "b' ! (k - n) = content bk s2 (guest + n + (k - n))" using ih that eq by simp
          then show ?thesis using eq fo(3) False same_eqs(6) [OF sm2, of bk] by (simp add: nth_append)
        qed
        moreover have "same s s'" using sm2 ih by (blast intro: same_trans)
        moreover have "im_size s2 = im_size s" using sm2 by (simp add: same_def)
        moreover have "n \<le> length rest" using n(1) by simp
        ultimately show ?thesis using ih eq fo(3) by auto
      qed
    qed
  qed
qed

end
