(* ===== verification/Qcow2Write.thy ===== *)
theory Qcow2Write
  imports Qcow2Refine
begin

text \<open>
  Writing a qcow2 image: the three places where the guest's view may change (a data cluster in place,
  a new L2 table, an L2 entry), and the composition of the allocator, copy-on-write and linking into
  \<open>WriteAt\<close>.
\<close>

unbundle bit_operations_syntax

section \<open>In-place data\<close>

lemma span_index:
  assumes "wf_geom s" "c div (im_cs s div 8) < length (im_l1 s)" "g div im_cs s = c"
  shows "g < l1_span s"
proof -
  have "c < length (im_l1 s) * (im_cs s div 8)"
    using assms(2) wf_cs(4) [OF assms(1)] by (simp add: div_less_iff_less_mult)
  then have "g div im_cs s < length (im_l1 s) * (im_cs s div 8)" using assms(3) by simp
  then show ?thesis unfolding l1_span_def by (subst (asm) div_less_iff_less_mult [OF wf_cs(3) [OF assms(1)]])
qed

lemma write_data:
  assumes "img_wf role s" "keep s s'" "im_fileSize s' = im_fileSize s"
    "c div (im_cs s div 8) < length (im_l1 s)" "lookup (im_cs s) (im_l1 s) (im_file s) c = e"
    "is_copied e" "\<not> is_zero e" "e_off e \<noteq> 0" "guest div im_cs s = c" "guest mod im_cs s + length data \<le> im_cs s"
    "im_file s' = write_at (im_file s) (e_off e + guest mod im_cs s) data"
  shows "img_wf role s'"
    "g < l1_span s \<Longrightarrow> content bk s' g =
       (if guest \<le> g \<and> g < guest + length data then data ! (g - guest) else content bk s g)"
proof -
  let ?cs = "im_cs s" and ?f = "im_file s" and ?f' = "im_file s'" and ?h = "e_off e" and ?m = "guest mod im_cs s"
  note geo = wfD(1) [OF assms(1)] and wm = wfD(3) [OF assms(1)] and sz = wfD(2) [OF assms(1)]
  have ent: "ent_ok ?cs role ?f c e" using lookup_ok [OF wm wf_cs(2,3) [OF geo] assms(4)] assms(5) by simp
  then have h: "?cs dvd ?h" "?h + ?cs \<le> length ?f" "role (?h div ?cs) = RData c"
    using assms(6-8) by (simp_all add: ent_ok_def)
  have inr: "x div ?cs = ?h div ?cs" if "?h + ?m \<le> x" "x < ?h + ?m + length data" for x
    using that assms(10) by (intro cluster_div h(1)) simp_all
  have out: "fb ?f' x = fb ?f x" if "\<not> (?h + ?m \<le> x \<and> x < ?h + ?m + length data)" for x
    using that by (auto simp: assms(11) fb_write_at)
  have oth: "fb ?f' x = fb ?f x" if "role (x div ?cs) \<noteq> RData c" for x
    using out inr h(3) that by metis
  have len: "length ?f' = length ?f" using h(2) assms(10) by (simp add: assms(11))
  have "wf_map ?cs role (im_l1 s) (im_cache s) ?f'"
    by (rule wf_map_frame [OF wm wf_cs(2) [OF geo]]) (simp_all add: len oth)
  moreover have "wf_l1 ?cs (im_l1Offset s) role (im_l1 s) ?f'"
    by (rule wf_l1_frame [OF wfD(4) [OF assms(1)]]) (simp_all add: oth)
  moreover have "wf_ref ?cs (maxBlocks s) (im_refcountOffset s) role ?f'"
  proof (rule wf_ref_frame [OF wfD(5) [OF assms(1)] wf_cs(6,3) [OF geo]])
    fix x assume "refd (role (x div ?cs))"
    then show "fb ?f' x = fb ?f x" by (intro oth) auto
  qed simp_all
  moreover have "wf_size ?cs role ?f' (im_fileSize s')" using sz assms(3) by (simp add: wf_size_def len)
  ultimately show "img_wf role s'"
    using geo keep_cs [OF assms(2)] assms(2) by (simp add: img_wf_def keep_def)
  assume g: "g < l1_span s"
  have i: "g div ?cs div (?cs div 8) < length (im_l1 s)" using g by (rule span_l1)
  have lk: "lookup ?cs (im_l1 s) ?f' (g div ?cs) = lookup ?cs (im_l1 s) ?f (g div ?cs)"
    by (rule lookup_frame [OF wm wf_cs(2,3) [OF geo] _ i]) (simp add: oth)
  have c': "content bk s' = content_of ?cs bk (im_l1 s) ?f'" using assms(2) by (simp add: content_def keep_def im_cs_def)
  show "content bk s' g = (if guest \<le> g \<and> g < guest + length data then data ! (g - guest) else content bk s g)"
  proof (cases "g div ?cs = c")
    case True
    have gm: "g = ?cs * c + g mod ?cs" "guest = ?cs * c + ?m"
      using True assms(9) mult_div_mod_eq [of ?cs g] mult_div_mod_eq [of ?cs guest] by simp_all
    have "?h + ?m \<le> ?h + g mod ?cs \<and> ?h + g mod ?cs < ?h + ?m + length data \<longleftrightarrow> guest \<le> g \<and> g < guest + length data"
      using gm by linarith
    moreover have "?h + g mod ?cs - (?h + ?m) = g - guest" using gm by linarith
    ultimately have "fb ?f' (?h + g mod ?cs) =
        (if guest \<le> g \<and> g < guest + length data then data ! (g - guest) else fb ?f (?h + g mod ?cs))"
      by (simp add: assms(11) fb_write_at)
    then show ?thesis using True assms(5,7,8) lk unfolding c' unfolding content_def by (simp add: content_of_def Let_def)
  next
    case False
    let ?e = "lookup ?cs (im_l1 s) ?f (g div ?cs)"
    have ok: "ent_ok ?cs role ?f (g div ?cs) ?e" by (rule lookup_ok [OF wm wf_cs(2,3) [OF geo] i])
    have "fb ?f' (e_off ?e + g mod ?cs) = fb ?f (e_off ?e + g mod ?cs)" if "e_off ?e \<noteq> 0" "\<not> is_zero ?e"
    proof (rule oth)
      have "?cs dvd e_off ?e" "role (e_off ?e div ?cs) \<noteq> RData c"
        using ok that False by (auto simp: ent_ok_def split: if_splits)
      then show "role ((e_off ?e + g mod ?cs) div ?cs) \<noteq> RData c" using wf_cs(3) [OF geo] by (simp add: data_div)
    qed
    then have "content bk s' g = content bk s g" using lk unfolding c' unfolding content_def by (simp add: content_of_def Let_def)
    moreover have "\<not> (guest \<le> g \<and> g < guest + length data)"
    proof
      assume a: "guest \<le> g \<and> g < guest + length data"
      then have "?m + (g - guest) < ?cs" using assms(10) by linarith
      from in_cluster_run(1) [OF this] show False using a False assms(9) by simp
    qed
    ultimately show ?thesis by auto
  qed
qed

section \<open>A new L2 table\<close>

text \<open>An allocated cluster: aligned, within the capacity, without a role, counted.\<close>

definition fresh_cluster :: "(nat \<Rightarrow> role) \<Rightarrow> Img \<Rightarrow> nat \<Rightarrow> bool" where
  "fresh_cluster role s off \<longleftrightarrow>
     im_cs s dvd off \<and> off \<noteq> 0 \<and> off < 2 ^ 56 \<and> role (off div im_cs s) = RFree \<and>
     off div im_cs s div entriesPerBlock s < maxBlocks s \<and>
     refc (im_cs s) (im_refcountOffset s) (im_file s) (off div im_cs s) \<noteq> 0"

lemma link_table:
  assumes "img_wf role s" "i < length (im_l1 s)" "e_off (im_l1 s ! i) = 0" "fresh_cluster role s new"
    "new + im_cs s \<le> length (im_file s)" "\<And>x. new \<le> x \<Longrightarrow> x < new + im_cs s \<Longrightarrow> fb (im_file s) x = 0"
    "s' = s\<lparr>im_ops := n, im_file := write_at (im_file s) (im_l1Offset s + i * 8) (be_put 8 (new OR oflagCopied)),
            im_l1 := (im_l1 s)[i := new OR oflagCopied]\<rparr>"
  shows "img_wf (role(new div im_cs s := RL2 i)) s'" "g < l1_span s \<Longrightarrow> content bk s' g = content bk s g"
proof -
  let ?cs = "im_cs s" and ?f = "im_file s" and ?l1 = "im_l1 s" and ?r = "role(new div im_cs s := RL2 i)"
  define f' where "f' = write_at ?f (im_l1Offset s + i * 8) (be_put 8 (new OR oflagCopied))"
  define l1' where "l1' = ?l1[i := new OR oflagCopied]"
  note geo = wfD(1) [OF assms(1)] and wm = wfD(3) [OF assms(1)] and sz = wfD(2) [OF assms(1)]
    and w1 = wfD(4) [OF assms(1)] and wr = wfD(5) [OF assms(1)]
  note nw = assms(4) [unfolded fresh_cluster_def]
  have n512: "512 dvd new" using dvd_trans [OF wf_cs(1) [OF geo]] nw by blast
  have eo: "e_off (new OR oflagCopied) = new" using e_off_linked [OF n512] nw by blast
  have reg: "role (x div ?cs) = RL1" if "im_l1Offset s + i * 8 \<le> x" "x < im_l1Offset s + i * 8 + 8" for x
    using w1 that assms(2) by (auto simp: wf_l1_def)
  have oth: "fb f' x = fb ?f x" if "role (x div ?cs) \<noteq> RL1" for x
    using reg [of x] that by (auto simp: f'_def fb_write_at simp del: le_put_numeral)
  have rfree: "role (x div ?cs) = RFree" if "new \<le> x" "x < new + ?cs" for x
    using cluster_div [OF _ that] nw by simp
  have len: "length ?f \<le> length f'" by (simp add: f'_def)
  have ro: "?r c = role c" if "role c \<noteq> RFree" for c using that nw by auto
  have rm: "?r c = role c" if "mapped (role c)" for c using ro mapped_not [OF that] by blast
  have zero: "be8 f' (new + 8 * j) = 0" if "j < ?cs div 8" for j
  proof (rule be8_replicate)
    fix x assume "new + 8 * j \<le> x" "x < new + 8 * j + 8"
    then have x: "new \<le> x" "x < new + ?cs" using entry_in_cluster [OF wf_cs(2) [OF geo] that] by linarith+
    then show "fb f' x = 0" using assms(6) rfree oth [of x] by simp
  qed
  have sl: "tbl_ok ?cs ?r f' i' (e_off (?l1 ! i'))" if "i' < length ?l1" "e_off (?l1 ! i') \<noteq> 0" for i'
  proof (rule tbl_ok_frame(1) [OF _ wf_cs(2) [OF geo] len _ rm])
    show "tbl_ok ?cs role ?f i' (e_off (?l1 ! i'))" using wm that by (simp add: wf_map_def)
  qed (simp_all add: oth)
  have map': "wf_map ?cs ?r l1' (im_cache s) f'"
    unfolding wf_map_def
  proof (intro conjI allI impI)
    fix i' assume i': "i' < length l1'" "e_off (l1' ! i') \<noteq> 0"
    show "tbl_ok ?cs ?r f' i' (e_off (l1' ! i'))"
    proof (cases "i' = i")
      case True
      then have "e_off (l1' ! i') = new" using assms(2) eo by (simp add: l1'_def)
      then show ?thesis using True nw zero assms(5) len by (simp add: tbl_ok_def ent_ok_def)
    next
      case False
      then show ?thesis using sl i' by (simp add: l1'_def)
    qed
  next
    fix t tb assume c: "map_of (im_cache s) t = Some tb"
    then obtain i' where i': "t \<noteq> 0" "i' < length ?l1" "e_off (?l1 ! i') = t" "tb = table ?cs ?f t"
      using wm c unfolding wf_map_def by blast
    then have ne: "i' \<noteq> i" using assms(3) by auto
    show "t \<noteq> 0" by (rule i'(1))
    show "\<exists>i<length l1'. e_off (l1' ! i) = t" using i' ne by (intro exI [of _ i']) (simp add: l1'_def)
    have "tbl_ok ?cs role ?f i' t" using wm i'(1-3) unfolding wf_map_def by blast
    then have "table ?cs f' t = table ?cs ?f t" by (rule table_frame [OF _ wf_cs(2) [OF geo]]) (simp add: oth)
    then show "tb = table ?cs f' t" using i'(4) by simp
  qed
  have l1w: "wf_l1 ?cs (im_l1Offset s) ?r l1' f'"
    unfolding wf_l1_def
  proof (intro conjI allI impI)
    fix x assume "im_l1Offset s \<le> x \<and> x < im_l1Offset s + length l1' * 8"
    then have "role (x div ?cs) = RL1" using w1 by (simp add: wf_l1_def l1'_def)
    then show "?r (x div ?cs) = RL1" using ro [of "x div ?cs"] by simp
  next
    fix i' assume "i' < length l1'"
    then have i': "i' < length ?l1" by (simp add: l1'_def)
    show "be8 f' (im_l1Offset s + i' * 8) = l1' ! i'"
    proof (cases "i' = i")
      case True
      then show ?thesis using i' nw linked_mod [of new] by (simp add: f'_def l1'_def be8_write_at del: le_put_numeral)
    next
      case False
      then show ?thesis using i' w1 by (simp add: f'_def l1'_def be8_other wf_l1_def del: le_put_numeral)
    qed
  qed
  have refw: "wf_ref ?cs (maxBlocks s) (im_refcountOffset s) ?r f'"
  proof (rule wf_ref_frame [OF wr wf_cs(6,3) [OF geo]])
    fix x assume "refd (role (x div ?cs))"
    then show "fb f' x = fb ?f x" by (intro oth) auto
  next
    fix c assume "refd (role c)"
    then show "?r c = role c" by (intro ro) auto
  next
    fix c assume "counted (?r c)"
    then show "counted (role c) \<or> c div (?cs div 2) < maxBlocks s \<and> refc ?cs (im_refcountOffset s) ?f c \<noteq> 0"
      using nw by (auto simp: entriesPerBlock_def split: if_splits)
  qed
  have "im_l1Offset s + i * 8 + 8 \<le> im_fileSize s"
    using role_end [OF sz _ wf_cs(3) [OF geo], of "im_l1Offset s + i * 8 + 7"] reg [of "im_l1Offset s + i * 8 + 7"] by simp
  moreover have "new div ?cs \<noteq> 0" using nw wf_cs(3) [OF geo] by (metis dvd_div_mult_self mult_0)
  moreover have "new div ?cs * ?cs = new" using nw by simp
  ultimately have "wf_size ?cs ?r f' (im_fileSize s)"
    using sz assms(5) by (auto simp: wf_size_def f'_def simp del: le_put_numeral)
  moreover have "wf_geom s'" using geo by (simp add: assms(7) wf_geom_def)
  ultimately show "img_wf ?r s'"
    using map' l1w refw by (simp add: img_wf_def assms(7) f'_def l1'_def)
  assume g: "g < l1_span s"
  let ?c = "g div ?cs" and ?e = "lookup ?cs ?l1 ?f (g div ?cs)"
  have i': "?c div (?cs div 8) < length ?l1" using g by (rule span_l1)
  have lk: "lookup ?cs l1' f' ?c = ?e"
  proof (cases "?c div (?cs div 8) = i")
    case True
    have "?c mod (?cs div 8) < ?cs div 8" using wf_cs(4) [OF geo] by (rule mod_less_divisor)
    then show ?thesis using True assms(2,3) eo zero nw by (simp add: lookup_def l1'_def Let_def)
  next
    case False
    have "lookup ?cs ?l1 f' ?c = ?e" by (rule lookup_frame [OF wm wf_cs(2,3) [OF geo] _ i']) (simp add: oth)
    then show ?thesis using False by (simp add: lookup_def l1'_def)
  qed
  have ok: "ent_ok ?cs role ?f ?c ?e" by (rule lookup_ok [OF wm wf_cs(2,3) [OF geo] i'])
  have "fb f' (e_off ?e + g mod ?cs) = fb ?f (e_off ?e + g mod ?cs)" if "e_off ?e \<noteq> 0" "\<not> is_zero ?e"
    using ok that wf_cs(3) [OF geo] by (intro oth) (auto simp: ent_ok_def data_div split: if_splits)
  then show "content bk s' g = content bk s g"
    using lk by (simp add: content_def content_of_def assms(7) f'_def [symmetric] l1'_def [symmetric] Let_def)
qed

section \<open>A new L2 entry\<close>

lemma map_of_updateL2Cache:
  "map_of (im_cache (updateL2Cache t j v s)) t' =
     (if t' = t then map_option (\<lambda>tb. tb[j := v]) (map_of (im_cache s) t) else map_of (im_cache s) t')"
  by (simp add: updateL2Cache_def update_conv' split: option.splits)

lemma updateL2Cache_same: "same s (updateL2Cache t j v s)"
  by (simp add: updateL2Cache_def same_def split: option.splits)

text \<open>The bytes of one table entry, and the other entries of the same table.\<close>

lemma table_update:
  assumes "j < cs div 8"
  shows "table cs (write_at f (t + 8 * j) (be_put 8 v)) t = (table cs f t)[j := v mod 2 ^ 64]"
proof (rule nth_equalityI)
  fix j' assume "j' < length (table cs (write_at f (t + 8 * j) (be_put 8 v)) t)"
  then have j': "j' < cs div 8" by (simp add: table_def)
  show "table cs (write_at f (t + 8 * j) (be_put 8 v)) t ! j' = (table cs f t)[j := v mod 2 ^ 64] ! j'"
  proof (cases "j' = j")
    case True
    then show ?thesis using assms by (simp add: table_def be8_write_at del: le_put_numeral)
  next
    case False
    then show ?thesis using j' be8_other [of j' j f t v] by (simp add: table_def mult.commute del: le_put_numeral)
  qed
qed (simp add: table_def)

text \<open>
  Writing the entry \<open>v\<close> for guest cluster \<open>c\<close> into an existing table. The roles \<open>r\<close> afterwards extend the
  roles before it by what \<open>v\<close> refers to.
\<close>

lemma put_entry:
  fixes role r s c v n
  defines "cs \<equiv> im_cs s" and "f \<equiv> im_file s" and "l1 \<equiv> im_l1 s"
  defines "i \<equiv> c div (cs div 8)" and "j \<equiv> c mod (cs div 8)"
  defines "t \<equiv> e_off (l1 ! i)"
  defines "f' \<equiv> write_at f (t + 8 * j) (be_put 8 v)"
  assumes "img_wf role s" "i < length l1" "t \<noteq> 0" "v < 2 ^ 64" "ent_ok cs r f c v"
    and ro: "\<And>c. role c \<noteq> RFree \<Longrightarrow> r c = role c"
    and cnt: "\<And>c'. counted (r c') \<Longrightarrow>
      counted (role c') \<or> c' div (cs div 2) < maxBlocks s \<and> refc cs (im_refcountOffset s) f c' \<noteq> 0"
    and fits: "\<And>c'. r c' \<noteq> RFree \<Longrightarrow> c' * cs + cs \<le> im_fileSize s"
    and "s' = updateL2Cache t j v (s\<lparr>im_ops := n, im_file := f'\<rparr>)"
  shows "img_wf r s'"
    "g < l1_span s \<Longrightarrow> content bk s' g =
       (if g div cs = c then if is_zero v then 0 else if e_off v = 0 then bk g else fb f (e_off v + g mod cs)
        else content bk s g)"
proof -
  note w = assms(8)
  note geo = wfD(1) [OF w] and wm = wfD(3) [OF w, folded cs_def f_def l1_def]
    and sz = wfD(2) [OF w, folded cs_def f_def]
    and w1 = wfD(4) [OF w, folded cs_def f_def l1_def] and wr = wfD(5) [OF w, folded cs_def f_def]
  note cs = wf_cs [OF geo, folded cs_def]
  have v: "v mod 2 ^ 64 = v" using assms(11) by simp
  have j: "j < cs div 8" unfolding j_def using cs(4) by (rule mod_less_divisor)
  have c: "i * (cs div 8) + j = c" unfolding i_def j_def by (rule div_mult_mod_eq)
  have tok: "tbl_ok cs role f i t" using wm assms(9,10) by (auto simp: wf_map_def t_def)
  then have tt: "cs dvd t" "t + cs \<le> length f" "role (t div cs) = RL2 i" by (simp_all add: tbl_ok_def)
  have reg: "role (x div cs) = RL2 i" if "t + 8 * j \<le> x" "x < t + 8 * j + 8" for x
    using cluster_div [OF tt(1), of x] that entry_in_cluster [OF cs(2) j] tt(3) by simp
  have oth: "fb f' x = fb f x" if "role (x div cs) \<noteq> RL2 i" for x
    using reg [of x] that by (auto simp: f'_def fb_write_at simp del: le_put_numeral)
  have len: "length f' = length f" using tt(2) entry_in_cluster [OF cs(2) j] by (simp add: f'_def)
  have rm: "r c = role c" if "mapped (role c)" for c using ro mapped_not [OF that] by blast
  have tab: "table cs f' t = (table cs f t)[j := v]" unfolding f'_def using table_update [OF j] v by simp
  have ent': "ent_ok cs r f' (i * (cs div 8) + j') (be8 f' (t + 8 * j'))" if j': "j' < cs div 8" for j'
  proof (cases "j' = j")
    case True
    then have "be8 f' (t + 8 * j') = v" using arg_cong [OF tab, of "\<lambda>l. l ! j"] j by (simp add: table_def)
    then show ?thesis using assms(12) True c len by (simp add: ent_ok_def)
  next
    case False
    then have "be8 f' (t + 8 * j') = be8 f (t + 8 * j')"
      using arg_cong [OF tab, of "\<lambda>l. l ! j'"] j' by (simp add: table_def)
    moreover have "ent_ok cs role f (i * (cs div 8) + j') (be8 f (t + 8 * j'))" using tok j' by (simp add: tbl_ok_def)
    ultimately show ?thesis using len ro [of "e_off (be8 f (t + 8 * j')) div cs"]
      by (auto simp: ent_ok_def split: if_splits)
  qed
  have tnew: "tbl_ok cs r f' i t" using tt ent' len ro [of "t div cs"] by (simp add: tbl_ok_def)
  have told: "tbl_ok cs r f' i' (e_off (l1 ! i'))" "table cs f' (e_off (l1 ! i')) = table cs f (e_off (l1 ! i'))"
    if i': "i' < length l1" "e_off (l1 ! i') \<noteq> 0" "i' \<noteq> i" for i'
  proof -
    let ?t = "e_off (l1 ! i')"
    have ok: "tbl_ok cs role f i' ?t" using wm i' by (simp add: wf_map_def)
    then have t': "cs dvd ?t" "role (?t div cs) = RL2 i'" by (simp_all add: tbl_ok_def)
    have same: "be8 f' (?t + 8 * j') = be8 f (?t + 8 * j')" if "j' < cs div 8" for j'
      by (rule be8_in_cluster [OF t'(1) cs(2) that]) (simp add: oth t'(2) i'(3))
    then show "table cs f' ?t = table cs f ?t" by (auto simp: table_def)
    have "ent_ok cs r f' (i' * (cs div 8) + j') (be8 f' (?t + 8 * j'))" if j': "j' < cs div 8" for j'
    proof -
      have "ent_ok cs role f (i' * (cs div 8) + j') (be8 f (?t + 8 * j'))" using ok j' by (simp add: tbl_ok_def)
      then show ?thesis using len ro [of "e_off (be8 f (?t + 8 * j')) div cs"] same [OF j']
        by (auto simp: ent_ok_def split: if_splits)
    qed
    then show "tbl_ok cs r f' i' ?t" using ok len ro [of "?t div cs"] t'(2) by (simp add: tbl_ok_def)
  qed
  have map': "wf_map cs r l1 (im_cache s') f'"
    unfolding wf_map_def
  proof (intro conjI allI impI)
    fix i' assume "i' < length l1" "e_off (l1 ! i') \<noteq> 0"
    then show "tbl_ok cs r f' i' (e_off (l1 ! i'))" using tnew told(1) by (cases "i' = i") (simp_all add: t_def)
  next
    fix t' tb assume "map_of (im_cache s') t' = Some tb"
    then have q: "(if t' = t then map_option (\<lambda>tb. tb[j := v]) (map_of (im_cache s) t) else map_of (im_cache s) t') = Some tb"
      by (auto simp: assms(16) map_of_updateL2Cache split: if_splits)
    have "t' \<noteq> 0 \<and> (\<exists>i<length l1. e_off (l1 ! i) = t') \<and> tb = table cs f' t'"
    proof (cases "t' = t")
      case True
      then obtain tb0 where "map_of (im_cache s) t = Some tb0" "tb = tb0[j := v]" using q by auto
      then have "tb = table cs f' t" using wm tab by (simp add: wf_map_def)
      then show ?thesis using True assms(9,10) t_def by blast
    next
      case False
      then have "map_of (im_cache s) t' = Some tb" using q by simp
      then obtain i' where i': "t' \<noteq> 0" "i' < length l1" "e_off (l1 ! i') = t'" "tb = table cs f t'"
        using wm unfolding wf_map_def by blast
      then have "i' \<noteq> i" using False t_def by blast
      then show ?thesis using told(2) [of i'] i' by auto
    qed
    then show "t' \<noteq> 0" "\<exists>i<length l1. e_off (l1 ! i) = t'" "tb = table cs f' t'" by blast+
  qed
  have l1w: "wf_l1 cs (im_l1Offset s) r l1 f'"
    by (rule wf_l1_frame [OF w1]) (use ro in \<open>simp_all add: oth\<close>)
  have refw: "wf_ref cs (maxBlocks s) (im_refcountOffset s) r f'"
  proof (rule wf_ref_frame [OF wr cs(6,3)])
    fix x assume "refd (role (x div cs))"
    then show "fb f' x = fb f x" by (intro oth) auto
  next
    fix c assume "refd (role c)"
    then show "r c = role c" by (intro ro) auto
  next
    fix c' assume "counted (r c')"
    then show "counted (role c') \<or> c' div (cs div 2) < maxBlocks s \<and> refc cs (im_refcountOffset s) f c' \<noteq> 0"
      by (rule cnt)
  qed
  have szw: "wf_size cs r f' (im_fileSize s)" using sz len fits ro [of 0] by (auto simp: wf_size_def)
  define s1 where "s1 = s\<lparr>im_ops := n, im_file := f'\<rparr>"
  have sm: "same s1 s'" unfolding assms(16) s1_def by (rule updateL2Cache_same)
  have s1: "im_cs s1 = cs" "im_file s1 = f'" "im_l1 s1 = l1" "maxBlocks s1 = maxBlocks s" "im_fileSize s1 = im_fileSize s"
    "im_l1Offset s1 = im_l1Offset s" "im_refcountOffset s1 = im_refcountOffset s" "wf_geom s1"
    using geo by (simp_all add: s1_def cs_def l1_def wf_geom_def)
  have s': "im_cs s' = cs" "im_file s' = f'" "im_l1 s' = l1" "maxBlocks s' = maxBlocks s" "im_fileSize s' = im_fileSize s"
    "im_l1Offset s' = im_l1Offset s" "im_refcountOffset s' = im_refcountOffset s" "wf_geom s'"
    using sm same_eqs(1,2,4) [OF sm] s1 by (simp_all add: same_def)
  show "img_wf r s'" unfolding img_wf_def s' using map' l1w refw szw s'(8) by blast
  assume g: "g < l1_span s"
  let ?e = "lookup cs l1 f (g div cs)"
  have gi: "g div cs div (cs div 8) < length l1" using span_l1 [OF g] by (simp add: cs_def l1_def)
  have gj: "g div cs mod (cs div 8) < cs div 8" using cs(4) by (rule mod_less_divisor)
  have c': "content bk s' g = content_of cs bk l1 f' g" "content bk s g = content_of cs bk l1 f g"
    by (simp_all add: content_def s' cs_def l1_def f_def)
  show "content bk s' g =
      (if g div cs = c then if is_zero v then 0 else if e_off v = 0 then bk g else fb f (e_off v + g mod cs)
       else content bk s g)"
  proof (cases "g div cs = c")
    case True
    have "be8 f' (t + 8 * j) = v" using arg_cong [OF tab, of "\<lambda>l. l ! j"] j by (simp add: table_def)
    then have "lookup cs l1 f' (g div cs) = v"
      using True assms(10) by (simp add: lookup_def Let_def t_def i_def j_def)
    moreover have "fb f' (e_off v + g mod cs) = fb f (e_off v + g mod cs)" if "e_off v \<noteq> 0" "\<not> is_zero v"
    proof (rule oth)
      have "cs dvd e_off v" "r (e_off v div cs) \<noteq> RL2 i" using assms(12) that by (auto simp: ent_ok_def split: if_splits)
      then show "role ((e_off v + g mod cs) div cs) \<noteq> RL2 i" using ro [of "e_off v div cs"] cs(3) by (auto simp: data_div)
    qed
    ultimately show ?thesis using True by (simp add: c' content_of_def)
  next
    case False
    have lk: "lookup cs l1 f' (g div cs) = ?e"
    proof (cases "g div cs div (cs div 8) = i")
      case True
      then have "g div cs mod (cs div 8) \<noteq> j" using False c by (metis div_mult_mod_eq)
      then have "be8 f' (t + 8 * (g div cs mod (cs div 8))) = be8 f (t + 8 * (g div cs mod (cs div 8)))"
        using arg_cong [OF tab, of "\<lambda>l. l ! (g div cs mod (cs div 8))"] gj by (simp add: table_def)
      then show ?thesis using True by (simp add: lookup_def Let_def t_def)
    next
      case ne: False
      show ?thesis
      proof (cases "e_off (l1 ! (g div cs div (cs div 8))) = 0")
        case False
        have "table cs f' (e_off (l1 ! (g div cs div (cs div 8)))) = table cs f (e_off (l1 ! (g div cs div (cs div 8))))"
          by (rule told(2) [OF gi False ne])
        then show ?thesis using arg_cong [of _ _ "\<lambda>l. l ! (g div cs mod (cs div 8))"] gj
          by (auto simp: lookup_def Let_def table_def)
      qed (simp add: lookup_def)
    qed
    have ok: "ent_ok cs role f (g div cs) ?e" by (rule lookup_ok [OF wm cs(2,3) gi])
    have "fb f' (e_off ?e + g mod cs) = fb f (e_off ?e + g mod cs)" if "e_off ?e \<noteq> 0" "\<not> is_zero ?e"
      using ok that cs(3) by (intro oth) (auto simp: ent_ok_def data_div split: if_splits)
    then show ?thesis using False lk by (simp add: c' content_of_def Let_def)
  qed
qed

lemma link_entry:
  fixes role s c h n
  defines "cs \<equiv> im_cs s" and "f \<equiv> im_file s" and "l1 \<equiv> im_l1 s"
  defines "i \<equiv> c div (cs div 8)" and "j \<equiv> c mod (cs div 8)"
  defines "t \<equiv> e_off (l1 ! i)" and "v \<equiv> h OR oflagCopied"
  defines "f' \<equiv> write_at f (t + 8 * j) (be_put 8 v)"
  assumes "img_wf role s" "i < length l1" "t \<noteq> 0" "fresh_cluster role s h" "h + cs \<le> length f"
    "s' = updateL2Cache t j v (s\<lparr>im_ops := n, im_file := f'\<rparr>)"
  shows "img_wf (role(h div cs := RData c)) s'"
    "g < l1_span s \<Longrightarrow> content bk s' g = (if g div cs = c then fb f (h + g mod cs) else content bk s g)"
proof -
  let ?r = "role(h div cs := RData c)"
  note geo = wfD(1) [OF assms(9)] and sz = wfD(2) [OF assms(9), folded cs_def f_def]
  have nw: "cs dvd h" "h \<noteq> 0" "h < 2 ^ 56" "role (h div cs) = RFree" "h div cs div (cs div 2) < maxBlocks s"
    "refc cs (im_refcountOffset s) f (h div cs) \<noteq> 0"
    using assms(12) by (simp_all add: fresh_cluster_def cs_def f_def entriesPerBlock_def)
  have h512: "512 dvd h" using dvd_trans [OF wf_cs(1) [OF geo, folded cs_def] nw(1)] .
  have v: "e_off v = h" "is_copied v" "\<not> is_compressed v" "\<not> is_zero v" "v < 2 ^ 64"
    unfolding v_def using e_off_linked [OF h512 nw(3)] linked_flags [OF h512 nw(3)] linked_bound [OF nw(3)] by simp_all
  have ent: "ent_ok cs ?r f c v" using v nw(1) assms(13) by (simp add: ent_ok_def)
  have ro: "?r c = role c" if "role c \<noteq> RFree" for c using that nw(4) by auto
  have cnt: "counted (role c') \<or> c' div (cs div 2) < maxBlocks s \<and> refc cs (im_refcountOffset s) f c' \<noteq> 0"
    if "counted (?r c')" for c' using that nw by (auto split: if_splits)
  have "h div cs * cs = h" using nw(1) by simp
  then have fits: "c' * cs + cs \<le> im_fileSize s" if "?r c' \<noteq> RFree" for c'
    using that sz assms(13) by (auto simp: wf_size_def split: if_splits)
  note pe = put_entry [where r = ?r and v = v and c = c and s = s and role = role and n = n and s' = s',
      folded cs_def f_def l1_def, folded i_def j_def, folded t_def, folded f'_def,
      OF assms(9-11) v(5) ent ro cnt fits assms(14)]
  show "img_wf ?r s'" by (rule pe(1))
  show "content bk s' g = (if g div cs = c then fb f (h + g mod cs) else content bk s g)" if "g < l1_span s"
    by (subst pe(2)) (use that v nw(2) in simp_all)
qed

text \<open>The bare ZERO entry refers to nothing.\<close>

lemma zero_entry:
  fixes role s c n
  defines "cs \<equiv> im_cs s" and "f \<equiv> im_file s" and "l1 \<equiv> im_l1 s"
  defines "i \<equiv> c div (cs div 8)" and "j \<equiv> c mod (cs div 8)"
  defines "t \<equiv> e_off (l1 ! i)"
  defines "f' \<equiv> write_at f (t + 8 * j) (be_put 8 1)"
  assumes "img_wf role s" "i < length l1" "t \<noteq> 0" "s' = updateL2Cache t j 1 (s\<lparr>im_ops := n, im_file := f'\<rparr>)"
  shows "img_wf role s'" "g < l1_span s \<Longrightarrow> content bk s' g = (if g div cs = c then 0 else content bk s g)"
proof -
  have z: "is_zero 1" "\<not> is_compressed 1" by (simp_all add: is_zero_def is_compressed_def bit_1_iff del: One_nat_def)
  have ent: "ent_ok cs role f c 1" using z by (simp add: ent_ok_def)
  have fits: "c' * cs + cs \<le> im_fileSize s" if "role c' \<noteq> RFree" for c'
    using that wfD(2) [OF assms(8)] by (simp add: wf_size_def cs_def)
  note pe = put_entry [where r = role and v = 1 and c = c and s = s and role = role and n = n and s' = s',
      folded cs_def f_def l1_def, folded i_def j_def, folded t_def, folded f'_def,
      OF assms(8-10) _ ent refl disjI1 fits assms(11)]
  show "img_wf role s'" by (rule pe(1)) simp_all
  show "content bk s' g = (if g div cs = c then 0 else content bk s g)" if "g < l1_span s"
    by (subst pe(2)) (use that z in simp_all)
qed

end
