(* ===== verification/Qcow2Flat.thy ===== *)
theory Qcow2Flat
  imports Qcow2Write
begin

text \<open>
  The composition: \<open>WriteAt\<close> on an image that satisfies the invariant keeps it and behaves as a write
  to a flat disk, and \<open>ReadAt\<close> returns what that disk holds.
\<close>

unbundle bit_operations_syntax

section \<open>Steps that keep the guest's view\<close>

definition ext :: "(nat \<Rightarrow> role) \<Rightarrow> Img \<Rightarrow> (nat \<Rightarrow> role) \<Rightarrow> Img \<Rightarrow> bool" where
  "ext role s role' s' \<longleftrightarrow>
     im_bits s' = im_bits s \<and> im_size s' = im_size s \<and> im_refcountOffset s' = im_refcountOffset s \<and>
     im_refcountClusters s' = im_refcountClusters s \<and> im_backing s' = im_backing s \<and>
     length (im_l1 s') = length (im_l1 s) \<and>
     (\<forall>c. role c \<noteq> RFree \<longrightarrow> role' c = role c) \<and>
     length (im_file s) \<le> length (im_file s') \<and> im_fileSize s \<le> im_fileSize s' \<and>
     (\<forall>x. role (x div im_cs s) = ROther \<longrightarrow> fb (im_file s') x = fb (im_file s) x) \<and>
     (\<forall>c. c div entriesPerBlock s < maxBlocks s \<and> refc (im_cs s) (im_refcountOffset s) (im_file s) c \<noteq> 0 \<longrightarrow>
        refc (im_cs s) (im_refcountOffset s) (im_file s') c \<noteq> 0) \<and>
     (\<forall>bk g. g < l1_span s \<longrightarrow> content bk s' g = content bk s g)"

lemma ext_eqs:
  assumes "ext role s role' s'"
  shows "im_cs s' = im_cs s" "maxBlocks s' = maxBlocks s" "entriesPerBlock s' = entriesPerBlock s"
    "l1_span s' = l1_span s" "bk_ok bk s' = bk_ok bk s" "im_size s' = im_size s"
    "im_refcountOffset s' = im_refcountOffset s" "length (im_l1 s') = length (im_l1 s)"
  using assms by (simp_all add: ext_def im_cs_def maxBlocks_def entriesPerBlock_def l1_span_def bk_ok_def)

lemma ext_refl [simp]: "ext role s role s"
  by (simp add: ext_def)

lemma ext_trans:
  assumes "ext role s role1 s1" "ext role1 s1 role2 s2"
  shows "ext role s role2 s2"
proof -
  note a = assms(1) [unfolded ext_def]
  note b = assms(2) [unfolded ext_def ext_eqs(1-4,7) [OF assms(1)]]
  have "role2 c = role c" if "role c \<noteq> RFree" for c using a b that by metis
  moreover have "fb (im_file s2) x = fb (im_file s) x" if "role (x div im_cs s) = ROther" for x
    using a b that by (metis role.distinct(1))
  ultimately show ?thesis using a b unfolding ext_def by (auto intro: le_trans)
qed

lemma grow_ext:
  assumes "img_wf role s" "grow role s role' s'"
  shows "ext role s role' s'"
proof -
  have "fb (im_file s') x = fb (im_file s) x" if "role (x div im_cs s) = ROther" for x
    using that by (intro growD(6) [OF assms(2)]) simp_all
  moreover have "keep s s'" by (rule growD(1) [OF assms(2)])
  ultimately show ?thesis
    using grow_content [OF assms] growD(2,4,5) [OF assms(2)] grow_refc [OF assms(2)]
    unfolding ext_def by (simp add: keep_def)
qed

lemma same_ext:
  assumes "same s s'"
  shows "ext role s role s'"
  unfolding ext_def same_eqs(6) [OF assms] using assms by (simp add: same_def)

text \<open>Reserving an allocated cluster, so that later steps leave its bytes alone, and releasing it.\<close>

lemma reserve:
  assumes "img_wf role s" "role c = RFree" "c * im_cs s + im_cs s \<le> im_fileSize s"
  shows "img_wf (role(c := ROther)) s"
proof -
  note geo = wfD(1) [OF assms(1)]
  have "wf_map (im_cs s) (role(c := ROther)) (im_l1 s) (im_cache s) (im_file s)"
    using assms(2) by (intro wf_map_frame [OF wfD(3) [OF assms(1)] wf_cs(2) [OF geo]]) auto
  moreover have "wf_ref (im_cs s) (maxBlocks s) (im_refcountOffset s) (role(c := ROther)) (im_file s)"
    using assms(2) by (intro wf_ref_frame [OF wfD(5) [OF assms(1)] wf_cs(6,3) [OF geo]]) (auto split: if_splits)
  moreover have "wf_l1 (im_cs s) (im_l1Offset s) (role(c := ROther)) (im_l1 s) (im_file s)"
    using assms(2) by (intro wf_l1_frame [OF wfD(4) [OF assms(1)]]) auto
  moreover have "wf_size (im_cs s) (role(c := ROther)) (im_file s) (im_fileSize s)"
    using wfD(2) [OF assms(1)] assms(3) by (auto simp: wf_size_def)
  ultimately show ?thesis using geo by (simp add: img_wf_def)
qed

lemma release:
  assumes "img_wf role s" "role c = ROther" "c \<noteq> 0"
  shows "img_wf (role(c := RFree)) s"
proof -
  note geo = wfD(1) [OF assms(1)]
  have "wf_map (im_cs s) (role(c := RFree)) (im_l1 s) (im_cache s) (im_file s)"
    using assms(2) by (intro wf_map_frame [OF wfD(3) [OF assms(1)] wf_cs(2) [OF geo]]) auto
  moreover have "wf_ref (im_cs s) (maxBlocks s) (im_refcountOffset s) (role(c := RFree)) (im_file s)"
    using assms(2) by (intro wf_ref_frame [OF wfD(5) [OF assms(1)] wf_cs(6,3) [OF geo]]) (auto split: if_splits)
  moreover have "wf_l1 (im_cs s) (im_l1Offset s) (role(c := RFree)) (im_l1 s) (im_file s)"
    using assms(2) by (intro wf_l1_frame [OF wfD(4) [OF assms(1)]]) auto
  moreover have "wf_size (im_cs s) (role(c := RFree)) (im_file s) (im_fileSize s)"
    using wfD(2) [OF assms(1)] assms(3) by (auto simp: wf_size_def)
  ultimately show ?thesis using geo by (simp add: img_wf_def)
qed

section \<open>Allocated clusters\<close>

lemma allocCluster_fresh:
  assumes "allocCluster s = (r, s')" "img_wf role s"
  obtains role' where "img_wf role' s'" "grow role s role' s'"
    "\<And>off. r = Inr off \<Longrightarrow> fresh_cluster role' s' off \<and> off + im_cs s' \<le> im_fileSize s'"
proof -
  obtain role' where q: "img_wf role' s'" "grow role s role' s'"
    "\<forall>off. r = Inr off \<longrightarrow>
       off = im_fileSize s \<and> im_cs s dvd off \<and> off \<noteq> 0 \<and> off < 2 ^ 56 \<and>
       off + im_cs s \<le> im_fileSize s' \<and> role' (off div im_cs s) = RFree \<and>
       off div im_cs s div entriesPerBlock s < maxBlocks s \<and>
       refc (im_cs s) (im_refcountOffset s) (im_file s') (off div im_cs s) \<noteq> 0"
    using allocCluster_wf [OF assms] by blast
  note k = growD(1) [OF q(2)]
  have "im_refcountOffset s' = im_refcountOffset s" using k by (simp add: keep_def)
  then have "fresh_cluster role' s' off \<and> off + im_cs s' \<le> im_fileSize s'" if "r = Inr off" for off
    using q(3) that by (auto simp: fresh_cluster_def keep_cs [OF k])
  with q show ?thesis using that by blast
qed

text \<open>Filling an allocated cluster.\<close>

lemma write_fresh:
  assumes "host_write off p s = (r, s')" "img_wf role s" "fresh_cluster role s off" "length p = im_cs s"
    "off + im_cs s \<le> im_fileSize s"
  shows "img_wf role s' \<and> grow role s role s' \<and> fresh_cluster role s' off \<and> off + im_cs s' \<le> im_fileSize s' \<and>
    (r = Inr () \<longrightarrow> off + im_cs s' \<le> length (im_file s') \<and> (\<forall>x<im_cs s. fb (im_file s') (off + x) = p ! x))"
proof -
  have fc: "fresh_cluster role s' off" if "grow role s role s'"
    using assms(3) grow_refc [OF that] keep_cs [OF growD(1) [OF that]] growD(1) [OF that]
    by (simp add: fresh_cluster_def keep_def)
  from assms(1) show ?thesis
  proof (cases rule: host_write_cases)
    case fail
    then have "grow role s role s'" "img_wf role s'" using grow_ops img_wf_ops [OF assms(2)] by simp_all
    then show ?thesis using fc fail assms(5) by simp
  next
    case ok
    have "img_wf role s' \<and> grow role s role s'"
    proof (rule write_free [OF assms(2)])
      show "keep s s'" "im_file s' = write_at (im_file s) off p" "im_fileSize s \<le> im_fileSize s'"
        using ok by (simp_all add: keep_def)
      show "off + length p \<le> im_fileSize s'" using ok assms(4,5) by simp
      show "role (x div im_cs s) = RFree" if "off \<le> x" "x < off + length p" for x
        using that assms(3,4) cluster_div [of "im_cs s" off x] by (simp add: fresh_cluster_def)
      show "im_cs s dvd im_fileSize s'" if "im_cs s dvd im_fileSize s" using that ok by simp
    qed
    then show ?thesis using fc ok assms(4,5) by (simp add: fb_write_at)
  qed
qed

lemma link_table_ext:
  assumes "img_wf role s" "i < length (im_l1 s)" "e_off (im_l1 s ! i) = 0" "fresh_cluster role s new"
    "new + im_cs s \<le> length (im_file s)" "\<And>x. new \<le> x \<Longrightarrow> x < new + im_cs s \<Longrightarrow> fb (im_file s) x = 0"
    "s' = s\<lparr>im_ops := n, im_file := write_at (im_file s) (im_l1Offset s + i * 8) (be_put 8 (new OR oflagCopied)),
            im_l1 := (im_l1 s)[i := new OR oflagCopied]\<rparr>"
  shows "ext role s (role(new div im_cs s := RL2 i)) s'"
proof -
  note geo = wfD(1) [OF assms(1)]
  have reg: "role (x div im_cs s) = RL1" if "im_l1Offset s + i * 8 \<le> x" "x < im_l1Offset s + i * 8 + 8" for x
    using wfD(4) [OF assms(1)] that assms(2) by (auto simp: wf_l1_def)
  have oth: "fb (im_file s') x = fb (im_file s) x" if "role (x div im_cs s) \<noteq> RL1" for x
    using reg [of x] that by (auto simp: assms(7) fb_write_at simp del: le_put_numeral)
  have rd: "fb (im_file s') x = fb (im_file s) x" if "refd (role (x div im_cs s))" for x
    using that by (intro oth) auto
  have rc: "refc (im_cs s) (im_refcountOffset s) (im_file s') c = refc (im_cs s) (im_refcountOffset s) (im_file s) c"
    if "c div entriesPerBlock s < maxBlocks s" for c
    by (rule refc_frame [OF wfD(5) [OF assms(1)] wf_cs(6,3) [OF geo] rd that [unfolded entriesPerBlock_def]])
  have nf: "role (new div im_cs s) = RFree" using assms(4) by (simp add: fresh_cluster_def)
  have co: "content bk s' g = content bk s g" if "g < l1_span s" for bk g
    by (rule link_table(2) [OF assms that])
  have "im_bits s' = im_bits s" "im_size s' = im_size s" "im_refcountOffset s' = im_refcountOffset s"
    "im_refcountClusters s' = im_refcountClusters s" "im_backing s' = im_backing s"
    "length (im_l1 s') = length (im_l1 s)" "im_fileSize s' = im_fileSize s" "length (im_file s) \<le> length (im_file s')"
    by (simp_all add: assms(7))
  then show ?thesis unfolding ext_def using oth rc co nf by auto
qed

lemma ensureL2_ok:
  assumes "ensureL2 i s = (r, s')" "img_wf role s" "i < length (im_l1 s)"
  shows "\<exists>role'. img_wf role' s' \<and> ext role s role' s' \<and>
    (\<forall>t. r = Inr t \<longrightarrow> e_off (im_l1 s' ! i) = t \<and> t \<noteq> 0)"
proof (cases "e_off (im_l1 s ! i) = 0")
  case False
  then have "(r, s') = (Inr (e_off (im_l1 s ! i)), s)"
    unfolding assms(1) [symmetric] by (simp add: ensureL2_def Let_def)
  then show ?thesis using assms(2) False by (intro exI [of _ role]) auto
next
  case True
  obtain r1 s1 where al: "allocCluster s = (r1, s1)" by (cases "allocCluster s")
  obtain role1 where q1: "img_wf role1 s1" "grow role s role1 s1"
    "\<And>off. r1 = Inr off \<Longrightarrow> fresh_cluster role1 s1 off \<and> off + im_cs s1 \<le> im_fileSize s1"
    using allocCluster_fresh [OF al assms(2)] by blast
  note x1 = grow_ext [OF assms(2) q1(2)]
  show ?thesis
  proof (cases r1)
    case (Inl e)
    then have "(r, s') = (Inl e, s1)"
      unfolding assms(1) [symmetric] using True al by (simp add: ensureL2_def Let_def qbind_def)
    then show ?thesis using q1 x1 by (intro exI [of _ role1]) simp
  next
    case (Inr new)
    note fr = q1(3) [OF Inr]
    obtain r2 s2 where w2: "host_write new (replicate (im_cs s1) 0) s1 = (r2, s2)"
      by (cases "host_write new (replicate (im_cs s1) 0) s1")
    have q2: "img_wf role1 s2" "grow role1 s1 role1 s2" "fresh_cluster role1 s2 new"
      "r2 = Inr () \<Longrightarrow> new + im_cs s2 \<le> length (im_file s2)"
      "r2 = Inr () \<Longrightarrow> \<forall>x<im_cs s1. fb (im_file s2) (new + x) = replicate (im_cs s1) 0 ! x"
      using write_fresh [OF w2 q1(1)] fr by simp_all
    have x2: "ext role s role1 s2" by (rule ext_trans [OF x1 grow_ext [OF q1(1) q2(2)]])
    show ?thesis
    proof (cases r2)
      case (Inl e)
      then have "(r, s') = (Inl e, s2)"
        unfolding assms(1) [symmetric] using True al Inr w2 by (simp add: ensureL2_def Let_def qbind_def)
      then show ?thesis using q2 x2 by (intro exI [of _ role1]) simp
    next
      case (Inr u)
      then have ok2: "r2 = Inr ()" by simp
      let ?p = "be_put 8 (new OR oflagCopied)"
      obtain r3 s3 where w3: "host_write (im_l1Offset s2 + i * 8) ?p s2 = (r3, s3)"
        by (cases "host_write (im_l1Offset s2 + i * 8) ?p s2")
      have run: "(r, s') = (case r3 of Inl e \<Rightarrow> (Inl e, s3)
          | Inr u \<Rightarrow> (Inr new, s3\<lparr>im_l1 := (im_l1 s3)[i := new OR oflagCopied]\<rparr>))"
        unfolding assms(1) [symmetric] using True al \<open>r1 = Inr new\<close> w2 ok2 w3
        by (simp add: ensureL2_def Let_def qbind_def del: le_put_numeral split: sum.splits)
      from w3 show ?thesis
      proof (cases rule: host_write_cases)
        case fail
        then have s': "r = Inl ''io''" "s' = s2\<lparr>im_ops := Suc (im_ops s2)\<rparr>" using run by simp_all
        have "ext role1 s2 role1 s'" unfolding s'(2) by (rule same_ext) simp
        then show ?thesis using s' img_wf_ops [OF q2(1)] ext_trans [OF x2] by (intro exI [of _ role1]) auto
      next
        case ok
        let ?s' = "s2\<lparr>im_ops := Suc (im_ops s2), im_file := write_at (im_file s2) (im_l1Offset s2 + i * 8) ?p,
            im_l1 := (im_l1 s2)[i := new OR oflagCopied]\<rparr>"
        have s': "r = Inr new" "s' = ?s'" using run ok by simp_all
        note k2 = growD(1) [OF grow_trans [OF q1(2) q2(2)]]
        have i2: "i < length (im_l1 s2)" "e_off (im_l1 s2 ! i) = 0" using k2 assms(3) True by (simp_all add: keep_def)
        have cs2: "im_cs s2 = im_cs s1" using keep_cs(1) [OF growD(1) [OF q2(2)]] .
        have z: "fb (im_file s2) x = 0" if "new \<le> x" "x < new + im_cs s2" for x
          using q2(5) [OF ok2, rule_format, of "x - new"] that cs2 by simp
        note lt = link_table(1) [OF q2(1) i2 q2(3) q2(4) [OF ok2] z s'(2)]
        note le = link_table_ext [OF q2(1) i2 q2(3) q2(4) [OF ok2] z s'(2)]
        have nw: "512 dvd new" "new < 2 ^ 56" "new \<noteq> 0"
          using q2(3) dvd_trans [OF wf_cs(1) [OF wfD(1) [OF q2(1)]]] by (auto simp: fresh_cluster_def)
        have "e_off (im_l1 s' ! i) = new" using e_off_linked [OF nw(1,2)] i2 by (simp add: s'(2))
        then show ?thesis using lt ext_trans [OF x2 le] s'(1) nw(3) by blast
      qed
    qed
  qed
qed

section \<open>Linking\<close>

text \<open>What a write keeps whatever it does: geometry, virtual size and backing image.\<close>

definition geq :: "Img \<Rightarrow> Img \<Rightarrow> bool" where
  "geq s s' \<longleftrightarrow>
     im_bits s' = im_bits s \<and> im_size s' = im_size s \<and> im_refcountOffset s' = im_refcountOffset s \<and>
     im_refcountClusters s' = im_refcountClusters s \<and> im_backing s' = im_backing s \<and>
     length (im_l1 s') = length (im_l1 s)"

lemma geq_eqs:
  assumes "geq s s'"
  shows "im_cs s' = im_cs s" "maxBlocks s' = maxBlocks s" "entriesPerBlock s' = entriesPerBlock s"
    "l1_span s' = l1_span s" "bk_ok bk s' = bk_ok bk s" "im_size s' = im_size s"
  using assms by (simp_all add: geq_def im_cs_def maxBlocks_def entriesPerBlock_def l1_span_def bk_ok_def)

lemma geq_refl [simp]: "geq s s"
  by (simp add: geq_def)

lemma geq_trans: "geq s s1 \<Longrightarrow> geq s1 s2 \<Longrightarrow> geq s s2"
  by (simp add: geq_def)

lemma ext_geq: "ext role s role' s' \<Longrightarrow> geq s s'"
  by (simp add: ext_def geq_def)

definition reserved :: "(nat \<Rightarrow> role) \<Rightarrow> Img \<Rightarrow> nat \<Rightarrow> bool" where
  "reserved role s h \<longleftrightarrow>
     role (h div im_cs s) = ROther \<and> fresh_cluster (role(h div im_cs s := RFree)) s h \<and>
     h + im_cs s \<le> length (im_file s)"

lemma ext_reserved:
  assumes "reserved role s h" "ext role s role' s'"
  shows "reserved role' s' h"
  using assms ext_eqs [OF assms(2)] by (auto simp: reserved_def fresh_cluster_def ext_def)

lemma ext_reserved_bytes:
  assumes "reserved role s h" "ext role s role' s'" "0 < im_cs s"
  shows "fb (im_file s') (h + g mod im_cs s) = fb (im_file s) (h + g mod im_cs s)"
proof -
  have "(h + g mod im_cs s) div im_cs s = h div im_cs s"
    using assms(1,3) by (intro data_div) (simp_all add: reserved_def fresh_cluster_def)
  then show ?thesis using assms(1,2) by (simp add: ext_def reserved_def)
qed

lemma linkL2_ok:
  assumes "linkL2 c h s = (r, s')" "img_wf role s" "reserved role s h" "c div (im_cs s div 8) < length (im_l1 s)"
  shows "\<exists>role'. img_wf role' s' \<and> geq s s' \<and>
    (\<forall>bk g. g < l1_span s \<longrightarrow> content bk s' g =
       (if r = Inr () \<and> g div im_cs s = c then fb (im_file s) (h + g mod im_cs s) else content bk s g))"
proof -
  let ?i = "c div (im_cs s div 8)" and ?j = "c mod (im_cs s div 8)" and ?v = "h OR oflagCopied"
  note geo = wfD(1) [OF assms(2)]
  obtain r1 s1 where en: "ensureL2 ?i s = (r1, s1)" by (cases "ensureL2 ?i s")
  obtain role1 where q1: "img_wf role1 s1" "ext role s role1 s1"
    "\<forall>t. r1 = Inr t \<longrightarrow> e_off (im_l1 s1 ! ?i) = t \<and> t \<noteq> 0"
    using ensureL2_ok [OF en assms(2,4)] by blast
  note e1 = ext_eqs [OF q1(2)]
  have c1: "content bk s1 g = content bk s g" if "g < l1_span s" for bk g using q1(2) that by (simp add: ext_def)
  have res1: "reserved role1 s1 h" by (rule ext_reserved [OF assms(3) q1(2)])
  show ?thesis
  proof (cases r1)
    case (Inl e)
    then have "(r, s') = (Inl e, s1)"
      unfolding assms(1) [symmetric] using en assms(4) by (simp add: linkL2_def setL2Entry_def Let_def qbind_def)
    then show ?thesis using q1(1) ext_geq [OF q1(2)] c1 by auto
  next
    case (Inr t)
    then have t: "e_off (im_l1 s1 ! ?i) = t" "t \<noteq> 0" using q1(3) by simp_all
    obtain r2 s2 where w: "host_write (t + ?j * 8) (be_put 8 ?v) s1 = (r2, s2)"
      by (cases "host_write (t + ?j * 8) (be_put 8 ?v) s1")
    have run: "(r, s') = (case r2 of Inl e \<Rightarrow> (Inl e, s2) | Inr u \<Rightarrow> (Inr (), updateL2Cache t ?j ?v s2))"
      unfolding assms(1) [symmetric] using en assms(4) Inr w
      by (simp add: linkL2_def setL2Entry_def Let_def qbind_def del: le_put_numeral split: sum.splits)
    from w show ?thesis
    proof (cases rule: host_write_cases)
      case fail
      then have s': "r = Inl ''io''" "s' = s1\<lparr>im_ops := Suc (im_ops s1)\<rparr>" using run by simp_all
      have x: "ext role1 s1 role1 s'" unfolding s'(2) by (rule same_ext) simp
      have "content bk s' g = content bk s g" if "g < l1_span s" for bk g
        using x that c1 [OF that] e1(4) by (simp add: ext_def)
      then show ?thesis using s'(1) img_wf_ops [OF q1(1)] ext_geq [OF ext_trans [OF q1(2) x]]
        by (intro exI [of _ role1]) (simp add: s'(2))
    next
      case ok
      let ?role = "role1(h div im_cs s1 := RFree)"
      have h0: "h div im_cs s1 \<noteq> 0" using res1
        by (auto simp: reserved_def fresh_cluster_def dest: dvd_imp_le div_eq_0_iff [THEN iffD1])
      have w2: "img_wf ?role s1" using res1 by (intro release q1(1) h0) (simp add: reserved_def)
      have fr: "fresh_cluster ?role s1 h" "h + im_cs s1 \<le> length (im_file s1)" using res1 by (simp_all add: reserved_def)
      have s': "r = Inr ()" "s' = updateL2Cache (e_off (im_l1 s1 ! (c div (im_cs s1 div 8)))) (c mod (im_cs s1 div 8)) ?v
          (s1\<lparr>im_ops := Suc (im_ops s1), im_file := write_at (im_file s1)
             (e_off (im_l1 s1 ! (c div (im_cs s1 div 8))) + 8 * (c mod (im_cs s1 div 8))) (be_put 8 ?v)\<rparr>)"
        using run ok t e1(1) by (simp_all add: mult.commute)
      have i1: "c div (im_cs s1 div 8) < length (im_l1 s1)" using assms(4) e1(1,8) by simp
      have t1: "e_off (im_l1 s1 ! (c div (im_cs s1 div 8))) \<noteq> 0" using t e1(1) by simp
      note le = link_entry [OF w2 i1 t1 fr s'(2)]
      have "geq s1 s'" unfolding s'(2) using updateL2Cache_same by (simp add: geq_def same_def)
      then have "geq s s'" using ext_geq [OF q1(2)] geq_trans by blast
      moreover have "content bk s' g = (if g div im_cs s = c then fb (im_file s) (h + g mod im_cs s) else content bk s g)"
        if "g < l1_span s" for bk g
        using le(2) [of g bk] that e1(1,4) c1 [OF that] ext_reserved_bytes [OF assms(3) q1(2) wf_cs(3) [OF geo], of g]
        by simp
      ultimately show ?thesis using le(1) s'(1) by auto
    qed
  qed
qed

section \<open>Writing a chunk\<close>

lemma cow_cluster_ok:
  assumes "cow_cluster c s = (r, s')" "img_wf role s" "bk_ok bk s"
  shows "img_wf role s' \<and> same s s' \<and>
    (\<forall>buf. r = Inr buf \<longrightarrow> length buf = im_cs s \<and>
       (\<forall>x<im_cs s. c * im_cs s + x < im_size s \<longrightarrow> buf ! x = content bk s (c * im_cs s + x)))"
proof -
  let ?n = "min (im_cs s) (im_size s - c * im_cs s)"
  obtain b t e s1 where rd: "read_loop (replicate ?n 0) (c * im_cs s) s = ((b, t, e), s1)" by (metis surj_pair)
  note ro = read_loop_ok [OF rd assms(2,3)]
  have s': "s' = s1" "r = (if e \<noteq> None \<and> e \<noteq> Some ''EOF'' then Inl ''read backing for CoW''
      else Inr (b @ replicate (im_cs s - ?n) 0))"
    using assms(1) rd by (auto simp: cow_cluster_def ReadAt_def Let_def split: if_splits)
  have "e \<noteq> Some ''EOF''" using ro by auto
  then have buf: "buf = b @ replicate (im_cs s - ?n) 0 \<and> t = ?n" if "r = Inr buf" for buf
    using s'(2) that ro by (auto split: if_splits)
  have lb: "length b = ?n" using ro by simp
  have "length buf = im_cs s" if "r = Inr buf" for buf using buf [OF that] lb by simp
  moreover have "buf ! x = content bk s (c * im_cs s + x)"
    if "r = Inr buf" "x < im_cs s" "c * im_cs s + x < im_size s" for buf x
  proof -
    have "x < ?n" using that by simp
    then show ?thesis using buf [OF that(1)] ro lb by (simp add: nth_append)
  qed
  ultimately show ?thesis using ro s'(1) by blast
qed

lemma hostOffset_ok:
  assumes "hostOffset c s = (r, s')" "img_wf role s" "c div (im_cs s div 8) < length (im_l1 s)"
  defines "e \<equiv> lookup (im_cs s) (im_l1 s) (im_file s) c"
  shows "img_wf role s' \<and> same s s' \<and>
    (\<forall>h. r = Inr h \<and> h \<noteq> 0 \<longrightarrow> h = e_off e \<and> is_copied e \<and> \<not> is_zero e)"
proof -
  let ?i = "c div (im_cs s div 8)" and ?j = "c mod (im_cs s div 8)"
  let ?t = "e_off (im_l1 s ! ?i)"
  note geo = wfD(1) [OF assms(2)]
  have j: "?j < im_cs s div 8" using wf_cs(4) [OF geo] by (rule mod_less_divisor)
  show ?thesis
  proof (cases "?t = 0")
    case True
    then have "(r, s') = (Inr 0, s)"
      unfolding assms(1) [symmetric] using assms(3) by (simp add: hostOffset_def Let_def)
    then show ?thesis using assms(2) by auto
  next
    case False
    obtain r1 s1 where l: "l2EntryAt ?t ?j s = (r1, s1)" by (cases "l2EntryAt ?t ?j s")
    note lo = l2EntryAt_ok [OF l assms(2,3) refl False j]
    have run: "(r, s') = (case r1 of Inl er \<Rightarrow> (Inl er, s1) | Inr l2e \<Rightarrow>
        if is_compressed l2e then (Inl ''compressed'', s1)
        else if \<not> (is_copied l2e \<and> \<not> is_zero l2e) then (Inr 0, s1) else (Inr (e_off l2e), s1))"
      unfolding assms(1) [symmetric] using False l assms(3)
      by (simp add: hostOffset_def Let_def qbind_def qfail_def qret_def split: sum.splits)
    have e: "e = be8 (im_file s) (?t + 8 * ?j)" using False by (simp add: e_def lookup_def Let_def)
    show ?thesis using run lo e by (auto split: sum.splits if_splits)
  qed
qed

text \<open>The bytes of a fresh cluster after copy-on-write: new data over the old view.\<close>

lemma nth_cow:
  assumes "length buf = cs" "m + length data \<le> cs" "x < cs"
  shows "splice buf m data ! x = (if m \<le> x \<and> x < m + length data then data ! (x - m) else buf ! x)"
  using assms by (simp add: nth_splice)

lemma fill_write:
  assumes "host_write off p s = (r, s')" "img_wf role s" "fresh_cluster role s off" "length p = im_cs s"
    "off + im_cs s \<le> im_fileSize s"
  shows "\<exists>role'. img_wf role' s' \<and> ext role s role' s' \<and>
    (r = Inr () \<longrightarrow> reserved role' s' off \<and> (\<forall>x<im_cs s. fb (im_file s') (off + x) = p ! x))"
proof -
  note wr = write_fresh [OF assms]
  then have x: "ext role s role s'" using grow_ext [OF assms(2)] by blast
  show ?thesis
  proof (cases "r = Inr ()")
    case False
    then show ?thesis using wr x by blast
  next
    case True
    let ?r = "role(off div im_cs s' := ROther)"
    have fr: "role (off div im_cs s') = RFree" "im_cs s' dvd off" using wr by (simp_all add: fresh_cluster_def)
    have "img_wf ?r s'" using wr fr by (intro reserve) simp_all
    moreover have "ext role s ?r s'" using x fr(1) by (auto simp: ext_def)
    moreover have "role(off div im_cs s' := RFree) = role" using fr(1) by auto
    then have "reserved ?r s' off" using wr True by (simp add: reserved_def)
    ultimately show ?thesis using wr True by blast
  qed
qed

lemma fill_fresh:
  fixes s guest data
  defines "c \<equiv> guest div im_cs s" and "m \<equiv> guest mod im_cs s" and "cs \<equiv> im_cs s"
  assumes "(if m = 0 \<and> length data = cs then host_write off data
     else qbind (cow_cluster c) (\<lambda>buf s1. host_write off (splice buf (guest mod im_cs s1) data) s1)) s = (r, s')"
    "img_wf role s" "bk_ok bk s" "fresh_cluster role s off" "off + cs \<le> im_fileSize s" "m + length data \<le> cs"
  shows "\<exists>role'. img_wf role' s' \<and> ext role s role' s' \<and>
    (r = Inr () \<longrightarrow> reserved role' s' off \<and>
      (\<forall>x<cs. (c * cs + x < im_size s \<or> m \<le> x \<and> x < m + length data) \<longrightarrow> fb (im_file s') (off + x) =
         (if m \<le> x \<and> x < m + length data then data ! (x - m) else content bk s (c * cs + x))))"
proof (cases "m = 0 \<and> length data = cs")
  case True
  then have w: "host_write off data s = (r, s')" "length data = im_cs s" using assms(4) by (simp_all add: cs_def)
  show ?thesis
    using fill_write [OF w(1) assms(5,7) w(2)] assms(8) True by (simp add: cs_def)
next
  case False
  obtain r1 s1 where cc: "cow_cluster c s = (r1, s1)" by (cases "cow_cluster c s")
  note co = cow_cluster_ok [OF cc assms(5,6)]
  then have w1: "img_wf role s1" and sm: "same s s1" by auto
  note e1 = same_eqs(1-3) [OF sm]
  have x1: "ext role s role s1" by (rule same_ext [OF sm])
  show ?thesis
  proof (cases r1)
    case (Inl e)
    then have "(r, s') = (Inl e, s1)" unfolding assms(4) [symmetric] using False cc by (auto simp: qbind_def)
    then show ?thesis using w1 x1 by (intro exI [of _ role]) simp
  next
    case (Inr buf)
    then have b: "length buf = cs" "\<forall>x<cs. c * cs + x < im_size s \<longrightarrow> buf ! x = content bk s (c * cs + x)"
      using co by (simp_all add: cs_def)
    have w: "host_write off (splice buf m data) s1 = (r, s')"
      using assms(4) False cc Inr e1(1) by (auto simp: qbind_def m_def split: if_splits)
    have fr: "fresh_cluster role s1 off" "off + im_cs s1 \<le> im_fileSize s1"
      using assms(7,8) e1 sm by (simp_all add: fresh_cluster_def same_def cs_def)
    have lp: "length (splice buf m data) = im_cs s1" using b(1) assms(9) e1(1) by (simp add: cs_def)
    obtain role' where q: "img_wf role' s'" "ext role s1 role' s'"
      "r = Inr () \<longrightarrow> reserved role' s' off \<and> (\<forall>x<im_cs s1. fb (im_file s') (off + x) = splice buf m data ! x)"
      using fill_write [OF w w1 fr(1) lp fr(2)] by blast
    have "fb (im_file s') (off + x) = (if m \<le> x \<and> x < m + length data then data ! (x - m) else content bk s (c * cs + x))"
      if "r = Inr ()" "x < cs" "c * cs + x < im_size s \<or> m \<le> x \<and> x < m + length data" for x
      using q(3) that b(2) nth_cow [OF b(1) assms(9) that(2)] e1(1) by (auto simp: cs_def)
    then show ?thesis using q ext_trans [OF x1 q(2)] by blast
  qed
qed

lemma allocDataCluster_ok:
  assumes "allocDataCluster (guest div im_cs s) data guest (guest mod im_cs s = 0 \<and> length data = im_cs s) s = (r, s')"
    "img_wf role s" "bk_ok bk s" "guest < im_size s" "guest mod im_cs s + length data \<le> im_cs s"
  shows "\<exists>role'. img_wf role' s' \<and> geq s s' \<and>
    (\<forall>g. g < im_size s \<or> guest \<le> g \<and> g < guest + length data \<longrightarrow> content bk s' g =
       (if \<not> isl r \<and> guest \<le> g \<and> g < guest + length data then data ! (g - guest) else content bk s g))"
proof -
  let ?c = "guest div im_cs s" and ?m = "guest mod im_cs s" and ?cs = "im_cs s"
  let ?full = "?m = 0 \<and> length data = ?cs"
  note geo = wfD(1) [OF assms(2)]
  have gi: "?c div (?cs div 8) < length (im_l1 s)"
    using assms(4) size_span [OF geo] by (intro span_l1) simp
  have inr: "g div ?cs = ?c \<and> g mod ?cs = ?m + (g - guest)" if "guest \<le> g" "g < guest + length data" for g
    using in_cluster_run [of guest ?cs "g - guest"] that assms(5) by simp
  have span: "g < l1_span s" if "g < im_size s \<or> guest \<le> g \<and> g < guest + length data" for g
    using that size_span [OF geo] inr span_index [OF geo gi] by (meson less_le_trans)
  obtain r1 s1 where al: "allocCluster s = (r1, s1)" by (cases "allocCluster s")
  obtain role1 where q1: "img_wf role1 s1" "grow role s role1 s1"
    "\<And>off. r1 = Inr off \<Longrightarrow> fresh_cluster role1 s1 off \<and> off + im_cs s1 \<le> im_fileSize s1"
    using allocCluster_fresh [OF al assms(2)] by blast
  note x1 = grow_ext [OF assms(2) q1(2)]
  note e1 = ext_eqs [OF x1]
  have c1: "content bk s1 g = content bk s g" if "g < l1_span s" for g using x1 that by (simp add: ext_def)
  show ?thesis
  proof (cases r1)
    case (Inl e)
    then have "(r, s') = (Inl e, s1)"
      unfolding assms(1) [symmetric] using al by (simp add: allocDataCluster_def qbind_def)
    then show ?thesis using q1(1) ext_geq [OF x1] c1 span by auto
  next
    case (Inr off)
    note fr = q1(3) [OF Inr]
    define fm where "fm = (if ?full then host_write off data
       else qbind (cow_cluster ?c) (\<lambda>buf s1. host_write off (splice buf (guest mod im_cs s1) data) s1))"
    obtain r3 s3 where fl0: "fm s1 = (r3, s3)" by (cases "fm s1")
    note fl = fl0 [unfolded fm_def]
    have bk1: "bk_ok bk s1" using assms(3) e1(5) by simp
    have fo: "off + im_cs s1 \<le> im_fileSize s1" using fr by blast
    obtain role3 where q3: "img_wf role3 s3" "ext role1 s1 role3 s3"
      "r3 = Inr () \<longrightarrow> reserved role3 s3 off \<and>
        (\<forall>x<?cs. (?c * ?cs + x < im_size s \<or> ?m \<le> x \<and> x < ?m + length data) \<longrightarrow> fb (im_file s3) (off + x) =
           (if ?m \<le> x \<and> x < ?m + length data then data ! (x - ?m) else content bk s1 (?c * ?cs + x)))"
      using fill_fresh [of guest s1 data off r3 s3 role1 bk, unfolded e1(1,6), OF fl q1(1) bk1 _ _ assms(5)] fr fo e1(1)
      by auto
    have x3: "ext role s role3 s3" by (rule ext_trans [OF x1 q3(2)])
    note e3 = ext_eqs [OF x3]
    have c3: "content bk s3 g = content bk s g" if "g < l1_span s" for g using x3 that by (simp add: ext_def)
    show ?thesis
    proof (cases r3)
      case (Inl e)
      then have "(r, s') = (Inl e, s3)"
        unfolding assms(1) [symmetric] using al \<open>r1 = Inr off\<close> fl by (simp add: allocDataCluster_def qbind_def)
      then show ?thesis using q3(1) ext_geq [OF x3] c3 span by auto
    next
      case (Inr u)
      then have ok3: "r3 = Inr ()" by simp
      obtain r4 s4 where li: "linkL2 ?c off s3 = (r4, s4)" by (cases "linkL2 ?c off s3")
      have run: "(r, s') = (case r4 of Inl e \<Rightarrow> (Inl e, s4) | Inr u \<Rightarrow> (Inr off, s4))"
        unfolding assms(1) [symmetric] using al \<open>r1 = Inr off\<close> fl ok3 li
        by (simp add: allocDataCluster_def qbind_def qret_def split: sum.splits)
      have gi3: "?c div (im_cs s3 div 8) < length (im_l1 s3)" using gi e3(1,8) by simp
      obtain role4 where q4: "img_wf role4 s4" "geq s3 s4"
        "\<forall>bk g. g < l1_span s3 \<longrightarrow> content bk s4 g =
           (if r4 = Inr () \<and> g div im_cs s3 = ?c then fb (im_file s3) (off + g mod im_cs s3) else content bk s3 g)"
        using linkL2_ok [OF li q3(1) _ gi3] q3(3) ok3 by blast
      have s': "s' = s4" "\<not> isl r \<longleftrightarrow> r4 = Inr ()" using run by (auto split: sum.splits)
      have "content bk s' g =
          (if \<not> isl r \<and> guest \<le> g \<and> g < guest + length data then data ! (g - guest) else content bk s g)"
        if g: "g < im_size s \<or> guest \<le> g \<and> g < guest + length data" for g
      proof -
        have sp: "g < l1_span s" by (rule span [OF g])
        have c4: "content bk s4 g =
            (if r4 = Inr () \<and> g div ?cs = ?c then fb (im_file s3) (off + g mod ?cs) else content bk s g)"
          using q4(3) sp c3 [OF sp] e3(1,4) by simp
        show ?thesis
        proof (cases "g div ?cs = ?c")
          case False
          then have "\<not> (guest \<le> g \<and> g < guest + length data)" using inr by blast
          then show ?thesis using c4 False s'(1) by auto
        next
          case True
          have gm: "g = ?c * ?cs + g mod ?cs" "guest = ?c * ?cs + ?m" using True by (metis div_mult_mod_eq, simp)
          have lt: "g mod ?cs < ?cs" using wf_cs(3) [OF geo] by (rule mod_less_divisor)
          have rng: "(?m \<le> g mod ?cs \<and> g mod ?cs < ?m + length data) = (guest \<le> g \<and> g < guest + length data)"
            "g mod ?cs - ?m = g - guest" using gm by linarith+
          have "?c * ?cs + g mod ?cs < im_size s \<or> ?m \<le> g mod ?cs \<and> g mod ?cs < ?m + length data \<longrightarrow>
              fb (im_file s3) (off + g mod ?cs) = (if ?m \<le> g mod ?cs \<and> g mod ?cs < ?m + length data
                then data ! (g mod ?cs - ?m) else content bk s1 (?c * ?cs + g mod ?cs))"
            using q3(3) ok3 lt by blast
          then have "fb (im_file s3) (off + g mod ?cs) =
              (if guest \<le> g \<and> g < guest + length data then data ! (g - guest) else content bk s g)"
            unfolding rng gm(1) [symmetric] c1 [OF sp] using g by blast
          then show ?thesis using c4 True s' by auto
        qed
      qed
      then show ?thesis using q4(1,2) ext_geq [OF x3] geq_trans s'(1) by blast
    qed
  qed
qed

lemma write_chunk_ok:
  assumes "write_chunk guest data s = (r, s')" "img_wf role s" "bk_ok bk s" "guest < im_size s"
    "guest mod im_cs s + length data \<le> im_cs s"
  shows "\<exists>role'. img_wf role' s' \<and> geq s s' \<and>
    (\<forall>g. g < im_size s \<or> guest \<le> g \<and> g < guest + length data \<longrightarrow> content bk s' g =
       (if r = Inr () \<and> guest \<le> g \<and> g < guest + length data then data ! (g - guest) else content bk s g))"
proof -
  let ?c = "guest div im_cs s" and ?m = "guest mod im_cs s"
  let ?e = "lookup (im_cs s) (im_l1 s) (im_file s) ?c"
  note geo = wfD(1) [OF assms(2)]
  have gi: "?c div (im_cs s div 8) < length (im_l1 s)"
    using assms(4) size_span [OF geo] by (intro span_l1) simp
  have inr: "g div im_cs s = ?c" if "guest \<le> g" "g < guest + length data" for g
    using in_cluster_run [of guest "im_cs s" "g - guest"] that assms(5) by simp
  have span: "g < l1_span s" if "g < im_size s \<or> guest \<le> g \<and> g < guest + length data" for g
    using that size_span [OF geo] inr span_index [OF geo gi] by (meson less_le_trans)
  obtain r1 s1 where ho: "hostOffset ?c s = (r1, s1)" by (cases "hostOffset ?c s")
  note ok = hostOffset_ok [OF ho assms(2) gi]
  then have w1: "img_wf role s1" and sm: "same s s1" by auto
  note e1 = same_eqs [OF sm]
  have q1: "geq s s1" using sm by (simp add: same_def geq_def)
  have l1: "im_l1 s1 = im_l1 s" "im_file s1 = im_file s" "im_size s1 = im_size s" using sm by (simp_all add: same_def)
  show ?thesis
  proof (cases r1)
    case (Inl e)
    then have "(r, s') = (Inl e, s1)"
      unfolding assms(1) [symmetric] using ho by (simp add: write_chunk_def Let_def qbind_def)
    then show ?thesis using w1 q1 e1(6) [of bk] by auto
  next
    case (Inr h)
    show ?thesis
    proof (cases "h = 0")
      case True
      obtain r2 s2 where al: "allocDataCluster ?c data guest (?m = 0 \<and> length data = im_cs s) s1 = (r2, s2)"
        by (cases "allocDataCluster ?c data guest (?m = 0 \<and> length data = im_cs s) s1")
      have run: "(r, s') = (case r2 of Inl e \<Rightarrow> (Inl e, s2) | Inr u \<Rightarrow> (Inr (), s2))"
        unfolding assms(1) [symmetric] using ho Inr True al
        by (simp add: write_chunk_def Let_def qbind_def qret_def split: sum.splits)
      have "bk_ok bk s1" using assms(3) e1(7) by simp
      then obtain role2 where q2: "img_wf role2 s2" "geq s1 s2"
        "\<forall>g. g < im_size s \<or> guest \<le> g \<and> g < guest + length data \<longrightarrow> content bk s2 g =
          (if \<not> isl r2 \<and> guest \<le> g \<and> g < guest + length data then data ! (g - guest) else content bk s g)"
        using allocDataCluster_ok [of guest s1 data r2 s2 role bk, unfolded e1(1,6) l1(3), OF al w1 _ assms(4,5)] by blast
      have "s' = s2" "\<not> isl r2 \<longleftrightarrow> r = Inr ()" using run by (auto split: sum.splits)
      then show ?thesis using q2 geq_trans [OF q1 q2(2)] by auto
    next
      case False
      have h: "h = e_off ?e" "is_copied ?e" "\<not> is_zero ?e" using ok Inr False by auto
      have "host_write (h + ?m) data s1 = (r, s')"
        using assms(1) ho Inr False by (simp add: write_chunk_def Let_def qbind_def)
      then show ?thesis
      proof (cases rule: host_write_cases)
        case fail
        then show ?thesis using img_wf_ops [OF w1] q1 e1(6) [of bk]
          by (intro exI [of _ role]) (simp add: geq_def content_def)
      next
        case okw: ok
        have k: "keep s1 s'" "im_fileSize s' = im_fileSize s1" "im_file s' = write_at (im_file s1) (h + ?m) data"
          using okw by (simp_all add: keep_def)
        have "geq s s'" using q1 k(1) by (simp add: geq_def keep_def)
        note wd = write_data [where c = ?c and e = ?e and guest = guest and data = data, OF w1 k(1,2),
            unfolded e1(1) l1(1,2), OF gi refl h(2,3) _ refl assms(5)]
        have hn: "e_off ?e \<noteq> 0" using False h(1) by simp
        have f': "im_file s' = write_at (im_file s) (e_off ?e + ?m) data" using k(3) h(1) l1(2) by simp
        have "img_wf role s'" by (rule wd(1) [OF hn f'])
        moreover have "content bk s' g =
            (if guest \<le> g \<and> g < guest + length data then data ! (g - guest) else content bk s g)"
          if "g < im_size s \<or> guest \<le> g \<and> g < guest + length data" for g
          using wd(2) [OF hn f', of g bk] span [OF that] e1(5,6) by simp
        ultimately show ?thesis using \<open>geq s s'\<close> okw(1) by auto
      qed
    qed
  qed
qed

lemma write_loop_ok:
  assumes "write_loop rest guest s = ((t, err), s')" "img_wf role s" "bk_ok bk s"
  shows "\<exists>role'. img_wf role' s' \<and> geq s s' \<and> t \<le> length rest \<and> (err = None \<longrightarrow> t = length rest) \<and>
    (\<forall>g. g < im_size s \<or> guest \<le> g \<and> g < guest + t \<longrightarrow> content bk s' g =
       (if guest \<le> g \<and> g < guest + t then rest ! (g - guest) else content bk s g))"
  using assms
proof (induction rest guest s arbitrary: t role rule: write_loop.induct)
  case (1 rest guest s)
  note step = "1.prems"(1) and w = "1.prems"(2) and bk = "1.prems"(3)
  note geo = wfD(1) [OF w]
  consider "rest = []" | "rest \<noteq> []" "im_size s \<le> guest" | "rest \<noteq> []" "guest < im_size s" by linarith
  then show ?case
  proof cases
    case 1
    then have "((t, err), s') = ((0, None), s)"
      unfolding step [symmetric] by (simp add: write_loop.simps [of "[]"])
    then show ?thesis using w 1 by auto
  next
    case 2
    then have "((t, err), s') = ((0, Some ''write beyond virtual size''), s)"
      unfolding step [symmetric] by (simp add: write_loop.simps [of rest])
    then show ?thesis using w by auto
  next
    case c3: 3
    define n where "n = min (im_cs s - guest mod im_cs s) (length rest)"
    have gm: "guest mod im_cs s < im_cs s" using wf_cs(3) [OF geo] by (rule mod_less_divisor)
    have n: "n \<le> length rest" "guest mod im_cs s + length (take n rest) \<le> im_cs s" "length (take n rest) = n"
      using gm by (simp_all add: n_def)
    obtain r1 s1 where wc: "write_chunk guest (take n rest) s = (r1, s1)" by (cases "write_chunk guest (take n rest) s")
    obtain role1 where q1: "img_wf role1 s1" "geq s s1"
      "\<forall>g. g < im_size s \<or> guest \<le> g \<and> g < guest + n \<longrightarrow> content bk s1 g =
         (if r1 = Inr () \<and> guest \<le> g \<and> g < guest + n then take n rest ! (g - guest) else content bk s g)"
      using write_chunk_ok [OF wc w bk c3(2) n(2)] unfolding n(3) by blast
    show ?thesis
    proof (cases r1)
      case (Inl e)
      then have "((t, err), s') = ((0, Some e), s1)"
        unfolding step [symmetric] using c3 wc by (simp add: write_loop.simps [of rest] n_def Let_def)
      then show ?thesis using q1 Inl by auto
    next
      case (Inr u)
      obtain t' e' s2 where wl: "write_loop (drop n rest) (guest + n) s1 = ((t', e'), s2)" by (metis surj_pair)
      have eq: "((t, err), s') = ((n + t', e'), s2)"
        unfolding step [symmetric] using c3 wc Inr wl by (simp add: write_loop.simps [of rest] n_def Let_def)
      have "\<not> im_size s \<le> guest" using c3(2) by simp
      have bk1: "bk_ok bk s1" using bk geq_eqs(5) [OF q1(2)] by simp
      have wl': "write_loop (drop n rest) (guest + n) s1 = ((t', err), s')" using wl eq by simp
      obtain role2 where q2: "img_wf role2 s'" "geq s1 s'" "t' \<le> length (drop n rest)" "err = None \<longrightarrow> t' = length (drop n rest)"
        "\<forall>g. g < im_size s1 \<or> guest + n \<le> g \<and> g < guest + n + t' \<longrightarrow> content bk s' g =
          (if guest + n \<le> g \<and> g < guest + n + t' then drop n rest ! (g - (guest + n)) else content bk s1 g)"
        using "1.IH" [OF c3(1) \<open>\<not> im_size s \<le> guest\<close> n_def wc [symmetric] Inr wl' q1(1) bk1] by blast
      have stop: "s' = s1" if "im_size s1 \<le> guest + n"
        using wl' that by (auto simp: write_loop.simps [of "drop n rest"] split: if_splits)
      have "content bk s' g = (if guest \<le> g \<and> g < guest + t then rest ! (g - guest) else content bk s g)"
        if g: "g < im_size s \<or> guest \<le> g \<and> g < guest + t" for g
      proof (cases "guest + n \<le> g \<and> g < guest + n + t'")
        case True
        moreover have "drop n rest ! (g - (guest + n)) = rest ! (g - guest)"
          using True q2(3) n(1) by (simp add: nth_drop)
        ultimately show ?thesis using q2(5) eq by auto
      next
        case False
        have "content bk s' g = content bk s1 g"
        proof (cases "im_size s1 \<le> guest + n")
          case True
          then show ?thesis using stop by simp
        next
          case lt: False
          have "g < im_size s1" using g False lt geq_eqs(6) [OF q1(2)] eq by auto
          then show ?thesis using q2(5) False by auto
        qed
        moreover have "g < im_size s \<or> guest \<le> g \<and> g < guest + n" using g False eq by auto
        ultimately show ?thesis using q1(3) Inr False eq by auto
      qed
      moreover have "t \<le> length rest" "err = None \<longrightarrow> t = length rest" using eq q2(3,4) n(1) by auto
      ultimately show ?thesis using q2(1) geq_trans [OF q1(2) q2(2)] by blast
    qed
  qed
qed

section \<open>A small image\<close>

text \<open>512-byte clusters: header, refcount table, one refcount block, an L1 table with one empty slot.\<close>

definition small_file :: "u8 list" where
  "small_file = write_at (write_at (replicate 2048 0) 1024 [0, 1, 0, 1, 0, 1, 0, 1]) (512 + 0 * 8) (be_put 8 1024)"

definition small_img :: Img where
  "small_img = \<lparr>im_file = small_file, im_ops = 0, im_io = (\<lambda>n. True), im_size = 32768, im_l1Offset = 1536,
     im_refcountOffset = 512, im_refcountClusters = 1, im_bits = 9, im_fileSize = 2048, im_l1 = [0],
     im_cache = [], im_cacheBytes = 0, im_backing = Some (raw_ReadAt [7, 8, 9])\<rparr>"

definition small_role :: "nat \<Rightarrow> role" where
  "small_role c = (if c = 0 then ROther else if c = 1 then RTab else if c = 2 then RBlk 0
     else if c = 3 then RL1 else RFree)"

lemma small_tabe: "tabe 512 small_file k = (if k = 0 then 1024 else 0)" if "k < 64"
proof (cases "k = 0")
  case True
  then show ?thesis unfolding small_file_def using tabe_new [of 1024 512 _ 0] by simp
next
  case False
  have "be8 (write_at (replicate 2048 0) 1024 [0, 1, 0, 1, 0, 1, 0, 1]) (512 + k * 8) = 0"
    using that by (intro be8_replicate) (auto simp: fb_write_at)
  then have "tabe 512 (write_at (replicate 2048 0) 1024 [0, 1, 0, 1, 0, 1, 0, 1]) k = 0" by (simp add: tabe_def)
  moreover have "tabe 512 small_file k = tabe 512 (write_at (replicate 2048 0) 1024 [0, 1, 0, 1, 0, 1, 0, 1]) k"
    unfolding small_file_def by (rule tabe_other [OF False])
  ultimately show ?thesis using False by simp
qed

lemma small_wf: "img_wf small_role small_img"
proof -
  have cs: "im_cs small_img = 512" "maxBlocks small_img = 64" "entriesPerBlock small_img = 256"
    by (simp_all add: im_cs_def maxBlocks_def entriesPerBlock_def small_img_def)
  have len: "length small_file = 2048" by (simp add: small_file_def)
  have "wf_geom small_img" by (simp add: wf_geom_def cs) (simp add: small_img_def)
  moreover have "wf_size 512 small_role small_file 2048" by (auto simp: wf_size_def small_role_def len)
  moreover have "wf_map 512 small_role [0] [] small_file" by (simp add: wf_map_def)
  moreover have "wf_l1 512 1536 small_role [0] small_file"
  proof -
    have "be8 small_file 1536 = 0"
      unfolding small_file_def by (intro be8_replicate) (auto simp: fb_write_at simp del: le_put_numeral)
    moreover have "x div 512 = 3" if "1536 \<le> x" "x < 1536 + 8" for x :: nat using that by simp
    ultimately show ?thesis by (simp add: wf_l1_def small_role_def)
  qed
  moreover have "wf_ref 512 64 512 small_role small_file"
  proof -
    have "x div 512 = 1" if "512 \<le> x" "x < 1024" for x :: nat using that by simp
    then show ?thesis by (auto simp: wf_ref_def small_tabe small_role_def)
  qed
  ultimately show ?thesis by (simp add: img_wf_def cs) (simp add: small_img_def)
qed

section \<open>Backing chains\<close>

text \<open>What an overlay relies on in its backing image.\<close>

locale guest_image =
  fixes rd :: "nat \<Rightarrow> nat \<Rightarrow> u8 list \<times> qerr option" and bytes :: "nat \<Rightarrow> u8"
  assumes serves: "backs rd bytes"
begin

lemma overlay_ok: "im_backing s = Some rd \<Longrightarrow> bk_ok bytes s"
  using serves by (simp add: bk_ok_def)

text \<open>A new overlay, with no L2 tables, shows its backing image.\<close>

lemma empty_overlay:
  assumes "img_wf role s" "im_backing s = Some rd" "\<forall>i < length (im_l1 s). e_off (im_l1 s ! i) = 0"
    "ReadAt p off s = ((buf, n, err), s')" "off + length p \<le> im_size s" "k < n"
  shows "buf ! k = bytes (off + k)"
proof -
  note ro = read_loop_ok [OF assms(4) [unfolded ReadAt_def] assms(1) overlay_ok [OF assms(2)]]
  have "off + k < l1_span s"
    using ro assms(5,6) size_span [OF wfD(1) [OF assms(1)]] by simp
  then have "lookup (im_cs s) (im_l1 s) (im_file s) ((off + k) div im_cs s) = 0"
    using assms(3) span_l1 by (simp add: lookup_def)
  then have "content bytes s (off + k) = bytes (off + k)" by (simp add: content_def content_of_def)
  then show ?thesis using ro assms(6) by simp
qed

end

lemma raw_backs: "backs (raw_ReadAt file) (fb file)"
  by (auto simp: backs_def raw_ReadAt_def fb_def Let_def)

interpretation raw_image: guest_image "raw_ReadAt f" "fb f" for f
  by unfold_locales (rule raw_backs)

text \<open>A qcow2 image read as a backing image, \<^verbatim>\<open>q.backing.ReadAt\<close>.\<close>

definition q_ReadAt :: "Img \<Rightarrow> nat \<Rightarrow> nat \<Rightarrow> u8 list \<times> qerr option" where
  "q_ReadAt s g n = (case ReadAt (replicate n 0) g s of ((buf, t, err), s') \<Rightarrow> (take t buf, err))"

text \<open>With a cluster-aligned size no chunk of a read runs past the end.\<close>

lemma chunk_in_size:
  assumes "cs dvd (sz::nat)" "g < sz" "n \<le> cs - g mod cs" "0 < cs"
  shows "g + n \<le> sz"
proof -
  obtain k where k: "sz = cs * k" using assms(1) by (rule dvdE)
  have "g div cs < k" using assms(2,4) k by (simp add: div_less_iff_less_mult mult.commute)
  then have "cs * Suc (g div cs) \<le> sz" unfolding k by (intro mult_le_mono2) simp
  moreover have "g = cs * (g div cs) + g mod cs" by simp
  moreover have "g mod cs < cs" using assms(4) by (rule mod_less_divisor)
  ultimately show ?thesis using assms(3) unfolding mult_Suc_right by linarith
qed

lemma read_loop_in_size:
  assumes "read_loop rest guest s = ((buf, t, err), s')" "img_wf role s" "bk_ok bk s" "im_cs s dvd im_size s"
  shows "t = 0 \<or> guest + t \<le> im_size s"
  using assms
proof (induction rest guest s arbitrary: buf t rule: read_loop.induct)
  case (1 rest guest s)
  note step = "1.prems"(1) and w = "1.prems"(2) and bk = "1.prems"(3) and al = "1.prems"(4)
  note geo = wfD(1) [OF w]
  show ?case
  proof (cases "rest = [] \<or> im_size s \<le> guest")
    case True
    then show ?thesis using step by (auto simp: read_loop.simps [of rest] split: if_splits)
  next
    case False
    then have ne: "rest \<noteq> []" and lt: "\<not> im_size s \<le> guest" "guest < im_size s" by simp_all
    obtain r s1 where rs: "resolve guest (length rest) s = (r, s1)" by (cases "resolve guest (length rest) s")
    have "guest < l1_span s" using lt(2) size_span [OF geo] by simp
    note ro = resolve_ok [OF rs w bk this]
    show ?thesis
    proof (cases r)
      case (Inl e)
      then show ?thesis using step ne lt rs by (simp add: read_loop.simps [of rest])
    next
      case (Inr hn)
      obtain h n where hn: "hn = (h, n)" by (cases hn)
      have n: "n = min (im_cs s - guest mod im_cs s) (length rest)" "host_view bk s h guest n" using ro Inr hn by auto
      then have nz: "n \<noteq> 0" using ne mod_less_divisor [OF wf_cs(3) [OF geo], of guest] by simp
      have fit: "guest + n \<le> im_size s" using n(1) by (intro chunk_in_size [OF al lt(2) _ wf_cs(3) [OF geo]]) simp
      obtain chunk e s2 where fl: "fill h guest (take n rest) s1 = ((chunk, e), s2)" by (metis surj_pair)
      show ?thesis
      proof (cases e)
        case (Some er)
        then show ?thesis using step ne lt rs Inr hn nz fl by (simp add: read_loop.simps [of rest])
      next
        case None
        obtain b' t' e' s3 where rl: "read_loop (drop n rest) (guest + n) s2 = ((b', t', e'), s3)" by (metis surj_pair)
        have eq: "((buf, t, err), s') = ((chunk @ b', n + t', e'), s3)"
          unfolding step [symmetric] using ne lt rs Inr hn nz fl None rl by (simp add: read_loop.simps [of rest])
        have sm1: "same s s1" and w1: "img_wf role s1" using ro by auto
        have hv: "host_view bk s1 h guest (length (take n rest))" using n host_view_same [OF sm1] by simp
        have bk1: "bk_ok bk s1" using bk same_eqs(7) [OF sm1] by simp
        have q2: "img_wf role s2" "same s s2" using fill_ok [OF fl hv bk1 w1] same_trans [OF sm1] by auto
        have bk2: "bk_ok bk s2" using bk same_eqs(7) [OF q2(2)] by simp
        have sz: "im_size s2 = im_size s" using q2(2) by (simp add: same_def)
        have al2: "im_cs s2 dvd im_size s2" using al same_eqs(1) [OF q2(2)] sz by simp
        have rl': "read_loop (drop n rest) (guest + n) s2 = ((b', t', err), s')" using rl eq by simp
        have "t' = 0 \<or> guest + n + t' \<le> im_size s"
          using "1.IH" [OF ne lt(1) rs [symmetric] Inr hn [symmetric] nz fl [symmetric] refl None rl' q2(1) bk2 al2] sz by simp
        then show ?thesis using fit eq by auto
      qed
    qed
  qed
qed

lemma q_backs:
  assumes "img_wf role s" "bk_ok bk s" "im_cs s dvd im_size s"
  shows "backs (q_ReadAt s) (\<lambda>g. if g < im_size s then content bk s g else 0)"
  unfolding backs_def
proof (intro allI impI)
  fix g n bs err assume rd: "q_ReadAt s g n = (bs, err)"
  obtain buf t e s' where r: "read_loop (replicate n 0) g s = ((buf, t, e), s')" by (metis surj_pair)
  have q: "bs = take t buf" "err = e" using rd r by (simp_all add: q_ReadAt_def ReadAt_def)
  note ro = read_loop_ok [OF r assms(1,2)]
  note ins = read_loop_in_size [OF r assms]
  have len: "length bs = t" using q ro by simp
  have "(if g + k < im_size s then content bk s (g + k) else 0) = (if k < length bs then bs ! k else 0)"
    if "k < n" "err = None \<or> err = Some ''EOF''" for k
  proof (cases "k < t")
    case True
    then have "g + k < im_size s" using ins by auto
    then show ?thesis using True len q ro by simp
  next
    case False
    then have "im_size s \<le> g + k" using that q ro by auto
    then show ?thesis using False len by simp
  qed
  then show "length bs \<le> n \<and> (err = None \<or> err = Some ''EOF'' \<longrightarrow>
      (\<forall>k<n. (if g + k < im_size s then content bk s (g + k) else 0) = (if k < length bs then bs ! k else 0)))"
    using len ro by simp
qed

section \<open>Properties\<close>

text \<open>
  C1: A write to a qcow2 image refines a write to a flat disk. Starting from an image that satisfies
  the invariant, whatever host reads and writes fail: the invariant holds afterwards, the count is at
  most the length asked for and equal to it without an error, the counted bytes are the new ones and
  every other byte of the disk is as before. The allocator, copy-on-write, L2 and L1 linking and
  refcount updates are all part of the write.\<close>

theorem WriteAt_refines:
  assumes "img_wf role s" "bk_ok bk s" "WriteAt p off s = ((n, err), s')"
  shows "(\<exists>role'. img_wf role' s') \<and> im_size s' = im_size s \<and> bk_ok bk s' \<and>
    n \<le> length p \<and> (err = None \<longrightarrow> n = length p) \<and>
    (\<forall>k < n. content bk s' (off + k) = p ! k) \<and>
    (\<forall>g < im_size s. \<not> (off \<le> g \<and> g < off + n) \<longrightarrow> content bk s' g = content bk s g)"
proof -
  obtain role' where q: "img_wf role' s'" "geq s s'" "n \<le> length p" "err = None \<longrightarrow> n = length p"
    "\<forall>g. g < im_size s \<or> off \<le> g \<and> g < off + n \<longrightarrow> content bk s' g =
       (if off \<le> g \<and> g < off + n then p ! (g - off) else content bk s g)"
    using write_loop_ok [OF assms(3) [unfolded WriteAt_def] assms(1,2)] by blast
  have "content bk s' (off + k) = p ! k" if "k < n" for k using q(5) that by simp
  moreover have "content bk s' g = content bk s g" if "g < im_size s" "\<not> (off \<le> g \<and> g < off + n)" for g
    using q(5) that by auto
  ultimately show ?thesis using q assms(2) geq_eqs(5,6) [OF q(2)] by blast
qed

theorem WriteAt_refines_witness:
  "\<exists>n err s'. WriteAt [1, 2, 3] 1000 small_img = ((n, err), s') \<and> (\<exists>role'. img_wf role' s') \<and>
     (err = None \<longrightarrow> content (fb [7, 8, 9]) s' 1001 = 2) \<and> content (fb [7, 8, 9]) s' 1 = content (fb [7, 8, 9]) small_img 1"
proof -
  obtain n err s' where r: "WriteAt [1, 2, 3] 1000 small_img = ((n, err), s')" by (metis surj_pair)
  have bk: "bk_ok (fb [7, 8, 9]) small_img" by (rule raw_image.overlay_ok) (simp add: small_img_def)
  have sz: "im_size small_img = 32768" by (simp add: small_img_def)
  note w = WriteAt_refines [OF small_wf bk r]
  have "content (fb [7, 8, 9]) s' (1000 + 1) = [1, 2, 3] ! 1" if "err = None" using w that by auto
  moreover have "content (fb [7, 8, 9]) s' 1 = content (fb [7, 8, 9]) small_img 1" using w sz by auto
  ultimately show ?thesis using r w by auto
qed

text \<open>
  C18: A read of a qcow2 image returns the flat disk's bytes: every counted byte is the guest's view at
  its offset, no error means the whole buffer was filled, and reading (which loads and evicts cached
  L2 tables) changes neither the invariant nor the view.\<close>

theorem ReadAt_refines:
  assumes "img_wf role s" "bk_ok bk s" "ReadAt p off s = ((buf, n, err), s')"
  shows "img_wf role s' \<and> content bk s' = content bk s \<and> length buf = length p \<and> n \<le> length p \<and>
    (\<forall>k < n. buf ! k = content bk s (off + k)) \<and> (err = None \<longrightarrow> n = length p) \<and>
    (err = Some ''EOF'' \<longrightarrow> im_size s \<le> off + n)"
  using read_loop_ok [OF assms(3) [unfolded ReadAt_def] assms(1,2)] same_eqs(6) by blast

theorem ReadAt_refines_witness:
  "\<exists>buf n err s'. ReadAt [0, 0, 0, 0] 1 small_img = ((buf, n, err), s') \<and> length buf = 4 \<and>
     (\<forall>k < n. buf ! k = content (fb [7, 8, 9]) small_img (1 + k))"
proof -
  obtain buf n err s' where r: "ReadAt [0, 0, 0, 0] 1 small_img = ((buf, n, err), s')" by (metis surj_pair)
  have bk: "bk_ok (fb [7, 8, 9]) small_img" by (rule raw_image.overlay_ok) (simp add: small_img_def)
  show ?thesis using ReadAt_refines [OF small_wf bk r] r by auto
qed

text \<open>
  Backing chains compose: an overlay without L2 tables on top of a qcow2 image whose size is a
  multiple of its cluster size reads as that image, and as zeros past its end.\<close>

theorem chain_reads_through:
  assumes "img_wf role s" "im_backing s = Some (q_ReadAt base)" "\<forall>i < length (im_l1 s). e_off (im_l1 s ! i) = 0"
    "img_wf role' base" "bk_ok bk base" "im_cs base dvd im_size base"
    "ReadAt p off s = ((buf, n, err), s')" "off + length p \<le> im_size s" "k < n"
  shows "buf ! k = (if off + k < im_size base then content bk base (off + k) else 0)"
proof -
  have "guest_image (q_ReadAt base) (\<lambda>g. if g < im_size base then content bk base g else 0)"
    by unfold_locales (rule q_backs [OF assms(4-6)])
  from guest_image.empty_overlay [OF this assms(1-3,7-9)] show ?thesis .
qed

definition small_overlay :: Img where
  "small_overlay = small_img\<lparr>im_backing := Some (q_ReadAt small_img)\<rparr>"

theorem chain_reads_through_witness:
  "\<exists>buf n err s'. ReadAt [0, 0] 1 small_overlay = ((buf, n, err), s') \<and>
     (\<forall>k < n. buf ! k = content (fb [7, 8, 9]) small_img (1 + k))"
proof -
  obtain buf n err s' where r: "ReadAt [0, 0] 1 small_overlay = ((buf, n, err), s')" by (metis surj_pair)
  have bk: "bk_ok (fb [7, 8, 9]) small_img" by (rule raw_image.overlay_ok) (simp add: small_img_def)
  have "img_wf small_role small_overlay"
    using small_wf by (simp add: img_wf_def wf_geom_def small_overlay_def im_cs_def maxBlocks_def entriesPerBlock_def)
  moreover have "im_cs small_img dvd im_size small_img" by (simp add: im_cs_def small_img_def)
  ultimately have t: "buf ! k = (if 1 + k < im_size small_img then content (fb [7, 8, 9]) small_img (1 + k) else 0)"
    if "k < n" for k
    using chain_reads_through [of small_role small_overlay small_img small_role "fb [7, 8, 9]" "[0, 0]" 1 buf n err s' k,
        OF _ _ _ small_wf bk _ r _ that]
    by (simp add: small_overlay_def small_img_def)
  have "n \<le> 2" using read_loop_ok [OF r [unfolded ReadAt_def] \<open>img_wf small_role small_overlay\<close>, of "\<lambda>g. if g < im_size small_img then content (fb [7, 8, 9]) small_img g else 0"]
      q_backs [OF small_wf bk \<open>im_cs small_img dvd im_size small_img\<close>]
    by (simp add: bk_ok_def small_overlay_def)
  then have "\<forall>k < n. buf ! k = content (fb [7, 8, 9]) small_img (1 + k)"
    using t by (auto simp: small_img_def)
  then show ?thesis using r by blast
qed

text \<open>
  The virtual size is only checked at the start of each chunk. A read that starts below the virtual
  size of an image with no L2 tables and ends past it inside the first cluster returns the backing
  image's bytes beyond the virtual size and no error, while a read that starts at the virtual size
  reports the end of the image.\<close>

theorem ReadAt_past_size:
  assumes "im_l1 s = [0]" "im_backing s = Some (raw_ReadAt f)" "3 \<le> im_bits s"
    "off < im_size s" "off + length p \<le> 2 ^ im_bits s" "off + length p \<le> length f" "p \<noteq> []" "q \<noteq> []"
  shows "ReadAt p off s = ((take (length p) (drop off f), length p, None), s) \<and>
    ReadAt q (im_size s) s = ((q, 0, Some ''EOF''), s)"
proof -
  have cs: "im_cs s = 2 ^ im_bits s" by (simp add: im_cs_def)
  have "off < 2 ^ im_bits s" using assms(5,7) by (cases p) auto
  then have d: "off div im_cs s = 0" "off mod im_cs s = off" by (simp_all add: cs)
  have "resolve off (length p) s = (Inr (RBacking, length p), s)"
    using assms(1,2,5) d by (simp add: resolve_def Let_def backingOrZero_def cs)
  moreover have "fill RBacking off p s = ((take (length p) (drop off f), None), s)"
    using assms(2,6) by (simp add: fill_def raw_ReadAt_def Let_def)
  ultimately have "read_loop p off s = ((take (length p) (drop off f), length p, None), s)"
    using assms(4,7) by (simp add: read_loop.simps [of p] read_loop.simps [of "[]"])
  moreover have "read_loop q (im_size s) s = ((q, 0, Some ''EOF''), s)"
    using assms(8) by (simp add: read_loop.simps [of q])
  ultimately show ?thesis by (simp add: ReadAt_def)
qed

theorem ReadAt_past_size_witness:
  "ReadAt [0, 0] 0 (small_img\<lparr>im_size := 1\<rparr>) = (([7, 8], 2, None), small_img\<lparr>im_size := 1\<rparr>)"
  using ReadAt_past_size [of "small_img\<lparr>im_size := 1\<rparr>" "[7, 8, 9]" 0 "[0, 0]" "[0]"]
  by (simp add: small_img_def)

end
