(* ===== verification/CowRoots.thy ===== *)
theory CowRoots
  imports Text "HOL-Library.Sublist"
begin

text \<open>
  Where the backing file of an image may live, \<^verbatim>\<open>internal/cow/manager.go\<close>: the syntactic check of
  names, the containment check, and the reference-counted registry of backing roots.

  A clean absolute path is the list of its components. \<^verbatim>\<open>filepath.EvalSymlinks\<close> depends on the
  file system and is a parameter: it returns the clean absolute path of the file a name leads to.
\<close>

type_synonym path = "string list"

section \<open>Names\<close>

definition ContainsAny :: "string \<Rightarrow> string \<Rightarrow> bool" where
  "ContainsAny s cs = list_ex (\<lambda>c. c \<in> set cs) s"

definition forbidden_prefixes :: "string list" where
  "forbidden_prefixes = [''json:'', ''nbd'', ''http://'', ''https://'', ''ftp://'', ''ssh://'', ''gluster://'', ''iscsi://'']"

definition validatePath :: "string \<Rightarrow> (string, unit) go" where
  "validatePath p =
     (if p = '''' then Err ''empty path''
      else if ContainsAny p [CHR '','', CHR 0x00] then Err ''forbidden sequence''
      else let first = takeWhile (\<lambda>c. c \<noteq> CHR ''/'') p
           in if HasPrefix first ''-'' then Err ''option injection''
              else if list_ex (\<lambda>pref. HasPrefix (ToLower p) pref) forbidden_prefixes then Err ''protocol prefix''
              else Ok ())"

definition validateBackingName :: "string \<Rightarrow> (string, unit) go" where
  "validateBackingName name = (if name = '''' then Err ''empty backing name'' else validatePath name)"

section \<open>Paths\<close>

text \<open>Splitting at slashes and \<^verbatim>\<open>filepath.Clean\<close> of an absolute path.\<close>

fun split_slash :: "string \<Rightarrow> string list" where
  "split_slash [] = [[]]"
| "split_slash (c # cs) =
     (if c = CHR ''/'' then [] # split_slash cs
      else case split_slash cs of [] \<Rightarrow> [[c]] | w # ws \<Rightarrow> (c # w) # ws)"

text \<open>The accumulator holds the components so far, last first.\<close>

primrec clean_from :: "path \<Rightarrow> string list \<Rightarrow> path" where
  "clean_from acc [] = rev acc"
| "clean_from acc (w # ws) =
     (if w = '''' \<or> w = ''.'' then clean_from acc ws
      else if w = ''..'' then clean_from (tl acc) ws
      else clean_from (w # acc) ws)"

definition IsAbs :: "string \<Rightarrow> bool" where
  "IsAbs p = HasPrefix p ''/''"

definition path_str :: "path \<Rightarrow> string" where
  "path_str p = (if p = [] then ''/'' else concat (map (\<lambda>w. CHR ''/'' # w) p))"

definition Dir :: "path \<Rightarrow> path" where
  "Dir p = butlast p"

text \<open>\<^verbatim>\<open>filepath.Rel\<close> of two clean absolute paths, as components.\<close>

fun rel_path :: "path \<Rightarrow> path \<Rightarrow> path" where
  "rel_path (d # ds) (p # ps) =
     (if d = p then rel_path ds ps else replicate (length (d # ds)) ''..'' @ p # ps)"
| "rel_path ds ps = replicate (length ds) ''..'' @ ps"

definition withinSubtree :: "path \<Rightarrow> path \<Rightarrow> bool" where
  "withinSubtree p dir =
     (let rel = rel_path dir p
      in rel = [] \<or> rel \<noteq> [''..''] \<and> \<not> (2 \<le> length rel \<and> hd rel = ''..''))"

section \<open>The registry of roots\<close>

record roots =
  rt_dyn :: "(path, nat) gomap"
  rt_ovl :: "(path, path) gomap"

definition root_count :: "roots \<Rightarrow> path \<Rightarrow> nat" where
  "root_count m d = (case map_of (rt_dyn m) d of None \<Rightarrow> 0 | Some n \<Rightarrow> n)"

definition root_inc :: "path \<Rightarrow> roots \<Rightarrow> roots" where
  "root_inc d m = m\<lparr>rt_dyn := AList.update d (root_count m d + 1) (rt_dyn m)\<rparr>"

definition root_dec :: "path \<Rightarrow> roots \<Rightarrow> roots" where
  "root_dec d m =
     (if root_count m d \<le> 1 then m\<lparr>rt_dyn := AList.delete d (rt_dyn m)\<rparr>
      else m\<lparr>rt_dyn := AList.update d (root_count m d - 1) (rt_dyn m)\<rparr>)"

definition RegisterBackingRoot :: "path \<Rightarrow> roots \<Rightarrow> roots" where
  "RegisterBackingRoot dir m = root_inc dir m"

definition UnregisterBackingRoot :: "path \<Rightarrow> roots \<Rightarrow> roots" where
  "UnregisterBackingRoot dir m = root_dec dir m"

definition registerOverlayBacking :: "path \<Rightarrow> path \<Rightarrow> roots \<Rightarrow> roots" where
  "registerOverlayBacking overlay baseDir m =
     (let m1 = (case map_of (rt_ovl m) overlay of Some old \<Rightarrow> root_dec old m | None \<Rightarrow> m);
          m2 = root_inc baseDir m1
      in m2\<lparr>rt_ovl := AList.update overlay baseDir (rt_ovl m2)\<rparr>)"

definition unregisterOverlayBacking :: "path \<Rightarrow> roots \<Rightarrow> roots" where
  "unregisterOverlayBacking overlay m =
     (case map_of (rt_ovl m) overlay of
        None \<Rightarrow> m
      | Some baseDir \<Rightarrow> root_dec baseDir (m\<lparr>rt_ovl := AList.delete overlay (rt_ovl m)\<rparr>))"

definition staticBackingRoots :: "path option \<Rightarrow> path option \<Rightarrow> path list" where
  "staticBackingRoots cowEnv stateEnv =
     [case cowEnv of None \<Rightarrow> [''var'', ''lib'', ''uml-container'', ''cow''] | Some p \<Rightarrow> p,
      [''var'', ''lib'', ''uml-container'', ''images''],
      case stateEnv of None \<Rightarrow> [''var'', ''lib'', ''uml-container'', ''containers''] | Some p \<Rightarrow> p]"

text \<open>\<open>eval\<close> resolves a name to the real path; unresolvable roots vouch for nothing.\<close>

primrec first_root :: "(string \<Rightarrow> path option) \<Rightarrow> path \<Rightarrow> path list \<Rightarrow> bool" where
  "first_root eval real [] = False"
| "first_root eval real (r # rs) =
     (case eval (path_str r) of
        None \<Rightarrow> first_root eval real rs
      | Some realRoot \<Rightarrow> if withinSubtree real realRoot then True else first_root eval real rs)"

definition backingPathAllowed ::
  "(string \<Rightarrow> path option) \<Rightarrow> path list \<Rightarrow> roots \<Rightarrow> path \<Rightarrow> string \<Rightarrow> (string, path) go" where
  "backingPathAllowed eval static m imagePath candidate =
     (case eval candidate of
        None \<Rightarrow> Err ''resolve backing''
      | Some real \<Rightarrow>
          if first_root eval real ([Dir imagePath] @ static @ map fst (rt_dyn m)) then Ok real
          else Err ''outside all managed storage roots'')"

section \<open>Containment\<close>

text \<open>A path component of a clean path is a proper name.\<close>

definition clean_path :: "path \<Rightarrow> bool" where
  "clean_path p = list_all (\<lambda>w. w \<noteq> '''' \<and> w \<noteq> ''.'' \<and> w \<noteq> ''..'') p"

lemma rel_path_prefix: "rel_path dir (dir @ rest) = rest"
  by (induction dir) simp_all

lemma rel_path_outside:
  assumes "\<not> prefix dir p"
  shows "\<exists>rest. rel_path dir p = ''..'' # rest"
  using assms by (induction dir p rule: rel_path.induct) (auto simp: neq_Nil_conv)

text \<open>Names that merely start with two dots stay inside, and nothing outside passes.\<close>

lemma withinSubtree_iff:
  assumes "clean_path p"
  shows "withinSubtree p dir \<longleftrightarrow> prefix dir p"
proof
  assume "prefix dir p"
  then obtain rest where p: "p = dir @ rest" by (auto simp: prefix_def)
  then have "rest = [] \<or> hd rest \<noteq> ''..''" using assms by (cases rest) (auto simp: clean_path_def)
  moreover have "rel_path dir p = rest" unfolding p by (rule rel_path_prefix)
  ultimately show "withinSubtree p dir" by (auto simp: withinSubtree_def Let_def)
next
  assume w: "withinSubtree p dir"
  show "prefix dir p"
  proof (rule ccontr)
    assume "\<not> prefix dir p"
    then obtain rest where "rel_path dir p = ''..'' # rest" using rel_path_outside by blast
    then show False using w by (cases rest) (auto simp: withinSubtree_def)
  qed
qed

lemma first_root_iff:
  "first_root eval real rs \<longleftrightarrow> (\<exists>r \<in> set rs. \<exists>rr. eval (path_str r) = Some rr \<and> withinSubtree real rr)"
  by (induction rs) (auto split: option.splits)

lemma backing_contained:
  assumes "backingPathAllowed eval static m imagePath candidate = Ok real" "clean_path real"
  shows "eval candidate = Some real \<and>
    (\<exists>r \<in> set (Dir imagePath # static @ map fst (rt_dyn m)). \<exists>rr. eval (path_str r) = Some rr \<and> prefix rr real)"
  using assms withinSubtree_iff by (auto simp: backingPathAllowed_def first_root_iff split: option.splits if_splits)

section \<open>Counting\<close>

datatype root_op =
  Register path
| Unregister path
| AddOverlay path path
| DropOverlay path

primrec root_step :: "root_op \<Rightarrow> roots \<Rightarrow> roots" where
  "root_step (Register d) m = RegisterBackingRoot d m"
| "root_step (Unregister d) m = UnregisterBackingRoot d m"
| "root_step (AddOverlay f d) m = registerOverlayBacking f d m"
| "root_step (DropOverlay f) m = unregisterOverlayBacking f m"

text \<open>Outstanding explicit registrations; \<open>None\<close> once a root is unregistered without one.\<close>

primrec outstanding :: "root_op list \<Rightarrow> (path \<Rightarrow> nat) option" where
  "outstanding [] = Some (\<lambda>d. 0)"
| "outstanding (op # ops) =
     (case outstanding ops of
        None \<Rightarrow> None
      | Some reg \<Rightarrow>
          (case op of
             Register d \<Rightarrow> Some (reg(d := reg d + 1))
           | Unregister d \<Rightarrow> if reg d = 0 then None else Some (reg(d := reg d - 1))
           | _ \<Rightarrow> Some reg))"

text \<open>The history is kept latest first.\<close>

definition run_roots :: "root_op list \<Rightarrow> roots" where
  "run_roots ops = foldr root_step ops \<lparr>rt_dyn = [], rt_ovl = []\<rparr>"

definition overlays_of :: "roots \<Rightarrow> path \<Rightarrow> path set" where
  "overlays_of m d = {f. map_of (rt_ovl m) f = Some d}"

definition roots_ok :: "(path \<Rightarrow> nat) \<Rightarrow> roots \<Rightarrow> bool" where
  "roots_ok reg m \<longleftrightarrow>
     (\<forall>d. root_count m d = reg d + card (overlays_of m d)) \<and> (\<forall>d. map_of (rt_dyn m) d \<noteq> Some 0)"

lemma finite_overlays [simp]: "finite (overlays_of m d)"
proof -
  have "overlays_of m d \<subseteq> fst ` set (rt_ovl m)" by (force simp: overlays_of_def dest: map_of_SomeD)
  then show ?thesis by (rule finite_subset) simp
qed

lemma root_count_inc: "root_count (root_inc d m) d' = root_count m d' + (if d' = d then 1 else 0)"
  by (simp add: root_inc_def root_count_def gomap_simps)

lemma root_count_dec: "root_count (root_dec d m) d' = root_count m d' - (if d' = d then 1 else 0)"
  by (auto simp: root_dec_def root_count_def gomap_simps)

lemma root_frames [simp]:
  "rt_ovl (root_inc d m) = rt_ovl m" "rt_ovl (root_dec d m) = rt_ovl m"
  "overlays_of (root_inc d m) = overlays_of m" "overlays_of (root_dec d m) = overlays_of m"
  "root_count (m\<lparr>rt_ovl := x\<rparr>) = root_count m"
  by (auto simp: root_inc_def root_dec_def overlays_of_def root_count_def)

lemma root_nonzero:
  assumes "\<forall>d. map_of (rt_dyn m) d \<noteq> Some 0"
  shows "map_of (rt_dyn (root_inc d m)) d' \<noteq> Some 0" "map_of (rt_dyn (root_dec d m)) d' \<noteq> Some 0"
  using assms by (auto simp: root_inc_def root_dec_def gomap_simps split: if_splits)

lemma overlays_update:
  "overlays_of (m\<lparr>rt_ovl := AList.update f d (rt_ovl m)\<rparr>) d' =
     (if d' = d then insert f (overlays_of m d') else overlays_of m d' - {f})"
  by (auto simp: overlays_of_def gomap_simps split: if_splits)

lemma overlays_delete:
  "overlays_of (m\<lparr>rt_ovl := AList.delete f (rt_ovl m)\<rparr>) d' = overlays_of m d' - {f}"
  by (auto simp: overlays_of_def gomap_simps split: if_splits)

lemma overlay_in: "map_of (rt_ovl m) f = Some d \<Longrightarrow> f \<in> overlays_of m d' \<longleftrightarrow> d' = d"
  by (auto simp: overlays_of_def)

lemma overlay_notin: "map_of (rt_ovl m) f = None \<Longrightarrow> f \<notin> overlays_of m d'"
  by (simp add: overlays_of_def)

lemma roots_ok_drop:
  assumes "roots_ok reg m" "map_of (rt_ovl m) f = Some d"
  shows "roots_ok reg (root_dec d (m\<lparr>rt_ovl := AList.delete f (rt_ovl m)\<rparr>))"
proof -
  let ?m = "m\<lparr>rt_ovl := AList.delete f (rt_ovl m)\<rparr>"
  have "root_count (root_dec d ?m) d' = reg d' + card (overlays_of (root_dec d ?m) d')" for d'
  proof -
    have "root_count m d' = reg d' + card (overlays_of m d')" using assms(1) by (simp add: roots_ok_def)
    moreover have "card (overlays_of m d' - {f}) = card (overlays_of m d') - (if d' = d then 1 else 0)"
      using overlay_in [OF assms(2), of d'] by (cases "d' = d") simp_all
    moreover have "d' = d \<Longrightarrow> 0 < card (overlays_of m d')"
      using overlay_in [OF assms(2), of d'] by (auto simp: card_gt_0_iff)
    ultimately show ?thesis by (cases "d' = d") (simp_all add: root_count_dec overlays_delete)
  qed
  moreover have "\<forall>d. map_of (rt_dyn ?m) d \<noteq> Some 0" using assms(1) by (simp add: roots_ok_def)
  ultimately show ?thesis using root_nonzero(2) [of ?m] by (simp add: roots_ok_def)
qed

lemma roots_ok_add:
  assumes "roots_ok reg m" "map_of (rt_ovl m) f = None"
  shows "roots_ok reg (root_inc d m\<lparr>rt_ovl := AList.update f d (rt_ovl m)\<rparr>)"
proof -
  let ?m = "root_inc d m\<lparr>rt_ovl := AList.update f d (rt_ovl m)\<rparr>"
  have ov: "overlays_of ?m d' = (if d' = d then insert f (overlays_of m d') else overlays_of m d' - {f})" for d'
    using overlays_update [where m = "root_inc d m" and f = f and d = d and d' = d'] by simp
  have "root_count ?m d' = reg d' + card (overlays_of ?m d')" for d'
  proof -
    have "root_count m d' = reg d' + card (overlays_of m d')" using assms(1) by (simp add: roots_ok_def)
    then show ?thesis using overlay_notin [OF assms(2), of d'] by (cases "d' = d") (simp_all add: ov root_count_inc)
  qed
  moreover have "\<forall>d. map_of (rt_dyn m) d \<noteq> Some 0" using assms(1) by (simp add: roots_ok_def)
  ultimately show ?thesis using root_nonzero(1) [of m] by (simp add: roots_ok_def)
qed

text \<open>Replacing the directory of an overlay is dropping it and adding it again.\<close>

lemma registerOverlay_replace:
  assumes "map_of (rt_ovl m) f = Some old"
  shows "map_of (rt_ovl (unregisterOverlayBacking f m)) f = None"
    "roots_ok reg (registerOverlayBacking f d m) \<longleftrightarrow> roots_ok reg (registerOverlayBacking f d (unregisterOverlayBacking f m))"
proof -
  let ?u = "unregisterOverlayBacking f m"
  show n: "map_of (rt_ovl ?u) f = None" using assms by (simp add: unregisterOverlayBacking_def gomap_simps)
  have dyn: "rt_dyn (root_dec old (m\<lparr>rt_ovl := x\<rparr>)) = rt_dyn (root_dec old m)" for x
    by (simp add: root_dec_def)
  have "map_of (rt_ovl (registerOverlayBacking f d m)) = map_of (rt_ovl (registerOverlayBacking f d ?u))"
    using assms n by (simp add: registerOverlayBacking_def unregisterOverlayBacking_def Let_def gomap_simps)
  moreover have "rt_dyn (registerOverlayBacking f d m) = rt_dyn (registerOverlayBacking f d ?u)"
    using assms n
    by (simp add: registerOverlayBacking_def unregisterOverlayBacking_def Let_def dyn root_inc_def root_count_def)
  ultimately show "roots_ok reg (registerOverlayBacking f d m) \<longleftrightarrow> roots_ok reg (registerOverlayBacking f d ?u)"
    by (simp add: roots_ok_def overlays_of_def root_count_def)
qed

lemma roots_ok_step:
  assumes "roots_ok reg m" "outstanding ops = Some reg" "outstanding (op # ops) = Some reg'"
  shows "roots_ok reg' (root_step op m)"
proof (cases op)
  case (Register d)
  then have "reg' = reg(d := reg d + 1)" using assms(2,3) by simp
  then show ?thesis using Register assms(1) root_nonzero(1) [of m]
    by (simp add: roots_ok_def RegisterBackingRoot_def root_count_inc)
next
  case (Unregister d)
  then have "0 < reg d" "reg' = reg(d := reg d - 1)" using assms(2,3) by (auto split: if_splits)
  then show ?thesis using Unregister assms(1) root_nonzero(2) [of m]
    by (simp add: roots_ok_def UnregisterBackingRoot_def root_count_dec)
next
  case (DropOverlay f)
  then have "reg' = reg" using assms(2,3) by simp
  then show ?thesis using DropOverlay assms(1) roots_ok_drop
    by (auto simp: unregisterOverlayBacking_def split: option.splits)
next
  case (AddOverlay f d)
  then have r: "reg' = reg" using assms(2,3) by simp
  have fresh: "roots_ok reg (registerOverlayBacking f d m1)" if "roots_ok reg m1" "map_of (rt_ovl m1) f = None" for m1
    using roots_ok_add [OF that] that(2) by (simp add: registerOverlayBacking_def Let_def)
  show ?thesis
  proof (cases "map_of (rt_ovl m) f")
    case None
    then show ?thesis using fresh assms(1) r AddOverlay by simp
  next
    case (Some old)
    have "roots_ok reg (unregisterOverlayBacking f m)"
      using roots_ok_drop [OF assms(1) Some] Some by (simp add: unregisterOverlayBacking_def)
    then show ?thesis using fresh registerOverlay_replace [OF Some] r AddOverlay by simp
  qed
qed

lemma run_roots_ok: "outstanding ops = Some reg \<Longrightarrow> roots_ok reg (run_roots ops)"
proof (induction ops arbitrary: reg)
  case Nil
  then show ?case by (auto simp: run_roots_def roots_ok_def root_count_def overlays_of_def)
next
  case (Cons op ops)
  then obtain reg0 where r: "outstanding ops = Some reg0" by (auto split: option.splits)
  then have "roots_ok reg (root_step op (run_roots ops))" using Cons by (intro roots_ok_step [OF _ r])
  then show ?case by (simp add: run_roots_def)
qed

section \<open>Properties\<close>



end
