(* ===== verification/Qcow2Open.thy ===== *)
theory Qcow2Open
  imports Qcow2Image CowRoots
begin

text \<open>
  Opening an image, \<^verbatim>\<open>openGuestImageDepth\<close> in \<^verbatim>\<open>internal/cow/qcow2.go\<close>: the header checks, the
  header extensions, the backing name, the backing chain and the L1 table. Every slice expression
  and big-endian read of the code can panic here too; no header makes one do so.

  The file system is a parameter: \<open>e_fs\<close> gives the file at a path, \<open>e_eval\<close> is
  \<^verbatim>\<open>filepath.EvalSymlinks\<close>.
\<close>

section \<open>Header\<close>

definition qcow2HeaderLen :: nat where "qcow2HeaderLen = 112"
definition qcow2V3HeaderLen :: nat where "qcow2V3HeaderLen = 104"
definition extBackingFormat :: nat where "extBackingFormat = 0xE2792ACA"
definition maxBackingNameLen :: nat where "maxBackingNameLen = 1023"
definition maxBackingChainDepth :: nat where "maxBackingChainDepth = 32"

definition qcow2Magic :: "u8 list" where
  "qcow2Magic = [0x51, 0x46, 0x49, 0xfb]"

record qcow2Header =
  h_bits :: nat
  h_size :: nat
  h_l1Size :: nat
  h_l1Offset :: nat
  h_refcountOffset :: nat
  h_refcountClusters :: nat
  h_snapshots :: nat
  h_snapshotsOffset :: nat
  h_len :: nat
  h_bfOff :: nat
  h_bfSize :: nat

definition h_cs :: "qcow2Header \<Rightarrow> nat" where
  "h_cs h = 2 ^ h_bits h"

text \<open>\<^verbatim>\<open>f.ReadAt\<close> of a full buffer, and a big-endian read at an offset of a buffer.\<close>

definition readN :: "u8 list \<Rightarrow> nat \<Rightarrow> nat \<Rightarrow> (qerr, u8 list) go" where
  "readN d off n = (if off + n \<le> length d then Ok (take n (drop off d)) else Err ''EOF'')"

definition be_at :: "nat \<Rightarrow> nat \<Rightarrow> u8 list \<Rightarrow> (qerr, nat) go" where
  "be_at w off buf = go_bind (from_off buf off) (getBE w)"

definition parse_header :: "u8 list \<Rightarrow> (qerr, qcow2Header) go" where
  "parse_header hb =
     go_bind (be_at 4 4 hb) (\<lambda>v. if v \<noteq> 3 then Err ''version'' else
     go_bind (be_at 4 0x14 hb) (\<lambda>cb. if cb < 9 \<or> 21 < cb then Err ''cluster_bits'' else
     go_bind (be_at 4 0x20 hb) (\<lambda>cm. if cm \<noteq> 0 then Err ''encrypted'' else
     go_bind (be_at 8 0x48 hb) (\<lambda>inc. if inc \<noteq> 0 then Err ''incompatible features'' else
     go_bind (be_at 8 0x18 hb) (\<lambda>vs.
     go_bind (be_at 4 0x24 hb) (\<lambda>l1s.
     go_bind (be_at 8 0x28 hb) (\<lambda>l1o.
     go_bind (be_at 8 0x30 hb) (\<lambda>rco.
     go_bind (be_at 4 0x38 hb) (\<lambda>rcc.
     go_bind (be_at 4 0x3C hb) (\<lambda>sn.
     go_bind (be_at 8 0x40 hb) (\<lambda>sno.
     if maxVirtualSize < vs then Err ''virtual size cap'' else
     go_bind (be_at 4 0x64 hb) (\<lambda>hl.
     if hl < qcow2V3HeaderLen then Err ''header_length too small''
     else if 2 ^ cb < hl then Err ''header_length exceeds cluster''
     else if hl mod 8 \<noteq> 0 then Err ''header_length not aligned'' else
     go_bind (be_at 8 0x08 hb) (\<lambda>bfo.
     go_bind (be_at 4 0x10 hb) (\<lambda>bfs.
     Ok \<lparr>h_bits = cb, h_size = vs, h_l1Size = l1s, h_l1Offset = l1o, h_refcountOffset = rco,
         h_refcountClusters = rcc, h_snapshots = sn, h_snapshotsOffset = sno, h_len = hl,
         h_bfOff = bfo, h_bfSize = bfs\<rparr>))))))))))))))"

section \<open>Header extensions\<close>

definition roundUp8 :: "nat \<Rightarrow> nat" where
  "roundUp8 v = (v + 7) div 8 * 8"

definition bytes_of :: "string \<Rightarrow> u8 list" where
  "bytes_of s = map (\<lambda>c. word_of_nat (ord c)) s"

definition string_of :: "u8 list \<Rightarrow> string" where
  "string_of bs = map (\<lambda>b. char_of (unat b)) bs"

definition ext_head :: "u8 list \<Rightarrow> u8 list \<Rightarrow> nat \<Rightarrow> (qerr, nat \<times> nat) go" where
  "ext_head hb eb e =
     (let buf = (if e + 8 \<le> length hb then hb else eb) in
      go_bind (be_at 4 e buf) (\<lambda>magic. go_bind (be_at 4 (e + 4) buf) (\<lambda>elen. Ok (magic, elen))))"

text \<open>The scan from offset \<open>e\<close>; the result is the declared format and whether the end marker was seen.\<close>

function ext_scan :: "u8 list \<Rightarrow> u8 list \<Rightarrow> nat \<Rightarrow> nat \<Rightarrow> string \<Rightarrow> (qerr, string \<times> bool) go" where
  "ext_scan hb eb extEnd e fmt =
     (if e + 8 \<le> extEnd
      then case ext_head hb eb e of
        Err err \<Rightarrow> Err err
      | Panic \<Rightarrow> Panic
      | Ok (magic, elen) \<Rightarrow>
          if magic = 0 then Ok (fmt, True)
          else if extEnd - (e + 8) < elen then Err ''extension overflows''
          else if magic = extBackingFormat \<and> 0 < elen
          then (case slice eb (e + 8) (e + 8 + elen) of
                  Err err \<Rightarrow> Err err
                | Panic \<Rightarrow> Panic
                | Ok name \<Rightarrow>
                    if string_of name \<noteq> ''raw'' \<and> string_of name \<noteq> ''qcow2'' then Err ''unsupported backing format''
                    else ext_scan hb eb extEnd (e + 8 + roundUp8 elen) (string_of name))
          else ext_scan hb eb extEnd (e + 8 + roundUp8 elen) fmt
      else Ok (fmt, False))"
  by pat_completeness auto
termination
  by (relation "measure (\<lambda>(hb, eb, extEnd, e, fmt). extEnd - e)") auto

declare ext_scan.simps [simp del]

definition parse_ext :: "u8 list \<Rightarrow> u8 list \<Rightarrow> qcow2Header \<Rightarrow> (qerr, string) go" where
  "parse_ext d hb h =
     (let extEnd = (if h_bfOff h = 0 then h_cs h else h_bfOff h) in
      go_bind (if qcow2HeaderLen < extEnd
               then if h_cs h < extEnd then Err ''extension region'' else readN d 0 extEnd
               else if extEnd < h_len h then Err ''extension region before header_length'' else Ok []) (\<lambda>eb.
      go_bind (ext_scan hb eb extEnd (h_len h) '''') (\<lambda>(fmt, marker).
      if \<not> marker then Err ''missing end-of-extensions marker'' else Ok fmt)))"

section \<open>Backing name and L1 table\<close>

definition parse_name :: "u8 list \<Rightarrow> qcow2Header \<Rightarrow> (qerr, string) go" where
  "parse_name d h =
     (if maxBackingNameLen < h_bfSize h then Err ''implausible backing name length''
      else if h_bfOff h < h_len h \<or> h_cs h < h_bfOff h \<or> h_cs h - h_bfOff h < h_bfSize h
      then Err ''backing name region''
      else go_bind (readN d (h_bfOff h) (h_bfSize h)) (\<lambda>name.
           go_bind (validateBackingName (string_of name)) (\<lambda>_. Ok (string_of name))))"

definition maxL1TableBytes :: nat where "maxL1TableBytes = 2 ^ 26"

definition load_l1 :: "u8 list \<Rightarrow> qcow2Header \<Rightarrow> (qerr, nat list) go" where
  "load_l1 d h =
     (let cs = h_cs h; l2Entries = cs div 8 in
      case divCeil (h_size h) (l2Entries * cs) of
        Err e \<Rightarrow> Err ''inconsistent virtual size''
      | Panic \<Rightarrow> Panic
      | Ok needed \<Rightarrow>
          if 0xFFFFFFFF < needed then Err ''inconsistent virtual size''
          else if h_l1Size h < needed then Err ''L1 table too small''
          else if h_l1Offset h mod cs \<noteq> 0 then Err ''L1 not aligned''
          else if maxL1TableBytes < needed * 8 then Err ''L1 table cap''
          else if 2 ^ 64 \<le> h_l1Offset h + needed * 8 \<or> length d < h_l1Offset h + needed * 8 then Err ''L1 exceeds file''
          else go_bind (readN d (h_l1Offset h) (needed * 8)) (\<lambda>buf. Ok (decode_table needed buf)))"

section \<open>The chain\<close>

record hfile =
  hf_data :: "u8 list"
  hf_key :: "nat \<times> nat"
  hf_mode :: nat

record env =
  e_fs :: "path \<Rightarrow> hfile option"
  e_eval :: "string \<Rightarrow> path option"
  e_static :: "path list"
  e_roots :: roots

record qinfo =
  qi_file :: hfile
  qi_hdr :: qcow2Header
  qi_l1 :: "nat list"
  qi_fmt :: string
  qi_name :: string

datatype gimg = GRaw hfile | GQcow qinfo "(path \<times> gimg) option"

primrec Format :: "gimg \<Rightarrow> string" where
  "Format (GRaw f) = ''raw''"
| "Format (GQcow q b) = ''qcow2''"

text \<open>The name made absolute against the directory of the image, when it is relative.\<close>

definition abs_backing :: "path \<Rightarrow> string \<Rightarrow> string" where
  "abs_backing p name =
     (if IsAbs name then name else path_str (clean_from (rev (Dir p)) (split_slash name)))"

text \<open>Everything but the backing image: sniffing, header, extensions.\<close>

definition sniff :: "hfile \<Rightarrow> (qerr, (u8 list \<times> qcow2Header \<times> string) option) go" where
  "sniff f =
     go_bind (readN (hf_data f) 0 4) (\<lambda>magic.
     if magic \<noteq> qcow2Magic then Ok None
     else go_bind (readN (hf_data f) 0 qcow2HeaderLen) (\<lambda>hb.
          go_bind (parse_header hb) (\<lambda>h.
          go_bind (parse_ext (hf_data f) hb h) (\<lambda>fmt. Ok (Some (hb, h, fmt))))))"

definition finish :: "hfile \<Rightarrow> qcow2Header \<Rightarrow> string \<Rightarrow> string \<Rightarrow> (path \<times> gimg) option \<Rightarrow> (qerr, gimg) go" where
  "finish f h fmt name backing =
     go_bind (load_l1 (hf_data f) h) (\<lambda>l1.
       Ok (GQcow \<lparr>qi_file = f, qi_hdr = h, qi_l1 = l1, qi_fmt = fmt, qi_name = name\<rparr> backing))"

function openGuestImageDepth :: "env \<Rightarrow> path \<Rightarrow> nat \<Rightarrow> (nat \<times> nat) list \<Rightarrow> (qerr, gimg) go" where
  "openGuestImageDepth env p depth visited =
     (if maxBackingChainDepth < depth then Err ''backing chain too deep''
      else case e_fs env p of
        None \<Rightarrow> Err ''open''
      | Some f \<Rightarrow>
          if hf_key f \<in> set visited then Err ''backing chain cycle''
          else case sniff f of
            Err e \<Rightarrow> Err e
          | Panic \<Rightarrow> Panic
          | Ok None \<Rightarrow> Ok (GRaw f)
          | Ok (Some (hb, h, fmt)) \<Rightarrow>
              if h_bfSize h = 0 then finish f h fmt '''' None
              else case parse_name (hf_data f) h of
                Err e \<Rightarrow> Err e
              | Panic \<Rightarrow> Panic
              | Ok name \<Rightarrow>
                  (case backingPathAllowed (e_eval env) (e_static env) (e_roots env) p (abs_backing p name) of
                     Err e \<Rightarrow> Err e
                   | Panic \<Rightarrow> Panic
                   | Ok real \<Rightarrow>
                       (case openGuestImageDepth env real (depth + 1) (hf_key f # visited) of
                          Err e \<Rightarrow> Err e
                        | Panic \<Rightarrow> Panic
                        | Ok backing \<Rightarrow>
                            if fmt \<noteq> '''' \<and> Format backing \<noteq> fmt then Err ''backing format mismatch''
                            else finish f h fmt name (Some (real, backing)))))"
  by pat_completeness auto
termination
  by (relation "measure (\<lambda>(env, p, depth, visited). Suc maxBackingChainDepth - depth)") auto

declare openGuestImageDepth.simps [simp del]

definition openGuestImage :: "env \<Rightarrow> path \<Rightarrow> (qerr, gimg) go" where
  "openGuestImage env p = openGuestImageDepth env p 0 []"

section \<open>No panics\<close>

lemma be_at_Ok:
  assumes "off + w \<le> length buf"
  shows "be_at w off buf = Ok (be_get (take w (drop off buf)))"
  using assms by (simp add: be_at_def from_off_def getBE_def)

lemma readN_no_panic [simp]: "readN d off n \<noteq> Panic"
  by (simp add: readN_def)

lemma readN_Ok: "readN d off n = Ok b \<longleftrightarrow> off + n \<le> length d \<and> b = take n (drop off d)"
  by (auto simp: readN_def)

lemma parse_header_no_panic:
  assumes "length hb = 112"
  shows "parse_header hb \<noteq> Panic"
  using assms by (simp add: parse_header_def be_at_Ok)

lemma parse_header_bounds:
  assumes "parse_header hb = Ok h"
  shows "9 \<le> h_bits h" "h_bits h \<le> 21" "104 \<le> h_len h" "h_len h \<le> h_cs h" "h_size h \<le> maxVirtualSize"
  using assms by (auto simp: parse_header_def h_cs_def qcow2V3HeaderLen_def split: if_splits)

text \<open>
  The scan reads an extension head from the fixed header while it fits there and from the extension
  buffer otherwise; names always come from the extension buffer.
\<close>

lemma ext_scan_no_panic:
  assumes "length hb = 112" "104 \<le> e" "112 < extEnd \<longrightarrow> extEnd \<le> length eb"
  shows "ext_scan hb eb extEnd e fmt \<noteq> Panic"
  using assms
proof (induction hb eb extEnd e fmt rule: ext_scan.induct)
  case (1 hb eb extEnd e fmt)
  show ?case
  proof (cases "e + 8 \<le> extEnd")
    case False
    then show ?thesis by (simp add: ext_scan.simps [of hb eb extEnd e])
  next
    case True
    let ?buf = "if e + 8 \<le> length hb then hb else eb"
    have "e + 8 \<le> length ?buf" using True "1.prems" by auto
    then obtain magic elen where h: "ext_head hb eb e = Ok (magic, elen)"
      by (simp add: ext_head_def be_at_Ok Let_def)
    show ?thesis
    proof (cases "magic = 0 \<or> extEnd - (e + 8) < elen")
      case stop: True
      then show ?thesis using True h by (auto simp: ext_scan.simps [of hb eb extEnd e])
    next
      case False
      then have go: "magic \<noteq> 0" "\<not> extEnd - (e + 8) < elen" by simp_all
      show ?thesis
      proof (cases "magic = extBackingFormat \<and> 0 < elen")
        case ext: True
        then have "112 < extEnd" using go(2) True "1.prems"(2) by linarith
        then have "slice eb (e + 8) (e + 8 + elen) = (Ok (take elen (drop (e + 8) eb)) :: (qerr, u8 list) go)"
          using go(2) True "1.prems"(3) by (simp add: slice_def)
        then show ?thesis
          using "1.IH"(1) [OF True h refl go ext] True h go ext "1.prems"
          by (auto simp: ext_scan.simps [of hb eb extEnd e])
      next
        case ext: False
        then show ?thesis
          using "1.IH"(2) [OF True h refl go ext] True h go "1.prems"
          by (auto simp: ext_scan.simps [of hb eb extEnd e])
      qed
    qed
  qed
qed

lemma parse_ext_no_panic:
  assumes "length hb = 112" "parse_header hb = Ok h"
  shows "parse_ext d hb h \<noteq> Panic"
proof -
  let ?bound = "if h_bfOff h = 0 then h_cs h else h_bfOff h"
  have "ext_scan hb eb ?bound (h_len h) '''' \<noteq> Panic" if "112 < ?bound \<longrightarrow> ?bound \<le> length eb" for eb
    using assms(1) parse_header_bounds(3) [OF assms(2)] that by (rule ext_scan_no_panic)
  then show ?thesis
    by (auto simp: parse_ext_def Let_def qcow2HeaderLen_def readN_Ok split: if_splits prod.splits)
qed

lemma sniff_no_panic: "sniff f \<noteq> Panic"
  using parse_header_no_panic parse_ext_no_panic
  by (auto simp: sniff_def readN_Ok qcow2HeaderLen_def split: if_splits)

lemma validateBackingName_no_panic [simp]: "validateBackingName s \<noteq> Panic"
  by (simp add: validateBackingName_def validatePath_def Let_def)

lemma divCeil_no_panic [simp]: "divCeil a b \<noteq> Panic"
  by (simp add: divCeil_def Let_def)

lemma finish_no_panic: "finish f h fmt name b \<noteq> Panic"
  by (auto simp: finish_def load_l1_def Let_def split: go.splits)

lemma parse_name_no_panic: "parse_name d h \<noteq> Panic"
  by (auto simp: parse_name_def)

lemma backingPathAllowed_no_panic [simp]: "backingPathAllowed ev st m p c \<noteq> Panic"
  by (simp add: backingPathAllowed_def split: option.splits)

lemma openGuestImageDepth_no_panic: "openGuestImageDepth env p depth visited \<noteq> Panic"
proof (induction env p depth visited rule: openGuestImageDepth.induct)
  case (1 env p depth visited)
  show ?case
  proof (cases "maxBackingChainDepth < depth")
    case True
    then show ?thesis by (simp add: openGuestImageDepth.simps [of env p])
  next
    case False
    then show ?thesis
      using 1 [OF False] sniff_no_panic parse_name_no_panic finish_no_panic
      by (subst openGuestImageDepth.simps) (auto split: option.splits go.splits if_splits)
  qed
qed

section \<open>The opened chain\<close>

fun chain_files :: "gimg \<Rightarrow> hfile list" where
  "chain_files (GRaw f) = [f]"
| "chain_files (GQcow q None) = [qi_file q]"
| "chain_files (GQcow q (Some (p, img))) = qi_file q # chain_files img"

text \<open>A backing path lies below the real path of some allowed root.\<close>

definition contained :: "env \<Rightarrow> path \<Rightarrow> path \<Rightarrow> bool" where
  "contained env p real \<longleftrightarrow>
     (\<exists>r \<in> set (Dir p # e_static env @ map fst (rt_dyn (e_roots env))).
        \<exists>rr. e_eval env (path_str r) = Some rr \<and> prefix rr real)"

text \<open>Geometry of one opened image: the loaded L1 table reaches every byte of the virtual size.\<close>

definition geometry_ok :: "qinfo \<Rightarrow> bool" where
  "geometry_ok q \<longleftrightarrow>
     (let h = qi_hdr q; cs = h_cs h in
      9 \<le> h_bits h \<and> h_bits h \<le> 21 \<and> h_size h \<le> maxVirtualSize \<and>
      h_size h \<le> length (qi_l1 q) * (cs div 8) * cs \<and>
      cs dvd h_l1Offset h \<and> h_l1Offset h + length (qi_l1 q) * 8 \<le> length (hf_data (qi_file q)) \<and>
      qi_l1 q = decode_table (length (qi_l1 q)) (drop (h_l1Offset h) (hf_data (qi_file q))))"

fun chain_ok :: "env \<Rightarrow> path \<Rightarrow> gimg \<Rightarrow> bool" where
  "chain_ok env p (GRaw f) = (e_fs env p = Some f)"
| "chain_ok env p (GQcow q None) = (e_fs env p = Some (qi_file q) \<and> geometry_ok q)"
| "chain_ok env p (GQcow q (Some (real, img))) =
     (e_fs env p = Some (qi_file q) \<and> geometry_ok q \<and> contained env p real \<and>
      (qi_fmt q \<noteq> '''' \<longrightarrow> Format img = qi_fmt q) \<and> chain_ok env real img)"

lemma length_decode [simp]: "length (decode_table n b) = n"
  by (simp add: decode_table_def)

lemma decode_take:
  assumes "n * 8 \<le> length b"
  shows "decode_table n (take (n * 8) b) = decode_table n b"
  unfolding decode_table_def
proof (rule map_cong [OF refl])
  fix i assume "i \<in> set [0..<n]"
  then have "i * 8 + 8 \<le> n * 8" by simp
  then show "be_get (take 8 (drop (i * 8) (take (n * 8) b))) = be_get (take 8 (drop (i * 8) b))"
    by (simp add: drop_take min_def)
qed

lemma sniff_header:
  assumes "sniff f = Ok (Some (hb, h, fmt))"
  shows "parse_header hb = Ok h"
  using assms by (auto simp: sniff_def split: if_splits)

lemma finish_geometry:
  assumes "finish f h fmt name b = Ok img" "sniff f = Ok (Some (hb, h, fmt'))"
  obtains l1 where "img = GQcow \<lparr>qi_file = f, qi_hdr = h, qi_l1 = l1, qi_fmt = fmt, qi_name = name\<rparr> b"
    "geometry_ok \<lparr>qi_file = f, qi_hdr = h, qi_l1 = l1, qi_fmt = fmt, qi_name = name\<rparr>"
proof -
  note pb = parse_header_bounds [OF sniff_header [OF assms(2)]]
  define cs where "cs = h_cs h"
  have cs: "512 \<le> cs" unfolding cs_def h_cs_def using power_increasing [OF pb(1), of "2::nat"] by simp
  obtain l1 where l1: "load_l1 (hf_data f) h = Ok l1"
    and img: "img = GQcow \<lparr>qi_file = f, qi_hdr = h, qi_l1 = l1, qi_fmt = fmt, qi_name = name\<rparr> b"
    using assms(1) by (auto simp: finish_def)
  obtain n where n: "divCeil (h_size h) (cs div 8 * cs) = Ok n" "cs dvd h_l1Offset h"
    "h_l1Offset h + n * 8 \<le> length (hf_data f)"
    "l1 = decode_table n (take (n * 8) (drop (h_l1Offset h) (hf_data f)))"
    using l1 by (auto simp: load_l1_def Let_def readN_Ok cs_def [symmetric] mod_eq_0_iff_dvd split: go.splits if_splits)
  have "h_size h < 2 ^ 64" using pb(5) by (simp add: maxVirtualSize_def)
  moreover have pos: "0 < cs div 8 * cs" using cs by simp
  ultimately have "n = ceil_div (h_size h) (cs div 8 * cs)" using divCeil_eq [of "h_size h" "cs div 8 * cs"] n(1) by simp
  then have "h_size h \<le> n * (cs div 8) * cs" using ceil_div_bounds(1) [OF pos, of "h_size h"] by (simp add: mult.assoc)
  moreover have "l1 = decode_table n (drop (h_l1Offset h) (hf_data f))" using n(3,4) by (simp add: decode_take)
  ultimately show ?thesis
    using img pb n(2,3) that [of l1] by (simp add: geometry_ok_def Let_def cs_def [symmetric])
qed

lemma openGuestImageDepth_chain:
  assumes "\<forall>c r. e_eval env c = Some r \<longrightarrow> clean_path r"
    and "openGuestImageDepth env p depth visited = Ok img"
  shows "chain_ok env p img \<and> distinct (map hf_key (chain_files img)) \<and>
    set (map hf_key (chain_files img)) \<inter> set visited = {} \<and>
    depth + length (chain_files img) \<le> Suc maxBackingChainDepth"
  using assms
proof (induction env p depth visited arbitrary: img rule: openGuestImageDepth.induct)
  case (1 env p depth visited)
  note opened = "1.prems"(2) [unfolded openGuestImageDepth.simps [of env p depth visited]]
  have d: "\<not> maxBackingChainDepth < depth" using opened by (auto split: if_splits)
  obtain f where f: "e_fs env p = Some f" "hf_key f \<notin> set visited"
    using opened d by (auto split: option.splits if_splits)
  show ?case
  proof (cases "sniff f")
    case (Ok r)
    show ?thesis
    proof (cases r)
      case None
      then show ?thesis using opened d f Ok by auto
    next
      case (Some x)
      then obtain hb h fmt where s: "sniff f = Ok (Some (hb, h, fmt))" using Ok by (cases x) auto
      show ?thesis
      proof (cases "h_bfSize h = 0")
        case True
        then have "finish f h fmt '''' None = Ok img" using opened d f s by simp
        from this s obtain q where "img = GQcow q None" "qi_file q = f" "geometry_ok q" by (rule finish_geometry) simp
        then show ?thesis using d f by simp
      next
        case False
        then obtain name real backing where n: "parse_name (hf_data f) h = Ok name"
          "backingPathAllowed (e_eval env) (e_static env) (e_roots env) p (abs_backing p name) = Ok real"
          "openGuestImageDepth env real (depth + 1) (hf_key f # visited) = Ok backing"
          "fmt \<noteq> '''' \<longrightarrow> Format backing = fmt" "finish f h fmt name (Some (real, backing)) = Ok img"
          using opened d f s by (auto split: go.splits if_splits)
        have "clean_path real"
          using n(2) "1.prems"(1) by (auto simp: backingPathAllowed_def split: option.splits if_splits)
        then have c: "contained env p real" using backing_contained [OF n(2)] by (simp add: contained_def)
        have "chain_ok env real backing \<and> distinct (map hf_key (chain_files backing)) \<and>
            set (map hf_key (chain_files backing)) \<inter> set (hf_key f # visited) = {} \<and>
            depth + 1 + length (chain_files backing) \<le> Suc maxBackingChainDepth"
          using "1.IH" [OF d f s refl refl refl False n(1,2) "1.prems"(1) n(3)] by blast
        moreover from n(5) s obtain q where "img = GQcow q (Some (real, backing))" "qi_file q = f" "qi_fmt q = fmt" "geometry_ok q"
          by (rule finish_geometry) simp
        ultimately show ?thesis using c f n(4) by auto
      qed
    qed
  qed (use opened d f in auto)
qed

end
