(* ===== verification/Qcow2Create.thy ===== *)
theory Qcow2Create
  imports Qcow2Flat Qcow2Open
begin

text \<open>
  Creating an image, \<^verbatim>\<open>createQcow2\<close> in \<^verbatim>\<open>internal/cow/qcow2.go\<close>, and opening it for
  writing (\<^verbatim>\<open>OpenWritable\<close>). The result of creation is the outcome and the bytes of the file at
  the path; \<open>io\<close> says which of the file operations succeed, in the order they are issued.

  What was created opens again with the same size, geometry, backing name and format, satisfies the
  image invariant, and shows its backing image (or zeros).
\<close>

unbundle bit_operations_syntax

section \<open>Definitions\<close>

record OverlayOpt =
  oo_ClusterBits :: nat
  oo_PreallocMetadata :: bool

definition defaultOverlayOpt :: OverlayOpt where
  "defaultOverlayOpt = \<lparr>oo_ClusterBits = clusterBits, oo_PreallocMetadata = True\<rparr>"

text \<open>\<^verbatim>\<open>copy(s[off:], p)\<close> copies what fits.\<close>

definition copy_at :: "u8 list \<Rightarrow> nat \<Rightarrow> u8 list \<Rightarrow> u8 list" where
  "copy_at s off p = splice s off (take (length s - off) p)"

definition refcountOrder :: nat where "refcountOrder = 4"

definition put_header :: "qcow2Layout \<Rightarrow> nat \<Rightarrow> u8 list \<Rightarrow> u8 list" where
  "put_header lay virtualSize b0 =
     (let b1 = splice b0 0 qcow2Magic;
          b2 = splice b1 4 (be_put 4 3);
          b3 = splice b2 0x14 (be_put 4 (ly_clusterBits lay));
          b4 = splice b3 0x18 (be_put 8 virtualSize);
          b5 = splice b4 0x24 (be_put 4 (ly_l1Size lay));
          b6 = splice b5 0x28 (be_put 8 (ly_l1Off lay));
          b7 = splice b6 0x30 (be_put 8 (ly_reftableOff lay));
          b8 = splice b7 0x38 (be_put 4 (ly_reftableCls lay));
          b9 = splice b8 0x60 (be_put 4 refcountOrder)
      in splice b9 0x64 (be_put 4 qcow2HeaderLen))"

text \<open>The format extension and the backing name.\<close>

definition put_ext :: "string \<Rightarrow> u8 list \<Rightarrow> u8 list" where
  "put_ext fmt b =
     copy_at (splice (splice b qcow2HeaderLen (be_put 4 extBackingFormat)) (qcow2HeaderLen + 4) (be_put 4 (length fmt)))
       (qcow2HeaderLen + 8) (bytes_of fmt)"

definition put_names :: "nat \<Rightarrow> string \<Rightarrow> string \<Rightarrow> u8 list \<Rightarrow> (qerr, u8 list) go" where
  "put_names cs backing fmt b =
     (if backing = '''' then Ok b
      else let b1 = put_ext fmt b;
               off = qcow2HeaderLen + (8 + roundUp8 (length fmt)) + 8
           in if maxBackingNameLen < length backing \<or> cs < off + length backing then Err ''backing path too long''
              else Ok (copy_at (splice (splice b1 0x08 (be_put 8 off)) 0x10 (be_put 4 (length backing)))
                         off (bytes_of backing)))"

text \<open>\<open>n\<close> entries of \<open>w\<close> bytes from \<open>base\<close> on.\<close>

primrec put_entries :: "nat \<Rightarrow> nat \<Rightarrow> nat \<Rightarrow> (nat \<Rightarrow> u8 list) \<Rightarrow> u8 list \<Rightarrow> u8 list" where
  "put_entries base w 0 v s = s"
| "put_entries base w (Suc n) v s = splice (put_entries base w n v s) (base + n * w) (v n)"

definition put_reftable :: "qcow2Layout \<Rightarrow> u8 list \<Rightarrow> u8 list" where
  "put_reftable lay = put_entries (ly_reftableOff lay) 8 (ly_refblockCnt lay)
     (\<lambda>b. be_put 8 (ly_refblockOff lay + b * ly_clusterSize lay))"

definition put_refblocks :: "qcow2Layout \<Rightarrow> u8 list \<Rightarrow> u8 list" where
  "put_refblocks lay = put_entries (ly_refblockOff lay) 2 (ly_physMeta lay) (\<lambda>i. be_put 2 1)"

definition create_buf :: "nat \<Rightarrow> string \<Rightarrow> string \<Rightarrow> OverlayOpt \<Rightarrow> (qerr, qcow2Layout \<times> u8 list) go" where
  "create_buf virtualSize backing fmt opt =
     (if virtualSize = 0 then Err ''virtual size must be > 0''
      else go_bind (computeQcow2Layout virtualSize (oo_ClusterBits opt) (oo_PreallocMetadata opt)) (\<lambda>lay.
           let cs = ly_clusterSize lay;
               buf = replicate (ly_refblockOff lay + ly_refUsedCls lay * cs) 0
           in go_bind (put_names cs backing fmt (put_header lay virtualSize buf)) (\<lambda>b.
              Ok (lay, put_refblocks lay (put_reftable lay b)))))"

text \<open>\<^verbatim>\<open>Truncate\<close> and the L1 clusters.\<close>

definition truncate_to :: "nat \<Rightarrow> u8 list \<Rightarrow> u8 list" where
  "truncate_to n d = take n d @ replicate (n - length d) 0"

definition l1_cluster :: "qcow2Layout \<Rightarrow> nat \<Rightarrow> u8 list" where
  "l1_cluster lay k =
     (let cs = ly_clusterSize lay in
      put_entries 0 8 (cs div 8)
        (\<lambda>j. let e = k * (cs div 8) + j
             in be_put 8 (if e < ly_l2Count lay then (ly_l2Off lay + e * cs) OR oflagCopied else 0))
        (replicate cs 0))"

primrec write_l1 :: "(nat \<Rightarrow> bool) \<Rightarrow> qcow2Layout \<Rightarrow> nat \<Rightarrow> u8 list \<Rightarrow> (qerr, unit) go \<times> u8 list" where
  "write_l1 io lay 0 d = (Ok (), d)"
| "write_l1 io lay (Suc k) d =
     (case write_l1 io lay k d of
        (Ok _, d1) \<Rightarrow>
          if io (4 + k) then (Ok (), write_at d1 (ly_l1Off lay + k * ly_clusterSize lay) (l1_cluster lay k))
          else (Err ''write L1'', d1)
      | r \<Rightarrow> r)"

definition write_image :: "(nat \<Rightarrow> bool) \<Rightarrow> qcow2Layout \<Rightarrow> u8 list \<Rightarrow> u8 list \<Rightarrow> (qerr, unit) go \<times> u8 list" where
  "write_image io lay buf d0 =
     (if \<not> io 0 then (Err ''create'', d0)
      else if \<not> io 1 then (Err ''write metadata'', [])
      else if \<not> io 2 then (Err ''zero-fill'', buf)
      else if \<not> io 3 then (Err ''seek'', truncate_to (ly_l1Off lay) buf)
      else case write_l1 io lay (ly_l1Clusters lay) (truncate_to (ly_l1Off lay) buf) of
        (Ok _, d) \<Rightarrow>
          if 0 < ly_l2Count lay
          then if io (4 + ly_l1Clusters lay)
               then (Ok (), truncate_to (ly_l2Off lay + ly_l2Count lay * ly_clusterSize lay) d)
               else (Err ''extend L2'', d)
          else (Ok (), d)
      | r \<Rightarrow> r)"

definition createQcow2 :: "(nat \<Rightarrow> bool) \<Rightarrow> nat \<Rightarrow> string \<Rightarrow> string \<Rightarrow> OverlayOpt \<Rightarrow> u8 list \<Rightarrow> (qerr, unit) go \<times> u8 list" where
  "createQcow2 io virtualSize backing fmt opt d0 =
     (case create_buf virtualSize backing fmt opt of
        Err e \<Rightarrow> (Err e, d0)
      | Panic \<Rightarrow> (Panic, d0)
      | Ok (lay, buf) \<Rightarrow> write_image io lay buf d0)"

section \<open>Fields of a file\<close>

definition fld :: "u8 list \<Rightarrow> nat \<Rightarrow> nat \<Rightarrow> u8 list" where
  "fld d off w = map (fb d) [off..<off + w]"

lemma fb_splice:
  assumes "off + length p \<le> length s"
  shows "fb (splice s off p) x = (if off \<le> x \<and> x < off + length p then p ! (x - off) else fb s x)"
  using assms by (auto simp: fb_def nth_splice)

lemma fld_same: "off + length p \<le> length s \<Longrightarrow> w = length p \<Longrightarrow> fld (splice s off p) off w = p"
  by (intro nth_equalityI) (auto simp: fld_def fb_splice)

lemma fld_cong: "(\<And>x. off \<le> x \<Longrightarrow> x < off + w \<Longrightarrow> fb d x = fb d' x) \<Longrightarrow> fld d off w = fld d' off w"
  by (simp add: fld_def)

lemma fld_other:
  "off + length p \<le> length s \<Longrightarrow> off' + w \<le> off \<or> off + length p \<le> off' \<Longrightarrow> fld (splice s off p) off' w = fld s off' w"
  by (intro fld_cong) (auto simp: fb_splice)

lemma be_get_zeros [simp]: "be_get (replicate n 0) = 0"
proof -
  have "le_get (replicate n 0) = 0" by (induction n) simp_all
  then show ?thesis by (simp add: be_get_def)
qed

lemma be_put_zero: "be_put w 0 = replicate w 0"
proof -
  have "le_put w 0 = replicate w 0" by (induction w) simp_all
  then show ?thesis by (simp add: be_put_def)
qed

lemma fld_zeros: "(\<And>x. off \<le> x \<Longrightarrow> x < off + w \<Longrightarrow> fb d x = 0) \<Longrightarrow> fld d off w = replicate w 0"
  by (intro nth_equalityI) (simp_all add: fld_def)

lemma take_drop_fld: "off + w \<le> length d \<Longrightarrow> take w (drop off d) = fld d off w"
  unfolding fld_def by (rule take_drop_fb)

lemma be8_fld: "be8 d off = be_get (fld d off 8)"
  by (simp add: be8_def fld_def)

lemma put_entries_fb:
  assumes "\<And>k. k < n \<Longrightarrow> length (v k) = w" "base + n * w \<le> length s"
  shows "length (put_entries base w n v s) = length s \<and>
    fb (put_entries base w n v s) x =
      (if base \<le> x \<and> x < base + n * w then v ((x - base) div w) ! ((x - base) mod w) else fb s x)"
  using assms
proof (induction n)
  case (Suc n)
  have v: "length (v n) = w" using Suc.prems(1) by simp
  have fits: "base + n * w + length (v n) \<le> length s" using Suc.prems(2) v by simp
  have ih: "length (put_entries base w n v s) = length s"
    "fb (put_entries base w n v s) x =
      (if base \<le> x \<and> x < base + n * w then v ((x - base) div w) ! ((x - base) mod w) else fb s x)"
    using Suc by simp_all
  have last: "(x - base) div w = n \<and> (x - base) mod w = x - (base + n * w)"
    if "base + n * w \<le> x" "x < base + n * w + w"
  proof -
    have "x - base = n * w + (x - (base + n * w))" "x - (base + n * w) < w" using that by simp_all
    then show ?thesis by (metis add.right_neutral div_less div_mult_self3 less_nat_zero_code mod_less mod_mult_self3)
  qed
  show ?case using ih last fits v by (simp add: fb_splice)
qed auto

lemma put_entries_fld:
  assumes "\<And>k. k < n \<Longrightarrow> length (v k) = w" "base + n * w \<le> length s" "k < n"
  shows "fld (put_entries base w n v s) (base + k * w) w = v k"
proof (rule nth_equalityI)
  fix j assume "j < length (fld (put_entries base w n v s) (base + k * w) w)"
  then have j: "j < w" by (simp add: fld_def)
  have "k * w + w \<le> n * w" using mult_le_mono1 [of "Suc k" n w] assms(3) by simp
  then show "fld (put_entries base w n v s) (base + k * w) w ! j = v k ! j"
    using j put_entries_fb [where x = "base + k * w + j", OF assms(1,2)] by (simp add: fld_def)
qed (use assms in \<open>simp add: fld_def\<close>)

section \<open>The layout of a created image\<close>

lemma layout_Ok:
  assumes "computeQcow2Layout vs bits pre = Ok l"
  shows "9 \<le> ly_clusterBits l" "ly_clusterBits l \<le> 21" "ly_clusterSize l = 2 ^ ly_clusterBits l" "512 \<le> ly_clusterSize l"
    "8 dvd ly_clusterSize l" "vs \<le> maxVirtualSize"
    "vs \<le> ly_l1Size l * (ly_clusterSize l div 8 * ly_clusterSize l)"
    "ly_l1Size l * 8 \<le> ly_l1Clusters l * ly_clusterSize l"
    "ly_l2Count l = (if pre then ly_l1Size l else 0)"
    "ly_reftableOff l = ly_clusterSize l"
    "ly_refblockOff l = (1 + ly_reftableCls l) * ly_clusterSize l"
    "ly_l1Off l = (1 + ly_reftableCls l + ly_refblockCnt l) * ly_clusterSize l"
    "ly_l2Off l = (1 + ly_reftableCls l + ly_refblockCnt l + ly_l1Clusters l) * ly_clusterSize l"
    "ly_physMeta l = 1 + ly_reftableCls l + ly_refblockCnt l + ly_l1Clusters l + ly_l2Count l"
    "ly_physMeta l \<le> ly_refblockCnt l * (ly_clusterSize l div 2)"
    "ly_refblockCnt l \<le> ly_reftableCls l * (ly_clusterSize l div 8)"
    "2 * ly_physMeta l \<le> ly_refUsedCls l * ly_clusterSize l" "ly_refUsedCls l \<le> ly_refblockCnt l"
    "ly_l1Size l = ceil_div vs (ly_clusterSize l div 8 * ly_clusterSize l)"
    "ly_physMeta l < 2 ^ 39" "ly_l1Size l \<le> 2 ^ 29"
    "ly_refblockCnt l * (ly_clusterSize l div 2) < 2 ^ 39 + ly_clusterSize l div 2"
    "ly_reftableCls l * (ly_clusterSize l div 8) < ly_refblockCnt l + ly_clusterSize l div 8"
    "ly_clusterBits l = (if bits = 0 then clusterBits else bits)"
proof -
  have vs: "vs \<le> maxVirtualSize" and b: "bits = 0 \<or> 9 \<le> bits \<and> bits \<le> 21"
    using assms by (auto simp: computeQcow2Layout_def Let_def split: if_splits)
  from computeQcow2Layout_ok [OF vs b, of pre] obtain l' where l': "computeQcow2Layout vs bits pre = Ok l'"
    "layout_sound vs (if bits = 0 then clusterBits else bits) pre l'"
    "ly_l1Size l' = ceil_div vs (ly_clusterSize l' div 8 * ly_clusterSize l')"
    "ly_physMeta l' < 2 ^ 39" "ly_l1Size l' \<le> 2 ^ 29"
    "ly_refblockCnt l' * (ly_clusterSize l' div 2) < 2 ^ 39 + ly_clusterSize l' div 2"
    "ly_reftableCls l' * (ly_clusterSize l' div 8) < ly_refblockCnt l' + ly_clusterSize l' div 8"
    by metis
  then have eq: "l' = l" using assms by simp
  note s = l'(2) [unfolded eq layout_sound_def Let_def]
  have bits: "9 \<le> ly_clusterBits l" "ly_clusterBits l \<le> 21" using s b by (auto simp: clusterBits_def)
  have cs: "ly_clusterSize l = 2 ^ ly_clusterBits l" using s by simp
  have "(2::nat) ^ 3 dvd 2 ^ ly_clusterBits l" using bits by (intro le_imp_power_dvd) simp
  then have d8: "8 dvd ly_clusterSize l" using cs by simp
  have c0: "512 \<le> ly_clusterSize l" using two_power_range [OF bits] cs by simp
  have off: "ly_refblockOff l = (1 + ly_reftableCls l) * ly_clusterSize l"
    "ly_l1Off l = (1 + ly_reftableCls l + ly_refblockCnt l) * ly_clusterSize l"
    "ly_l2Off l = (1 + ly_reftableCls l + ly_refblockCnt l + ly_l1Clusters l) * ly_clusterSize l"
    using s by (simp_all add: add_mult_distrib)
  have "ly_physMeta l * ly_clusterSize l = ly_l2Off l + ly_l2Count l * ly_clusterSize l" using s by blast
  then have "ly_physMeta l * ly_clusterSize l =
      (1 + ly_reftableCls l + ly_refblockCnt l + ly_l1Clusters l + ly_l2Count l) * ly_clusterSize l"
    by (simp only: off(3) add_mult_distrib)
  then have pm: "ly_physMeta l = 1 + ly_reftableCls l + ly_refblockCnt l + ly_l1Clusters l + ly_l2Count l"
    using c0 by (simp only: mult_cancel2) simp
  show "9 \<le> ly_clusterBits l" "ly_clusterBits l \<le> 21" by (rule bits)+
  show "ly_clusterSize l = 2 ^ ly_clusterBits l" "512 \<le> ly_clusterSize l" "8 dvd ly_clusterSize l" "vs \<le> maxVirtualSize"
    by (rule cs c0 d8 vs)+
  show "ly_refblockOff l = (1 + ly_reftableCls l) * ly_clusterSize l"
    "ly_l1Off l = (1 + ly_reftableCls l + ly_refblockCnt l) * ly_clusterSize l"
    "ly_l2Off l = (1 + ly_reftableCls l + ly_refblockCnt l + ly_l1Clusters l) * ly_clusterSize l" by (rule off)+
  show "ly_physMeta l = 1 + ly_reftableCls l + ly_refblockCnt l + ly_l1Clusters l + ly_l2Count l" by (rule pm)
  show "vs \<le> ly_l1Size l * (ly_clusterSize l div 8 * ly_clusterSize l)"
    "ly_l1Size l * 8 \<le> ly_l1Clusters l * ly_clusterSize l" "ly_l2Count l = (if pre then ly_l1Size l else 0)"
    "ly_reftableOff l = ly_clusterSize l" "ly_refblockCnt l \<le> ly_reftableCls l * (ly_clusterSize l div 8)"
    "2 * ly_physMeta l \<le> ly_refUsedCls l * ly_clusterSize l" "ly_refUsedCls l \<le> ly_refblockCnt l"
    "ly_clusterBits l = (if bits = 0 then clusterBits else bits)"
    using s by blast+
  show "ly_physMeta l \<le> ly_refblockCnt l * (ly_clusterSize l div 2)" using s by linarith
  show "ly_l1Size l = ceil_div vs (ly_clusterSize l div 8 * ly_clusterSize l)"
    "ly_physMeta l < 2 ^ 39" "ly_l1Size l \<le> 2 ^ 29"
    "ly_refblockCnt l * (ly_clusterSize l div 2) < 2 ^ 39 + ly_clusterSize l div 2"
    "ly_reftableCls l * (ly_clusterSize l div 8) < ly_refblockCnt l + ly_clusterSize l div 8"
    using l' unfolding eq by blast+
qed

lemma length_put_header [simp]: "112 \<le> length b \<Longrightarrow> length (put_header l vs b) = length b"
  by (simp add: put_header_def qcow2Magic_def Let_def del: le_put_numeral)

lemma copy_at_fb:
  assumes "off + length p \<le> length s"
  shows "length (copy_at s off p) = length s"
    "fb (copy_at s off p) x = (if off \<le> x \<and> x < off + length p then p ! (x - off) else fb s x)"
  using assms by (simp_all add: copy_at_def fb_splice)

lemma length_bytes_of [simp]: "length (bytes_of s) = length s"
  by (simp add: bytes_of_def)

lemma roundUp8_bounds: "n \<le> roundUp8 n" "roundUp8 n \<le> n + 7" "8 dvd roundUp8 n"
proof -
  have "(n + 7) div 8 * 8 + (n + 7) mod 8 = n + 7" by simp
  moreover have "(n + 7) mod 8 < 8" by simp
  ultimately show "n \<le> roundUp8 n" "roundUp8 n \<le> n + 7" unfolding roundUp8_def by linarith+
qed (simp add: roundUp8_def)

text \<open>The names stay inside cluster 0, behind the fixed header, except for the two header fields.\<close>

lemma put_names_frame:
  assumes "put_names cs backing fmt b = Ok b'" "cs \<le> length b" "112 \<le> cs"
  shows "length b' = length b" "cs \<le> x \<or> x < 8 \<or> 0x14 \<le> x \<and> x < 112 \<Longrightarrow> fb b' x = fb b x"
proof -
  have "length b' = length b \<and> (cs \<le> x \<or> x < 8 \<or> 0x14 \<le> x \<and> x < 112 \<longrightarrow> fb b' x = fb b x)"
  proof (cases "backing = ''''")
    case True
    then show ?thesis using assms(1) by (simp add: put_names_def)
  next
    case False
    let ?off = "qcow2HeaderLen + (8 + roundUp8 (length fmt)) + 8"
    have fits: "?off + length backing \<le> cs"
      and b': "b' = copy_at (splice (splice (put_ext fmt b) 0x08 (be_put 8 ?off)) 0x10 (be_put 4 (length backing))) ?off (bytes_of backing)"
      using assms(1) False by (auto simp: put_names_def Let_def split: if_splits)
    have e: "120 + length fmt \<le> cs" using fits roundUp8_bounds(1) [of "length fmt"] by (simp add: qcow2HeaderLen_def)
    have x: "length (put_ext fmt b) = length b \<and> (cs \<le> x \<or> x < 112 \<longrightarrow> fb (put_ext fmt b) x = fb b x)"
      using e assms(2) unfolding put_ext_def qcow2HeaderLen_def by (simp add: copy_at_fb fb_splice del: le_put_numeral)
    then show ?thesis
      using fits assms(2) unfolding b' by (simp add: copy_at_fb fb_splice qcow2HeaderLen_def del: le_put_numeral)
  qed
  then show "length b' = length b" "cs \<le> x \<or> x < 8 \<or> 0x14 \<le> x \<and> x < 112 \<Longrightarrow> fb b' x = fb b x" by blast+
qed

lemma fb_truncate: "fb (truncate_to n d) x = (if x < n then fb d x else 0)"
  by (auto simp: truncate_to_def fb_def nth_append)

lemma length_truncate [simp]: "length (truncate_to n d) = n"
  by (simp add: truncate_to_def)

lemma length_l1_cluster:
  assumes "8 dvd ly_clusterSize l"
  shows "length (l1_cluster l k) = ly_clusterSize l"
  using assms by (simp add: l1_cluster_def Let_def put_entries_fb)

lemma l1_cluster_fld:
  assumes "8 dvd ly_clusterSize l" "j < ly_clusterSize l div 8"
  shows "fld (l1_cluster l k) (j * 8) 8 =
    be_put 8 (if k * (ly_clusterSize l div 8) + j < ly_l2Count l
      then (ly_l2Off l + (k * (ly_clusterSize l div 8) + j) * ly_clusterSize l) OR oflagCopied else 0)"
proof -
  define v where "v = (\<lambda>j. let e = k * (ly_clusterSize l div 8) + j
    in be_put 8 (if e < ly_l2Count l then (ly_l2Off l + e * ly_clusterSize l) OR oflagCopied else 0))"
  have "fld (put_entries 0 8 (ly_clusterSize l div 8) v (replicate (ly_clusterSize l) 0)) (0 + j * 8) 8 = v j"
    by (rule put_entries_fld) (use assms in \<open>simp_all add: v_def Let_def\<close>)
  then show ?thesis by (simp add: l1_cluster_def Let_def v_def del: le_put_numeral)
qed

lemma div_mod_at: "0 < (w::nat) \<Longrightarrow> base + k * w \<le> x \<Longrightarrow> x < base + k * w + w \<Longrightarrow>
    (x - base) div w = k \<and> (x - base) mod w = x - (base + k * w)"
proof -
  assume w: "0 < w" "base + k * w \<le> x" "x < base + k * w + w"
  then have "x - base = k * w + (x - (base + k * w))" "x - (base + k * w) < w" by simp_all
  then show ?thesis by (metis add.right_neutral div_less div_mult_self3 less_nat_zero_code mod_less mod_mult_self3)
qed

lemma write_l1_fb:
  assumes "write_l1 io l n d = (Ok (), d1)" "length d = ly_l1Off l" "8 dvd ly_clusterSize l" "0 < ly_clusterSize l"
  shows "length d1 = ly_l1Off l + n * ly_clusterSize l \<and>
    fb d1 x = (if ly_l1Off l \<le> x \<and> x < ly_l1Off l + n * ly_clusterSize l
      then l1_cluster l ((x - ly_l1Off l) div ly_clusterSize l) ! ((x - ly_l1Off l) mod ly_clusterSize l) else fb d x)"
  using assms(1)
proof (induction n arbitrary: d1)
  case (Suc n)
  obtain d' where d': "write_l1 io l n d = (Ok (), d')"
    "d1 = write_at d' (ly_l1Off l + n * ly_clusterSize l) (l1_cluster l n)"
    using Suc.prems by (auto split: go.splits prod.splits if_splits)
  show ?case
    using Suc.IH [OF d'(1)] div_mod_at [OF assms(4), of "ly_l1Off l" n x] unfolding d'(2)
    by (simp add: fb_write_at length_l1_cluster [OF assms(3)])
qed (use assms in auto)

lemma write_l1_entry:
  assumes "write_l1 io l n d = (Ok (), d1)" "length d = ly_l1Off l" "8 dvd ly_clusterSize l" "0 < ly_clusterSize l"
    "i * 8 < n * ly_clusterSize l"
  shows "fld d1 (ly_l1Off l + i * 8) 8 =
    be_put 8 (if i < ly_l2Count l then (ly_l2Off l + i * ly_clusterSize l) OR oflagCopied else 0)"
proof -
  define e k j where "e = ly_clusterSize l div 8" and "k = i div e" and "j = i mod e"
  have cs: "ly_clusterSize l = e * 8" using assms(3) by (simp add: e_def)
  have e0: "0 < e" using assms(4) cs by simp
  have i: "i = k * e + j" "j < e" using e0 by (simp_all add: k_def j_def)
  have i8: "i * 8 = k * ly_clusterSize l + j * 8" using i(1) cs by (simp add: algebra_simps)
  have "k < n" using assms(5) e0 unfolding k_def cs by (simp add: less_mult_imp_div_less)
  then have kn: "k * ly_clusterSize l + ly_clusterSize l \<le> n * ly_clusterSize l"
    using mult_le_mono1 [of "Suc k" n "ly_clusterSize l"] by simp
  have j8: "j * 8 + 8 \<le> ly_clusterSize l" using i(2) cs by simp
  have "fld d1 (ly_l1Off l + i * 8) 8 = fld (l1_cluster l k) (j * 8) 8"
  proof (rule nth_equalityI)
    fix m assume "m < length (fld d1 (ly_l1Off l + i * 8) 8)"
    then have m: "m < 8" by (simp add: fld_def)
    let ?x = "ly_l1Off l + i * 8 + m"
    have x: "(?x - ly_l1Off l) div ly_clusterSize l = k" "(?x - ly_l1Off l) mod ly_clusterSize l = j * 8 + m"
      using div_mod_at [OF assms(4), of "ly_l1Off l" k ?x] m i8 j8 by simp_all
    have "fb d1 ?x = l1_cluster l k ! (j * 8 + m)"
      using write_l1_fb [where x = ?x, OF assms(1-4)] x m i8 j8 kn by simp
    then show "fld d1 (ly_l1Off l + i * 8) 8 ! m = fld (l1_cluster l k) (j * 8) 8 ! m"
      using m j8 by (simp add: fld_def fb_def length_l1_cluster [OF assms(3)])
  qed (simp add: fld_def)
  then show ?thesis using l1_cluster_fld [OF assms(3), of j k] i by (simp add: e_def)
qed

text \<open>The buffer, region by region; \<open>b\<close> is the buffer with only header and names.\<close>

lemma create_buf_bytes:
  assumes "create_buf vs backing fmt opt = Ok (l, buf)"
  obtains b where "computeQcow2Layout vs (oo_ClusterBits opt) (oo_PreallocMetadata opt) = Ok l" "0 < vs"
    "put_names (ly_clusterSize l) backing fmt
       (put_header l vs (replicate (ly_refblockOff l + ly_refUsedCls l * ly_clusterSize l) 0)) = Ok b"
    "length buf = ly_refblockOff l + ly_refUsedCls l * ly_clusterSize l"
    "\<And>x. x < ly_clusterSize l \<Longrightarrow> fb buf x = fb b x"
    "\<And>k. k < ly_reftableCls l * (ly_clusterSize l div 8) \<Longrightarrow>
       fld buf (ly_reftableOff l + k * 8) 8 = be_put 8 (if k < ly_refblockCnt l then ly_refblockOff l + k * ly_clusterSize l else 0)"
    "\<And>i. i < ly_physMeta l \<Longrightarrow> fld buf (ly_refblockOff l + i * 2) 2 = be_put 2 1"
proof -
  let ?cs = "ly_clusterSize l"
  let ?n = "ly_refblockOff l + ly_refUsedCls l * ?cs"
  obtain b where lay: "computeQcow2Layout vs (oo_ClusterBits opt) (oo_PreallocMetadata opt) = Ok l" and vs: "0 < vs"
    and b: "put_names ?cs backing fmt (put_header l vs (replicate ?n 0)) = Ok b"
    and buf: "buf = put_refblocks l (put_reftable l b)"
    using assms by (auto simp: create_buf_def Let_def split: if_splits)
  note lf = layout_Ok [OF lay]
  have n: "?cs \<le> ?n" "112 \<le> ?n" using lf(4,11) by simp_all
  have lb: "length b = ?n" using put_names_frame(1) [OF b] n lf(4) by simp
  have hi: "fb b x = 0" if "?cs \<le> x" for x
  proof -
    have "fb b x = fb (put_header l vs (replicate ?n 0)) x" using put_names_frame(2) [OF b] that n lf(4) by simp
    also have "\<dots> = 0" using n that lf(4)
      by (simp add: put_header_def Let_def fb_splice qcow2Magic_def del: le_put_numeral)
    finally show ?thesis .
  qed
  define t where "t = put_reftable l b"
  have "ly_refblockCnt l * 8 \<le> ly_reftableCls l * (?cs div 8) * 8" using lf(16) by (rule mult_le_mono1)
  also have te: "ly_reftableCls l * (?cs div 8) * 8 = ly_reftableCls l * ?cs" using lf(5) by (simp add: mult.assoc)
  finally have tn: "ly_reftableOff l + ly_refblockCnt l * 8 \<le> ly_refblockOff l" using lf(10,11) by simp
  have t: "length t = ?n" "\<And>x. fb t x = (if ly_reftableOff l \<le> x \<and> x < ly_reftableOff l + ly_refblockCnt l * 8
      then be_put 8 (ly_refblockOff l + (x - ly_reftableOff l) div 8 * ?cs) ! ((x - ly_reftableOff l) mod 8) else fb b x)"
    unfolding t_def put_reftable_def by (subst put_entries_fb; use tn lb in simp)+
  have rn: "ly_refblockOff l + ly_physMeta l * 2 \<le> length t" using lf(17) t(1) by simp
  have bf: "length buf = ?n" "\<And>x. fb buf x = (if ly_refblockOff l \<le> x \<and> x < ly_refblockOff l + ly_physMeta l * 2
      then be_put 2 1 ! ((x - ly_refblockOff l) mod 2) else fb t x)"
    unfolding buf t_def [symmetric] put_refblocks_def by (subst put_entries_fb; use rn t(1) in simp)+
  have low: "fb buf x = fb b x" if "x < ?cs" for x using that bf(2) t(2) lf(10,11) by simp
  have tab: "fld buf (ly_reftableOff l + k * 8) 8 = be_put 8 (if k < ly_refblockCnt l then ly_refblockOff l + k * ?cs else 0)"
    if "k < ly_reftableCls l * (?cs div 8)" for k
  proof -
    have "k * 8 + 8 \<le> ly_reftableCls l * ?cs" using te that by linarith
    then have "fld buf (ly_reftableOff l + k * 8) 8 = fld t (ly_reftableOff l + k * 8) 8"
      using bf(2) lf(10,11) by (intro fld_cong) simp
    also have "\<dots> = be_put 8 (if k < ly_refblockCnt l then ly_refblockOff l + k * ?cs else 0)"
    proof (cases "k < ly_refblockCnt l")
      case True
      then show ?thesis unfolding t_def put_reftable_def by (subst put_entries_fld) (use tn lb in simp_all)
    next
      case False
      then have "fld t (ly_reftableOff l + k * 8) 8 = replicate 8 0" using t(2) hi lf(10) by (intro fld_zeros) simp
      then show ?thesis using False by (simp only: be_put_zero if_False)
    qed
    finally show ?thesis .
  qed
  have cnt: "fld buf (ly_refblockOff l + i * 2) 2 = be_put 2 1" if "i < ly_physMeta l" for i
    unfolding buf put_refblocks_def t_def [symmetric]
    by (rule put_entries_fld [where v = "\<lambda>i. be_put 2 1"]) (use rn that in simp_all)
  show ?thesis by (rule that [OF lay vs b bf(1) low tab cnt])
qed

text \<open>Writing it out: everything below the L1 table is the buffer, everything behind it is zero.\<close>

lemma write_image_bytes:
  assumes "write_image io l buf d0 = (Ok (), d)" "computeQcow2Layout vs bits pre = Ok l" "length buf \<le> ly_l1Off l"
  shows "length d = ly_physMeta l * ly_clusterSize l" "x < length buf \<Longrightarrow> fb d x = fb buf x"
    "i < ly_l1Size l \<Longrightarrow> fld d (ly_l1Off l + i * 8) 8 =
       be_put 8 (if i < ly_l2Count l then (ly_l2Off l + i * ly_clusterSize l) OR oflagCopied else 0)"
    "ly_l2Off l \<le> x \<Longrightarrow> fb d x = 0"
proof -
  note lf = layout_Ok [OF assms(2)]
  have cs0: "0 < ly_clusterSize l" using lf(4) by simp
  define d1 where "d1 = truncate_to (ly_l1Off l) buf"
  obtain d2 where w: "write_l1 io l (ly_l1Clusters l) d1 = (Ok (), d2)"
    and d: "d = (if 0 < ly_l2Count l then truncate_to (ly_l2Off l + ly_l2Count l * ly_clusterSize l) d2 else d2)"
    using assms(1) by (auto simp: write_image_def d1_def split: if_splits go.splits prod.splits)
  have len1: "length d1 = ly_l1Off l" by (simp add: d1_def)
  have l2: "ly_l2Off l = ly_l1Off l + ly_l1Clusters l * ly_clusterSize l" using lf(12,13) by (simp add: add_mult_distrib)
  have mend: "ly_physMeta l * ly_clusterSize l = ly_l2Off l + ly_l2Count l * ly_clusterSize l"
    using lf(13,14) by (simp add: add_mult_distrib)
  have d2: "length d2 = ly_l2Off l" "\<And>x. \<not> (ly_l1Off l \<le> x \<and> x < ly_l2Off l) \<Longrightarrow> fb d2 x = fb d1 x"
    using write_l1_fb [OF w len1 lf(5) cs0] l2 by auto
  have fd: "fb d x = fb d2 x" if "x < ly_l2Off l" for x using that unfolding d by (simp add: fb_truncate)
  show "length d = ly_physMeta l * ly_clusterSize l" using d2(1) mend unfolding d by simp
  have "fb d1 x = fb buf x" if "x < length buf" using that assms(3) by (simp add: d1_def fb_truncate)
  then show "fb d x = fb buf x" if "x < length buf" using that fd [of x] d2(2) [of x] assms(3) l2 by simp
  show "fld d (ly_l1Off l + i * 8) 8 =
     be_put 8 (if i < ly_l2Count l then (ly_l2Off l + i * ly_clusterSize l) OR oflagCopied else 0)" if "i < ly_l1Size l"
  proof -
    have i8: "i * 8 + 8 \<le> ly_l1Clusters l * ly_clusterSize l" using that lf(8) by linarith
    then have "fld d (ly_l1Off l + i * 8) 8 = fld d2 (ly_l1Off l + i * 8) 8" using fd l2 by (intro fld_cong) simp
    then show ?thesis using write_l1_entry [OF w len1 lf(5) cs0, of i] i8 by simp
  qed
  show "fb d x = 0" if "ly_l2Off l \<le> x"
    using that d2 fb_def [of d2 x] unfolding d by (simp add: fb_truncate)
qed

section \<open>Reading the header back\<close>

lemma put_header_flds:
  assumes "120 \<le> n" "b = put_header l vs (replicate n 0)"
  shows "fld b 0 4 = qcow2Magic" "fld b 4 4 = be_put 4 3" "fld b 0x14 4 = be_put 4 (ly_clusterBits l)"
    "fld b 0x18 8 = be_put 8 vs" "fld b 0x20 4 = be_put 4 0" "fld b 0x24 4 = be_put 4 (ly_l1Size l)"
    "fld b 0x28 8 = be_put 8 (ly_l1Off l)" "fld b 0x30 8 = be_put 8 (ly_reftableOff l)"
    "fld b 0x38 4 = be_put 4 (ly_reftableCls l)" "fld b 0x3C 4 = be_put 4 0" "fld b 0x40 8 = be_put 8 0"
    "fld b 0x48 8 = be_put 8 0" "fld b 0x64 4 = be_put 4 112" "fld b 8 8 = be_put 8 0" "fld b 0x10 4 = be_put 4 0"
    "112 \<le> x \<Longrightarrow> fb b x = 0"
proof -
  have z: "fld (replicate n 0) off w = be_put w 0" for off w by (simp only: be_put_zero) (rule fld_zeros, simp)
  have m: "length qcow2Magic = 4" by (simp add: qcow2Magic_def)
  show "fld b 0 4 = qcow2Magic" "fld b 4 4 = be_put 4 3" "fld b 0x14 4 = be_put 4 (ly_clusterBits l)"
    "fld b 0x18 8 = be_put 8 vs" "fld b 0x20 4 = be_put 4 0" "fld b 0x24 4 = be_put 4 (ly_l1Size l)"
    "fld b 0x28 8 = be_put 8 (ly_l1Off l)" "fld b 0x30 8 = be_put 8 (ly_reftableOff l)"
    "fld b 0x38 4 = be_put 4 (ly_reftableCls l)" "fld b 0x3C 4 = be_put 4 0" "fld b 0x40 8 = be_put 8 0"
    "fld b 0x48 8 = be_put 8 0" "fld b 0x64 4 = be_put 4 112" "fld b 8 8 = be_put 8 0" "fld b 0x10 4 = be_put 4 0"
    unfolding assms(2) put_header_def Let_def qcow2HeaderLen_def
    using assms(1) by (simp_all add: fld_same fld_other m z del: le_put_numeral)
  show "fb b x = 0" if "112 \<le> x"
    unfolding assms(2) put_header_def Let_def using assms(1) that by (simp add: fb_splice m del: le_put_numeral)
qed

definition name_off :: "string \<Rightarrow> nat" where
  "name_off fmt = qcow2HeaderLen + (8 + roundUp8 (length fmt)) + 8"

text \<open>With a backing name: the extension, the marker behind it, and the name.\<close>

lemma put_names_flds:
  assumes "put_names cs backing fmt b = Ok b'" "cs \<le> length b" "backing \<noteq> ''''" "\<And>x. 112 \<le> x \<Longrightarrow> fb b x = 0"
  shows "name_off fmt + length backing \<le> cs" "length backing \<le> 1023"
    "fld b' 8 8 = be_put 8 (name_off fmt)" "fld b' 0x10 4 = be_put 4 (length backing)"
    "fld b' 112 4 = be_put 4 extBackingFormat" "fld b' 116 4 = be_put 4 (length fmt)"
    "fld b' 120 (length fmt) = bytes_of fmt" "fld b' (120 + roundUp8 (length fmt)) 4 = be_put 4 0"
    "fld b' (name_off fmt) (length backing) = bytes_of backing"
proof -
  have fits: "name_off fmt + length backing \<le> cs" and n: "length backing \<le> 1023"
    and b': "b' = copy_at (splice (splice (put_ext fmt b) 0x08 (be_put 8 (name_off fmt))) 0x10 (be_put 4 (length backing)))
      (name_off fmt) (bytes_of backing)"
    using assms(1,3) by (auto simp: put_names_def Let_def name_off_def maxBackingNameLen_def split: if_splits)
  note r = roundUp8_bounds(1) [of "length fmt"]
  have o: "name_off fmt = 128 + roundUp8 (length fmt)" by (simp add: name_off_def qcow2HeaderLen_def)
  have le: "length (bytes_of fmt) \<le> length b - 120" "length (bytes_of backing) \<le> length b - name_off fmt"
    using fits assms(2) o r by simp_all
  have pe: "put_ext fmt b = splice (splice (splice b 112 (be_put 4 extBackingFormat)) 116 (be_put 4 (length fmt))) 120 (bytes_of fmt)"
    using le(1) fits assms(2) o by (simp add: put_ext_def copy_at_def qcow2HeaderLen_def del: le_put_numeral)
  have lpe: "length (put_ext fmt b) = length b" unfolding pe using fits assms(2) o r by simp
  have b'': "b' = splice (splice (splice (put_ext fmt b) 0x08 (be_put 8 (name_off fmt))) 0x10 (be_put 4 (length backing)))
      (name_off fmt) (bytes_of backing)"
    unfolding b' copy_at_def using le(2) lpe fits assms(2) o by (simp del: le_put_numeral)
  show "name_off fmt + length backing \<le> cs" "length backing \<le> 1023" by (rule fits n)+
  show "fld b' 8 8 = be_put 8 (name_off fmt)" "fld b' 0x10 4 = be_put 4 (length backing)"
    "fld b' (name_off fmt) (length backing) = bytes_of backing"
    unfolding b'' using fits assms(2) o lpe by (simp_all add: fld_same fld_other del: le_put_numeral)
  show "fld b' 112 4 = be_put 4 extBackingFormat" "fld b' 116 4 = be_put 4 (length fmt)" "fld b' 120 (length fmt) = bytes_of fmt"
    unfolding b'' pe using fits assms(2) o r by (simp_all add: fld_same fld_other del: le_put_numeral)
  have "fb b' x = 0" if "120 + roundUp8 (length fmt) \<le> x" "x < 120 + roundUp8 (length fmt) + 4" for x
    unfolding b'' pe using that fits assms(2,4) o r by (simp add: fb_splice del: le_put_numeral)
  then show "fld b' (120 + roundUp8 (length fmt)) 4 = be_put 4 0" by (simp only: be_put_zero) (rule fld_zeros)
qed

lemma be_at_fld:
  assumes "off + w \<le> n" "n \<le> length d"
  shows "be_at w off (take n d) = Ok (be_get (fld d off w))"
proof -
  have "take w (drop off (take n d)) = take w (drop off d)" using assms(1) by (simp add: drop_take min_def)
  then show ?thesis using assms by (simp add: be_at_Ok take_drop_fld)
qed

lemma string_of_bytes_of [simp]: "string_of (bytes_of s) = s"
  by (induction s) (simp_all add: string_of_def bytes_of_def)

lemma layout_bounds:
  assumes "computeQcow2Layout vs bits pre = Ok l"
  shows "vs < 2 ^ 64" "ly_l1Size l < 2 ^ 32" "ly_l1Off l < 2 ^ 64" "ly_reftableOff l < 2 ^ 64" "ly_reftableCls l < 2 ^ 32"
    "ly_clusterBits l < 2 ^ 32" "ly_physMeta l * ly_clusterSize l < 2 ^ 60"
proof -
  note lf = layout_Ok [OF assms]
  have cs: "ly_clusterSize l \<le> 2 ^ 21" "ly_clusterSize l \<le> 2097152" using lf(2,3) two_power_range [OF lf(1,2)] by simp_all
  have "ly_physMeta l * ly_clusterSize l < 2 ^ 39 * 2 ^ 21"
    using lf(20) cs(1) lf(4) by (intro mult_less_le_imp_less) simp_all
  then show pm: "ly_physMeta l * ly_clusterSize l < 2 ^ 60" by simp
  have "ly_l1Off l \<le> ly_physMeta l * ly_clusterSize l" unfolding lf(12) by (rule mult_le_mono1) (simp add: lf(14))
  then show "ly_l1Off l < 2 ^ 64" using pm by simp
  show "vs < 2 ^ 64" using lf(6) by (simp add: maxVirtualSize_def)
  show "ly_l1Size l < 2 ^ 32" "ly_clusterBits l < 2 ^ 32" using lf(2,21) by simp_all
  show "ly_reftableOff l < 2 ^ 64" using lf(10) cs(2) by simp
  have "ly_refblockCnt l * 256 \<le> ly_refblockCnt l * (ly_clusterSize l div 2)"
    "ly_reftableCls l * 64 \<le> ly_reftableCls l * (ly_clusterSize l div 8)"
    using lf(4) by (intro mult_le_mono2; linarith)+
  moreover have "ly_clusterSize l div 2 \<le> 1048576" "ly_clusterSize l div 8 \<le> 262144" using cs(2) by simp_all
  ultimately have "ly_reftableCls l * 64 * 256 \<le> (2 ^ 39 + 1048576) + 262144 * 256" using lf(22,23) by linarith
  then show "ly_reftableCls l < 2 ^ 32" by simp
qed

end
