(* ===== verification/Qcow2Trip.thy ===== *)
theory Qcow2Trip
  imports Qcow2Create
begin

text \<open>
  A created image opened again: header, extensions, backing name and L1 table read back what was
  written, the result satisfies the image invariant and shows its backing image.
\<close>

unbundle bit_operations_syntax

section \<open>Round trip\<close>

text \<open>The header a created image is opened with.\<close>

definition created_header :: "qcow2Layout \<Rightarrow> nat \<Rightarrow> string \<Rightarrow> string \<Rightarrow> qcow2Header" where
  "created_header l vs backing fmt =
     \<lparr>h_bits = ly_clusterBits l, h_size = vs, h_l1Size = ly_l1Size l, h_l1Offset = ly_l1Off l,
      h_refcountOffset = ly_reftableOff l, h_refcountClusters = ly_reftableCls l, h_snapshots = 0,
      h_snapshotsOffset = 0, h_len = 112, h_bfOff = (if backing = '''' then 0 else name_off fmt), h_bfSize = length backing\<rparr>"

definition created_l1 :: "qcow2Layout \<Rightarrow> nat list" where
  "created_l1 l = map (\<lambda>i. if i < ly_l2Count l then (ly_l2Off l + i * ly_clusterSize l) OR oflagCopied else 0) [0..<ly_l1Size l]"

text \<open>What the file looks like, as later lemmas use it.\<close>

definition created :: "nat \<Rightarrow> string \<Rightarrow> string \<Rightarrow> OverlayOpt \<Rightarrow> qcow2Layout \<Rightarrow> u8 list \<Rightarrow> u8 list \<Rightarrow> bool" where
  "created vs backing fmt opt l b d \<longleftrightarrow>
     computeQcow2Layout vs (oo_ClusterBits opt) (oo_PreallocMetadata opt) = Ok l \<and> 0 < vs \<and>
     put_names (ly_clusterSize l) backing fmt
       (put_header l vs (replicate (ly_refblockOff l + ly_refUsedCls l * ly_clusterSize l) 0)) = Ok b \<and>
     length d = ly_physMeta l * ly_clusterSize l \<and>
     (\<forall>x < ly_clusterSize l. fb d x = fb b x) \<and>
     (\<forall>k < ly_reftableCls l * (ly_clusterSize l div 8).
        fld d (ly_reftableOff l + k * 8) 8 = be_put 8 (if k < ly_refblockCnt l then ly_refblockOff l + k * ly_clusterSize l else 0)) \<and>
     (\<forall>i < ly_physMeta l. fld d (ly_refblockOff l + i * 2) 2 = be_put 2 1) \<and>
     (\<forall>i < ly_l1Size l. fld d (ly_l1Off l + i * 8) 8 =
        be_put 8 (if i < ly_l2Count l then (ly_l2Off l + i * ly_clusterSize l) OR oflagCopied else 0)) \<and>
     (\<forall>x \<ge> ly_l2Off l. fb d x = 0)"

lemma createQcow2_created:
  assumes "createQcow2 io vs backing fmt opt d0 = (Ok (), d)"
  obtains l b where "created vs backing fmt opt l b d"
proof -
  obtain l buf where cb: "create_buf vs backing fmt opt = Ok (l, buf)" and w: "write_image io l buf d0 = (Ok (), d)"
    using assms by (auto simp: createQcow2_def split: go.splits)
  obtain b where c: "computeQcow2Layout vs (oo_ClusterBits opt) (oo_PreallocMetadata opt) = Ok l" "0 < vs"
    "put_names (ly_clusterSize l) backing fmt
       (put_header l vs (replicate (ly_refblockOff l + ly_refUsedCls l * ly_clusterSize l) 0)) = Ok b"
    "length buf = ly_refblockOff l + ly_refUsedCls l * ly_clusterSize l"
    and low: "\<And>x. x < ly_clusterSize l \<Longrightarrow> fb buf x = fb b x"
    and tab: "\<And>k. k < ly_reftableCls l * (ly_clusterSize l div 8) \<Longrightarrow>
       fld buf (ly_reftableOff l + k * 8) 8 = be_put 8 (if k < ly_refblockCnt l then ly_refblockOff l + k * ly_clusterSize l else 0)"
    and cnt: "\<And>i. i < ly_physMeta l \<Longrightarrow> fld buf (ly_refblockOff l + i * 2) 2 = be_put 2 1"
    by (rule create_buf_bytes [OF cb]) blast
  note lf = layout_Ok [OF c(1)]
  have fits: "length buf \<le> ly_l1Off l" using c(4) lf(11,12,18) by (simp add: add_mult_distrib)
  note wi = write_image_bytes [OF w c(1) fits]
  have pre: "fld d off n = fld buf off n" if "off + n \<le> length buf" for off n
    using that by (intro fld_cong) (simp add: wi(2))
  have te: "ly_reftableCls l * (ly_clusterSize l div 8) * 8 = ly_reftableCls l * ly_clusterSize l"
    using lf(5) by (simp add: mult.assoc)
  have "fld d (ly_reftableOff l + k * 8) 8 = fld buf (ly_reftableOff l + k * 8) 8"
    if "k < ly_reftableCls l * (ly_clusterSize l div 8)" for k
  proof (rule pre)
    have "k * 8 + 8 \<le> ly_reftableCls l * (ly_clusterSize l div 8) * 8" using that by linarith
    then show "ly_reftableOff l + k * 8 + 8 \<le> length buf" using te c(4) lf(10,11) by (simp add: add_mult_distrib)
  qed
  moreover have "fld d (ly_refblockOff l + i * 2) 2 = fld buf (ly_refblockOff l + i * 2) 2" if "i < ly_physMeta l" for i
    by (rule pre) (use that c(4) lf(17) in linarith)
  moreover have "fb d x = fb b x" if "x < ly_clusterSize l" for x
    using that low wi(2) [of x] c(4) lf(11) by simp
  ultimately have "created vs backing fmt opt l b d"
    unfolding created_def using c(1-3) wi(1,3,4) tab cnt by simp
  then show ?thesis by (rule that)
qed

lemma createdD:
  assumes "created vs backing fmt opt l b d"
  shows "computeQcow2Layout vs (oo_ClusterBits opt) (oo_PreallocMetadata opt) = Ok l" "0 < vs"
    "length d = ly_physMeta l * ly_clusterSize l" "off + w \<le> ly_clusterSize l \<Longrightarrow> fld d off w = fld b off w"
    "k < ly_reftableCls l * (ly_clusterSize l div 8) \<Longrightarrow>
        fld d (ly_reftableOff l + k * 8) 8 = be_put 8 (if k < ly_refblockCnt l then ly_refblockOff l + k * ly_clusterSize l else 0)"
    "i < ly_physMeta l \<Longrightarrow> fld d (ly_refblockOff l + i * 2) 2 = be_put 2 1"
    "j < ly_l1Size l \<Longrightarrow> fld d (ly_l1Off l + j * 8) 8 =
        be_put 8 (if j < ly_l2Count l then (ly_l2Off l + j * ly_clusterSize l) OR oflagCopied else 0)"
    "ly_l2Off l \<le> x \<Longrightarrow> fb d x = 0"
    "ly_clusterSize l \<le> length d"
proof -
  note c = assms [unfolded created_def]
  show "ly_clusterSize l \<le> length d" using c layout_Ok(14) by auto
  show "fld d off w = fld b off w" if "off + w \<le> ly_clusterSize l" using c that by (intro fld_cong) simp
qed (use assms [unfolded created_def] in blast)+

lemma created_flds:
  assumes "created vs backing fmt opt l b d"
  shows "fld d 0 4 = qcow2Magic" "fld d 4 4 = be_put 4 3" "fld d 0x14 4 = be_put 4 (ly_clusterBits l)"
    "fld d 0x18 8 = be_put 8 vs" "fld d 0x20 4 = be_put 4 0" "fld d 0x24 4 = be_put 4 (ly_l1Size l)"
    "fld d 0x28 8 = be_put 8 (ly_l1Off l)" "fld d 0x30 8 = be_put 8 (ly_reftableOff l)"
    "fld d 0x38 4 = be_put 4 (ly_reftableCls l)" "fld d 0x3C 4 = be_put 4 0" "fld d 0x40 8 = be_put 8 0"
    "fld d 0x48 8 = be_put 8 0" "fld d 0x64 4 = be_put 4 112"
    "fld d 8 8 = be_put 8 (if backing = '''' then 0 else name_off fmt)" "fld d 0x10 4 = be_put 4 (length backing)"
    "backing = '''' \<Longrightarrow> fld d 112 4 = be_put 4 0"
    "backing \<noteq> '''' \<Longrightarrow> name_off fmt + length backing \<le> ly_clusterSize l"
    "backing \<noteq> '''' \<Longrightarrow> length backing \<le> 1023"
    "backing \<noteq> '''' \<Longrightarrow> fld d 112 4 = be_put 4 extBackingFormat"
    "backing \<noteq> '''' \<Longrightarrow> fld d 116 4 = be_put 4 (length fmt)"
    "backing \<noteq> '''' \<Longrightarrow> fld d 120 (length fmt) = bytes_of fmt"
    "backing \<noteq> '''' \<Longrightarrow> fld d (120 + roundUp8 (length fmt)) 4 = be_put 4 0"
    "backing \<noteq> '''' \<Longrightarrow> fld d (name_off fmt) (length backing) = bytes_of backing"
proof -
  note lf = layout_Ok [OF createdD(1) [OF assms]]
  define n where "n = ly_refblockOff l + ly_refUsedCls l * ly_clusterSize l"
  define h where "h = put_header l vs (replicate n 0)"
  have pn: "put_names (ly_clusterSize l) backing fmt h = Ok b" using assms by (simp add: created_def h_def n_def)
  have n: "ly_clusterSize l \<le> n" "120 \<le> n" using lf(4,11) by (simp_all add: n_def)
  note hf = put_header_flds [OF n(2) h_def]
  have lh: "ly_clusterSize l \<le> length h" using n by (simp add: h_def)
  have fr: "fld d off w = fld h off w" if "off + w \<le> 8 \<or> 0x14 \<le> off \<and> off + w \<le> 112" for off w
  proof -
    have "fld d off w = fld b off w" using createdD(4) [OF assms, of off w] that lf(4) by auto
    also have "\<dots> = fld h off w" using put_names_frame(2) [OF pn lh] that lf(4) by (intro fld_cong) auto
    finally show ?thesis .
  qed
  show "fld d 0 4 = qcow2Magic" "fld d 4 4 = be_put 4 3" "fld d 0x14 4 = be_put 4 (ly_clusterBits l)"
    "fld d 0x18 8 = be_put 8 vs" "fld d 0x20 4 = be_put 4 0" "fld d 0x24 4 = be_put 4 (ly_l1Size l)"
    "fld d 0x28 8 = be_put 8 (ly_l1Off l)" "fld d 0x30 8 = be_put 8 (ly_reftableOff l)"
    "fld d 0x38 4 = be_put 4 (ly_reftableCls l)" "fld d 0x3C 4 = be_put 4 0" "fld d 0x40 8 = be_put 8 0"
    "fld d 0x48 8 = be_put 8 0" "fld d 0x64 4 = be_put 4 112"
    by (subst fr; use hf in simp)+
  have low: "fld d off w = fld b off w" if "off + w \<le> 120" for off w using createdD(4) [OF assms] that lf(4) by simp
  have s: "b = h" if "backing = ''''" using pn that by (simp add: put_names_def)
  note nm = put_names_flds [OF pn lh _ hf(16)]
  show "fld d 8 8 = be_put 8 (if backing = '''' then 0 else name_off fmt)" "fld d 0x10 4 = be_put 4 (length backing)"
    using low [of 8 8] low [of 16 4] s hf(14,15) nm(3,4) by (cases "backing = ''''"; simp del: le_put_numeral)+
  show "fld d 112 4 = be_put 4 0" if "backing = ''''"
    using low [of 112 4] s [OF that] hf(16) fld_zeros [where d = h and off = 112 and w = 4] by (simp add: be_put_zero)
  assume bk: "backing \<noteq> ''''"
  note nm = put_names_flds [OF pn lh bk hf(16)]
  note r = roundUp8_bounds(1) [of "length fmt"]
  have o: "name_off fmt = 128 + roundUp8 (length fmt)" by (simp add: name_off_def qcow2HeaderLen_def)
  show "name_off fmt + length backing \<le> ly_clusterSize l" by (rule nm(1))
  show "length backing \<le> 1023" by (rule nm(2))
  show "fld d 112 4 = be_put 4 extBackingFormat" "fld d 116 4 = be_put 4 (length fmt)"
    using nm(5,6) low by (simp_all del: le_put_numeral)
  show "fld d 120 (length fmt) = bytes_of fmt" "fld d (120 + roundUp8 (length fmt)) 4 = be_put 4 0"
    "fld d (name_off fmt) (length backing) = bytes_of backing"
    using nm(1,7-9) o r by (subst createdD(4) [OF assms]; simp del: le_put_numeral)+
qed

lemma or_copied_bound: "off < 2 ^ 63 \<Longrightarrow> off OR oflagCopied < 2 ^ 64"
proof -
  assume a: "off < 2 ^ 63"
  have "take_bit 64 (off OR oflagCopied) = off OR oflagCopied"
  proof (rule bit_eqI)
    fix n
    show "bit (take_bit 64 (off OR oflagCopied)) n = bit (off OR oflagCopied) n"
      using bit_high_zero [OF a, of n] by (cases "n < 64") (auto simp: bit_take_bit_iff bit_or_iff bit_oflagCopied)
  qed
  then show ?thesis by (metis take_bit_nat_less_exp)
qed

lemma created_parse_header:
  assumes "created vs backing fmt opt l b d"
  shows "parse_header (take 112 d) = Ok (created_header l vs backing fmt)"
proof -
  note lay = createdD(1) [OF assms]
  note lf = layout_Ok [OF lay]
  note lb = layout_bounds [OF lay]
  have d: "112 \<le> length d" using createdD(9) [OF assms] lf(4) by simp
  have nm: "(if backing = '''' then 0 else name_off fmt) < 2 ^ 64" "length backing < 2 ^ 32"
    using created_flds(17,18) [OF assms] lf(3) two_power_range [OF lf(1,2)] by (cases "backing = ''''"; simp)+
  have len: "(112::nat) \<le> 2 ^ ly_clusterBits l" using lf(3,4) by simp
  have v: "be_get (be_put 4 v) = v" if "v < 2 ^ 32" for v using that by (simp add: be_get_put)
  have w: "be_get (be_put 8 v) = v" if "v < 2 ^ 64" for v using that by (simp add: be_get_put)
  have g: "be_get (be_put 4 3) = 3" "be_get (be_put 4 112) = 112" "be_get (be_put 4 0) = 0" "be_get (be_put 8 0) = 0"
    "be_get (be_put 4 (ly_clusterBits l)) = ly_clusterBits l" "be_get (be_put 8 vs) = vs"
    "be_get (be_put 4 (ly_l1Size l)) = ly_l1Size l" "be_get (be_put 8 (ly_l1Off l)) = ly_l1Off l"
    "be_get (be_put 8 (ly_reftableOff l)) = ly_reftableOff l" "be_get (be_put 4 (ly_reftableCls l)) = ly_reftableCls l"
    "be_get (be_put 4 (length backing)) = length backing"
    "be_get (be_put 8 (if backing = '''' then 0 else name_off fmt)) = (if backing = '''' then 0 else name_off fmt)"
    by (rule v w, rule lb nm | rule v w, simp)+
  show ?thesis
    unfolding parse_header_def
    using lf(1,2,6) len
    by (simp add: be_at_fld d created_flds(1-15) [OF assms] g qcow2V3HeaderLen_def created_header_def
        del: le_put_numeral split del: if_split)
qed

lemma created_parse_ext:
  assumes "created vs backing fmt opt l b d" "backing \<noteq> '''' \<longrightarrow> fmt = ''raw'' \<or> fmt = ''qcow2''"
  shows "parse_ext d (take 112 d) (created_header l vs backing fmt) = Ok (if backing = '''' then '''' else fmt)"
proof -
  note lf = layout_Ok [OF createdD(1) [OF assms(1)]]
  note cf = created_flds [OF assms(1)]
  have d: "ly_clusterSize l \<le> length d" by (rule createdD(9) [OF assms(1)])
  have cs: "h_cs (created_header l vs backing fmt) = ly_clusterSize l" using lf(3) by (simp add: h_cs_def created_header_def)
  have hl: "length (take 112 d) = 112" using d lf(4) by simp
  show ?thesis
  proof (cases "backing = ''''")
    case True
    have "ext_head (take 112 d) (take (ly_clusterSize l) d) 112 = Ok (0, be_get (fld d 116 4))"
      using d lf(4) cf(16) [OF True] by (simp add: ext_head_def Let_def hl be_at_fld be_get_put del: le_put_numeral)
    then have "ext_scan (take 112 d) (take (ly_clusterSize l) d) (ly_clusterSize l) 112 '''' = Ok ('''', True)"
      using lf(4) by (simp add: ext_scan.simps)
    then show ?thesis using True cs lf(4) d by (simp add: parse_ext_def created_header_def qcow2HeaderLen_def readN_def)
  next
    case False
    then have f: "roundUp8 (length fmt) = 8" "0 < length fmt" "length fmt \<le> 8" using assms(2) by (auto simp: roundUp8_def)
    have o: "name_off fmt = 136" using f(1) by (simp add: name_off_def qcow2HeaderLen_def)
    have o2: "136 \<le> ly_clusterSize l" "136 \<le> length d" using cf(17) [OF False] o d by simp_all
    have h1: "ext_head (take 112 d) (take 136 d) 112 = Ok (extBackingFormat, length fmt)"
      using o2 cf(19,20) [OF False] f(3)
      by (simp add: ext_head_def Let_def hl be_at_fld be_get_put extBackingFormat_def del: le_put_numeral)
    have h2: "ext_head (take 112 d) (take 136 d) 128 = Ok (0, be_get (fld d 132 4))"
      using o2 cf(22) [OF False] f(1)
      by (simp add: ext_head_def Let_def hl be_at_fld be_get_put del: le_put_numeral)
    have "take (length fmt) (drop 120 (take 136 d)) = take (length fmt) (drop 120 d)"
      using f(3) by (simp add: drop_take min_def)
    then have sl: "slice (take 136 d) 120 (120 + length fmt) = (Ok (bytes_of fmt) :: (qerr, u8 list) go)"
      using o2 cf(21) [OF False] f(3) by (simp add: slice_def take_drop_fld)
    have "ext_scan (take 112 d) (take 136 d) 136 128 fmt = Ok (fmt, True)" using h2 by (simp add: ext_scan.simps)
    then have "ext_scan (take 112 d) (take 136 d) 136 112 '''' = Ok (fmt, True)"
      using h1 sl f assms(2) False by (subst ext_scan.simps) (auto simp: extBackingFormat_def)
    then show ?thesis using False cs o2 o by (simp add: parse_ext_def created_header_def qcow2HeaderLen_def readN_def)
  qed
qed

lemma created_parse_name:
  assumes "created vs backing fmt opt l b d" "backing \<noteq> ''''" "validateBackingName backing = Ok ()"
  shows "parse_name d (created_header l vs backing fmt) = Ok backing"
proof -
  note cf = created_flds(17,18,23) [OF assms(1,2)]
  have cs: "h_cs (created_header l vs backing fmt) = ly_clusterSize l"
    using layout_Ok(3) [OF createdD(1) [OF assms(1)]] by (simp add: h_cs_def created_header_def)
  have "112 \<le> name_off fmt" by (simp add: name_off_def qcow2HeaderLen_def)
  moreover have "take (length backing) (drop (name_off fmt) d) = bytes_of backing"
    using cf createdD(9) [OF assms(1)] by (simp add: take_drop_fld)
  ultimately show ?thesis
    using cf cs assms(2,3) createdD(9) [OF assms(1)]
    by (simp add: parse_name_def readN_def created_header_def maxBackingNameLen_def)
qed

lemma created_load_l1:
  assumes "created vs backing fmt opt l b d"
  shows "load_l1 d (created_header l vs backing fmt) =
    (if maxL1TableBytes < ly_l1Size l * 8 then Err ''L1 table cap'' else Ok (created_l1 l))"
proof -
  note lay = createdD(1) [OF assms]
  note lf = layout_Ok [OF lay]
  note lb = layout_bounds [OF lay]
  let ?h = "created_header l vs backing fmt"
  have cs: "h_cs ?h = ly_clusterSize l" using lf(3) by (simp add: h_cs_def created_header_def)
  have h: "h_size ?h = vs" "h_l1Size ?h = ly_l1Size l" "h_l1Offset ?h = ly_l1Off l" by (simp_all add: created_header_def)
  have pos: "0 < ly_clusterSize l div 8 * ly_clusterSize l" using lf(4) by simp
  have dc: "divCeil vs (ly_clusterSize l div 8 * ly_clusterSize l) = Ok (ly_l1Size l)"
    using divCeil_eq [OF lb(1) pos] lf(19) by simp
  have fits: "ly_l1Off l + ly_l1Size l * 8 \<le> length d"
    using lf(8) createdD(3) [OF assms] lf(12,14) by (simp add: add_mult_distrib)
  have small: "ly_l1Off l + ly_l1Size l * 8 < 2 ^ 64" using fits createdD(3) [OF assms] lb(7) by simp
  have al: "ly_l1Off l mod ly_clusterSize l = 0" using lf(12) by simp
  have "decode_table (ly_l1Size l) (take (ly_l1Size l * 8) (drop (ly_l1Off l) d)) = created_l1 l"
  proof -
    have "be_get (take 8 (drop (i * 8) (drop (ly_l1Off l) d))) = created_l1 l ! i" if i: "i < ly_l1Size l" for i
    proof -
      have "take 8 (drop (i * 8) (drop (ly_l1Off l) d)) = fld d (ly_l1Off l + i * 8) 8"
        using i fits by (simp add: take_drop_fld add.commute)
      moreover have "(ly_l2Off l + i * ly_clusterSize l) OR oflagCopied < 2 ^ 64" if "i < ly_l2Count l"
      proof (rule or_copied_bound)
        have "ly_l2Off l + i * ly_clusterSize l \<le> ly_l2Off l + ly_l2Count l * ly_clusterSize l" using that by simp
        also have "\<dots> = ly_physMeta l * ly_clusterSize l" using lf(13,14) by (simp add: add_mult_distrib)
        finally show "ly_l2Off l + i * ly_clusterSize l < 2 ^ 63" using lb(7) by simp
      qed
      ultimately show ?thesis using createdD(7) [OF assms i] i by (simp add: be_get_put created_l1_def del: le_put_numeral)
    qed
    then show ?thesis using fits by (subst decode_take) (simp_all add: list_eq_iff_nth_eq decode_table_def created_l1_def)
  qed
  then show ?thesis
    using dc al small fits lb(2) by (simp add: load_l1_def Let_def cs h readN_def)
qed

section \<open>The opened image as a disk\<close>

definition q_img :: "(nat \<Rightarrow> bool) \<Rightarrow> qinfo \<Rightarrow> (nat \<Rightarrow> nat \<Rightarrow> u8 list \<times> qerr option) option \<Rightarrow> Img" where
  "q_img io q backing =
     \<lparr>im_file = hf_data (qi_file q), im_ops = 0, im_io = io, im_size = h_size (qi_hdr q),
      im_l1Offset = h_l1Offset (qi_hdr q), im_refcountOffset = h_refcountOffset (qi_hdr q),
      im_refcountClusters = h_refcountClusters (qi_hdr q), im_bits = h_bits (qi_hdr q),
      im_fileSize = length (hf_data (qi_file q)), im_l1 = qi_l1 q, im_cache = [], im_cacheBytes = 0,
      im_backing = backing\<rparr>"

text \<open>\<^verbatim>\<open>ReadAt\<close> of an opened chain whose files can be read.\<close>

fun reader :: "gimg \<Rightarrow> nat \<Rightarrow> nat \<Rightarrow> u8 list \<times> qerr option" where
  "reader (GRaw f) = raw_ReadAt (hf_data f)"
| "reader (GQcow q None) = q_ReadAt (q_img (\<lambda>n. True) q None)"
| "reader (GQcow q (Some (p, img))) = q_ReadAt (q_img (\<lambda>n. True) q (Some (reader img)))"

definition isQcow2 :: "env \<Rightarrow> path \<Rightarrow> bool" where
  "isQcow2 env p = (case e_fs env p of None \<Rightarrow> False | Some f \<Rightarrow> take 4 (hf_data f) = qcow2Magic)"

datatype backend = BRaw hfile | BQcow Img

text \<open>\<open>fs2\<close> is the file system at the second, read-write open.\<close>

definition OpenWritable :: "env \<Rightarrow> (path \<Rightarrow> hfile option) \<Rightarrow> (nat \<Rightarrow> bool) \<Rightarrow> path \<Rightarrow> (qerr, backend) go" where
  "OpenWritable env fs2 io p =
     (if \<not> isQcow2 env p then (case fs2 p of None \<Rightarrow> Err ''open'' | Some f \<Rightarrow> Ok (BRaw f))
      else go_bind (openGuestImage env p) (\<lambda>img.
           case img of
             GRaw f \<Rightarrow> Err ''sniffed qcow2 but parsed raw''
           | GQcow q b \<Rightarrow>
               (case fs2 p of
                  None \<Rightarrow> Err ''reopen''
                | Some f2 \<Rightarrow>
                    if hf_key f2 \<noteq> hf_key (qi_file q) then Err ''replaced between open and reopen''
                    else Ok (BQcow (q_img io (q\<lparr>qi_file := f2\<rparr>) (map_option (reader \<circ> snd) b))))))"

definition created_role :: "qcow2Layout \<Rightarrow> nat \<Rightarrow> role" where
  "created_role l c =
     (if c = 0 then ROther
      else if c < 1 + ly_reftableCls l then RTab
      else if c < 1 + ly_reftableCls l + ly_refblockCnt l then RBlk (c - (1 + ly_reftableCls l))
      else if c < 1 + ly_reftableCls l + ly_refblockCnt l + ly_l1Clusters l then RL1
      else if c < ly_physMeta l then RL2 (c - (1 + ly_reftableCls l + ly_refblockCnt l + ly_l1Clusters l))
      else RFree)"

lemma cluster_range: "0 < (cs::nat) \<Longrightarrow> a * cs \<le> x \<Longrightarrow> x < (a + n) * cs \<Longrightarrow> a \<le> x div cs \<and> x div cs < a + n"
  by (metis div_le_mono less_mult_imp_div_less nonzero_mult_div_cancel_right less_numeral_extra(3))

lemma created_refs:
  assumes "created vs backing fmt opt l b d"
  shows "wf_ref (ly_clusterSize l) (ly_reftableCls l * (ly_clusterSize l div 8)) (ly_reftableOff l) (created_role l) d"
proof -
  note lay = createdD(1) [OF assms]
  note lf = layout_Ok [OF lay]
  note lb = layout_bounds [OF lay]
  define cs h where "cs = ly_clusterSize l" and "h = ly_clusterSize l div 2"
  have cs0: "0 < cs" "0 < h" using lf(4) by (simp_all add: cs_def h_def)
  have "2 dvd cs" using lf(5) unfolding cs_def by (rule dvd_trans [rotated]) simp
  then have h2: "cs = h * 2" by (simp add: h_def cs_def)
  have te: "ly_reftableCls l * (cs div 8) * 8 = ly_reftableCls l * cs" using lf(5) by (simp add: mult.assoc cs_def)
  have d512: "512 dvd cs" using le_imp_power_dvd [OF lf(1), of "2::nat"] lf(3) by (simp add: cs_def)
  have tab: "created_role l (x div cs) = RTab"
    if "ly_reftableOff l \<le> x" "x < ly_reftableOff l + ly_reftableCls l * (cs div 8) * 8" for x
  proof -
    have "x < ly_reftableOff l + ly_reftableCls l * cs" using that(2) unfolding te .
    then have "1 \<le> x div cs \<and> x div cs < 1 + ly_reftableCls l"
      using that(1) lf(10) by (intro cluster_range [OF cs0(1)]) (simp_all add: cs_def)
    then show ?thesis by (simp add: created_role_def)
  qed
  have te': "tabe (ly_reftableOff l) d k = (if k < ly_refblockCnt l then (1 + ly_reftableCls l + k) * cs else 0)"
    if "k < ly_reftableCls l * (cs div 8)" for k
  proof (cases "k < ly_refblockCnt l")
    case True
    then have "(1 + ly_reftableCls l + k) * cs \<le> ly_physMeta l * cs" using lf(14) by (intro mult_le_mono1) simp
    then have small: "(1 + ly_reftableCls l + k) * cs < 2 ^ 64" using lb(7) by (simp add: cs_def)
    have "be8 d (ly_reftableOff l + k * 8) = (1 + ly_reftableCls l + k) * cs"
      using createdD(5) [OF assms, of k] that True lf(11) small
      by (simp add: be8_fld be_get_put add_mult_distrib cs_def del: le_put_numeral)
    then show ?thesis using True small d512 by (simp add: tabe_def reft_mask)
  next
    case False
    then show ?thesis using createdD(5) [OF assms, of k] that
      by (simp add: tabe_def be8_fld be_get_put cs_def del: le_put_numeral)
  qed
  have blk: "created_role l ((1 + ly_reftableCls l + k) * cs div cs) = RBlk k" if "k < ly_refblockCnt l" for k
    using that cs0 by (simp add: created_role_def)
  have cnt: "c div h < ly_reftableCls l * (cs div 8) \<and> refc cs (ly_reftableOff l) d c \<noteq> 0" if "c < ly_physMeta l" for c
  proof -
    have "c < ly_refblockCnt l * h" using that lf(15) by (simp add: h_def)
    then have k: "c div h < ly_refblockCnt l" by (rule less_mult_imp_div_less)
    then have m: "c div h < ly_reftableCls l * (cs div 8)" using lf(16) by (simp add: cs_def)
    have "(1 + t + q) * (h * 2) + r * 2 = (1 + t) * (h * 2) + (q * h + r) * 2" for t q r by (simp add: algebra_simps)
    from this [of "ly_reftableCls l" "c div h" "c mod h"]
    have x: "(1 + ly_reftableCls l + c div h) * cs + c mod h * 2 = ly_refblockOff l + c * 2"
      using lf(11) h2 by (simp add: cs_def [symmetric] del: mult_Suc add_Suc)
    define B where "B = (1 + ly_reftableCls l + c div h) * cs"
    have B: "tabe (ly_reftableOff l) d (c div h) = B" "B \<noteq> 0" "B + c mod h * 2 = ly_refblockOff l + c * 2"
      using te' [OF m] k cs0(1) x by (simp_all add: B_def)
    have "refc cs (ly_reftableOff l) d c = be_get (fld d (ly_refblockOff l + c * 2) 2)"
      unfolding refc_def h_def [folded cs_def, symmetric] Let_def B fld_def using B(2) by simp
    then show ?thesis using createdD(6) [OF assms that] m by (simp add: be_get_put del: le_put_numeral)
  qed
  have role: "c < ly_physMeta l" if "counted (created_role l c)" for c
    using that by (auto simp: created_role_def split: if_splits)
  show ?thesis
    unfolding wf_ref_def cs_def [symmetric] h_def [folded cs_def, symmetric]
    using tab te' blk cnt role cs0 by (auto split: if_splits)
qed

lemma created_maps:
  assumes "created vs backing fmt opt l b d" "ly_clusterBits l \<le> 16"
  shows "wf_map (ly_clusterSize l) (created_role l) (created_l1 l) [] d"
    "wf_l1 (ly_clusterSize l) (ly_l1Off l) (created_role l) (created_l1 l) d"
    "lookup (ly_clusterSize l) (created_l1 l) d c = 0 \<or> ly_l1Size l \<le> c div (ly_clusterSize l div 8)"
proof -
  note lay = createdD(1) [OF assms(1)]
  note lf = layout_Ok [OF lay]
  define cs l2 where "cs = ly_clusterSize l" and "l2 = 1 + ly_reftableCls l + ly_refblockCnt l + ly_l1Clusters l"
  have cs0: "0 < cs" using lf(4) by (simp add: cs_def)
  have d512: "512 dvd cs" using le_imp_power_dvd [OF lf(1), of "2::nat"] lf(3) by (simp add: cs_def)
  have "cs \<le> 2 ^ 16" using lf(3) power_increasing [OF assms(2), of "2::nat"] by (simp add: cs_def)
  then have "ly_physMeta l * cs < 2 ^ 39 * 2 ^ 16" using lf(20) cs0 by (intro mult_less_le_imp_less) simp_all
  then have pm: "ly_physMeta l * cs < 2 ^ 56" by simp
  have len: "length d = ly_physMeta l * cs" using createdD(3) [OF assms(1)] by (simp add: cs_def)
  have mend: "ly_l2Off l + i * cs = (l2 + i) * cs" for i using lf(13) by (simp add: l2_def cs_def add_mult_distrib)
  have l1: "length (created_l1 l) = ly_l1Size l" by (simp add: created_l1_def)
  have off: "e_off (created_l1 l ! i) = (if i < ly_l2Count l then (l2 + i) * cs else 0)"
    and room: "i < ly_l2Count l \<Longrightarrow> (l2 + i) * cs + cs \<le> length d" if "i < ly_l1Size l" for i
  proof -
    show r: "(l2 + i) * cs + cs \<le> length d" if "i < ly_l2Count l"
      using that lf(14) mult_le_mono1 [of "Suc (l2 + i)" "ly_physMeta l" cs] by (simp add: len l2_def)
    show "e_off (created_l1 l ! i) = (if i < ly_l2Count l then (l2 + i) * cs else 0)"
    proof (cases "i < ly_l2Count l")
      case True
      then have "(l2 + i) * cs < 2 ^ 56" using r pm len by simp
      moreover have "512 dvd (l2 + i) * cs" using d512 by (rule dvd_mult)
      ultimately show ?thesis using that True e_off_linked by (simp add: created_l1_def cs_def [symmetric] mend)
    next
      case False
      then show ?thesis using that by (simp add: created_l1_def)
    qed
  qed
  have zero: "be8 d ((l2 + i) * cs + 8 * j) = 0" for i j
  proof (rule be8_replicate)
    fix x assume "(l2 + i) * cs + 8 * j \<le> x"
    then have "ly_l2Off l \<le> x" using mend [of i] by linarith
    then show "fb d x = 0" by (rule createdD(8) [OF assms(1)])
  qed
  have role: "created_role l ((l2 + i) * cs div cs) = RL2 i" if "i < ly_l2Count l" for i
    using that cs0 lf(14) by (simp add: created_role_def l2_def)
  show "wf_map (ly_clusterSize l) (created_role l) (created_l1 l) [] d"
    unfolding wf_map_def cs_def [symmetric]
    using off room zero role cs0 by (auto simp: l1 tbl_ok_def ent_ok_def)
  show "lookup (ly_clusterSize l) (created_l1 l) d c = 0 \<or> ly_l1Size l \<le> c div (ly_clusterSize l div 8)"
    using off [of "c div (cs div 8)"] zero by (auto simp: lookup_def Let_def cs_def [symmetric])
  have "created_role l (x div cs) = RL1" if "ly_l1Off l \<le> x" "x < ly_l1Off l + ly_l1Size l * 8" for x
  proof -
    have "1 + ly_reftableCls l + ly_refblockCnt l \<le> x div cs \<and>
        x div cs < 1 + ly_reftableCls l + ly_refblockCnt l + ly_l1Clusters l"
      using that lf(8,12) by (intro cluster_range [OF cs0]) (simp_all add: cs_def add_mult_distrib)
    then show ?thesis by (simp add: created_role_def)
  qed
  moreover have "be8 d (ly_l1Off l + i * 8) = created_l1 l ! i" if "i < ly_l1Size l" for i
  proof -
    have "(l2 + i) * cs < 2 ^ 63" if "i < ly_l2Count l" using that room [OF \<open>i < ly_l1Size l\<close>] pm len by simp
    then show ?thesis
      using createdD(7) [OF assms(1) that] that or_copied_bound
      by (simp add: be8_fld be_get_put created_l1_def cs_def [symmetric] mend del: le_put_numeral)
  qed
  ultimately show "wf_l1 (ly_clusterSize l) (ly_l1Off l) (created_role l) (created_l1 l) d"
    by (simp add: wf_l1_def l1 cs_def)
qed

text \<open>A created image satisfies the invariant and shows nothing but its backing image.\<close>

lemma created_wf:
  assumes "created vs backing fmt opt l b (hf_data f)" "ly_clusterBits l \<le> 16"
    "q = \<lparr>qi_file = f, qi_hdr = created_header l vs backing fmt, qi_l1 = created_l1 l, qi_fmt = fm, qi_name = nm\<rparr>"
  shows "img_wf (created_role l) (q_img io q bk)" "g < vs \<Longrightarrow> content bytes (q_img io q bk) g = bytes g"
proof -
  note lay = createdD(1) [OF assms(1)]
  note lf = layout_Ok [OF lay]
  let ?s = "q_img io q bk"
  have cs: "im_cs ?s = ly_clusterSize l" by (simp add: im_cs_def q_img_def assms(3) created_header_def lf(3))
  have mb: "maxBlocks ?s = ly_reftableCls l * (ly_clusterSize l div 8)" "entriesPerBlock ?s = ly_clusterSize l div 2"
    unfolding maxBlocks_def entriesPerBlock_def cs by (simp_all add: q_img_def assms(3) created_header_def)
  have fields: "im_bits ?s = ly_clusterBits l" "im_size ?s = vs" "im_l1 ?s = created_l1 l" "im_file ?s = hf_data f"
    "im_l1Offset ?s = ly_l1Off l" "im_refcountOffset ?s = ly_reftableOff l" "im_cache ?s = []"
    "im_fileSize ?s = length (hf_data f)"
    by (simp_all add: q_img_def assms(3) created_header_def)
  have l1: "length (created_l1 l) = ly_l1Size l" by (simp add: created_l1_def)
  have c16: "ly_clusterSize l \<le> 65536" using lf(3) power_increasing [OF assms(2), of "2::nat"] by simp
  have "ly_reftableCls l * (ly_clusterSize l div 8) * (ly_clusterSize l div 2)
      \<le> (ly_refblockCnt l + ly_clusterSize l div 8) * (ly_clusterSize l div 2)"
    using lf(23) by (intro mult_le_mono1) simp
  also have "\<dots> = ly_refblockCnt l * (ly_clusterSize l div 2) + ly_clusterSize l div 8 * (ly_clusterSize l div 2)"
    by (rule add_mult_distrib)
  also have "ly_clusterSize l div 8 * (ly_clusterSize l div 2) \<le> 8192 * 32768"
    using c16 by (intro mult_le_mono; linarith)
  finally have "ly_reftableCls l * (ly_clusterSize l div 8) * (ly_clusterSize l div 2) \<le> 2 ^ 40"
    using lf(22) c16 by simp
  then have "ly_reftableCls l * (ly_clusterSize l div 8) * (ly_clusterSize l div 2) * ly_clusterSize l \<le> 2 ^ 40 * 65536"
    using c16 by (rule mult_le_mono)
  then have "wf_geom ?s" unfolding wf_geom_def cs mb fields l1 using lf(1,2,7) by (simp add: mult.assoc)
  moreover have "wf_size (ly_clusterSize l) (created_role l) (hf_data f) (length (hf_data f))"
  proof -
    have "c * ly_clusterSize l + ly_clusterSize l \<le> ly_physMeta l * ly_clusterSize l" if "created_role l c \<noteq> RFree" for c
    proof -
      have "Suc c \<le> ly_physMeta l" using that lf(14) by (auto simp: created_role_def split: if_splits)
      then show ?thesis using mult_le_mono1 [of "Suc c" "ly_physMeta l" "ly_clusterSize l"] by simp
    qed
    then show ?thesis unfolding wf_size_def createdD(3) [OF assms(1)] by (simp add: created_role_def)
  qed
  ultimately show "img_wf (created_role l) ?s"
    unfolding img_wf_def cs mb fields using created_maps(1,2) [OF assms(1,2)] created_refs [OF assms(1)] by blast
  show "content bytes ?s g = bytes g" if "g < vs"
  proof -
    have "g < ly_l1Size l * (ly_clusterSize l div 8) * ly_clusterSize l" using that lf(7) by (simp add: mult.assoc)
    then have "g div ly_clusterSize l div (ly_clusterSize l div 8) < ly_l1Size l" by (rule div_div_less)
    then have "lookup (ly_clusterSize l) (created_l1 l) (hf_data f) (g div ly_clusterSize l) = 0"
      using created_maps(3) [OF assms(1,2), of "g div ly_clusterSize l"] by simp
    then show ?thesis unfolding content_def cs fields content_of_def by simp
  qed
qed

section \<open>Opening what was created\<close>

lemma created_sniff:
  assumes "created vs backing fmt opt l b (hf_data f)" "backing \<noteq> '''' \<longrightarrow> fmt = ''raw'' \<or> fmt = ''qcow2''"
  shows "sniff f = Ok (Some (take 112 (hf_data f), created_header l vs backing fmt, if backing = '''' then '''' else fmt))"
proof -
  have d: "112 \<le> length (hf_data f)" using createdD(9) [OF assms(1)] layout_Ok(4) [OF createdD(1) [OF assms(1)]] by simp
  have "take 4 (hf_data f) = qcow2Magic" using created_flds(1) [OF assms(1)] take_drop_fld [of 0 4 "hf_data f"] d by simp
  then show ?thesis
    using d created_parse_header [OF assms(1)] created_parse_ext [OF assms]
    by (simp add: sniff_def readN_def qcow2HeaderLen_def)
qed

text \<open>The backing image of the created image as it is opened.\<close>

definition opened_backing :: "env \<Rightarrow> path \<Rightarrow> hfile \<Rightarrow> string \<Rightarrow> string \<Rightarrow> (path \<times> gimg) option \<Rightarrow> bool" where
  "opened_backing env p f backing fmt b \<longleftrightarrow>
     (if backing = '''' then b = None
      else (fmt = ''raw'' \<or> fmt = ''qcow2'') \<and> validateBackingName backing = Ok () \<and>
        (case b of
           None \<Rightarrow> False
         | Some (real, img) \<Rightarrow>
             backingPathAllowed (e_eval env) (e_static env) (e_roots env) p (abs_backing p backing) = Ok real \<and>
             openGuestImageDepth env real 1 [hf_key f] = Ok img \<and> Format img = fmt))"

lemma open_created:
  assumes "created vs backing fmt opt l b (hf_data f)" "e_fs env p = Some f" "opened_backing env p f backing fmt bk"
  shows "openGuestImage env p =
    (if maxL1TableBytes < ly_l1Size l * 8 then Err ''L1 table cap''
     else Ok (GQcow \<lparr>qi_file = f, qi_hdr = created_header l vs backing fmt, qi_l1 = created_l1 l,
       qi_fmt = (if backing = '''' then '''' else fmt), qi_name = backing\<rparr> bk))"
proof -
  have fm: "backing \<noteq> '''' \<longrightarrow> fmt = ''raw'' \<or> fmt = ''qcow2''" using assms(3) by (simp add: opened_backing_def)
  note s = created_sniff [OF assms(1) fm]
  have fin: "finish f (created_header l vs backing fmt) fm' nm bk' =
    (if maxL1TableBytes < ly_l1Size l * 8 then Err ''L1 table cap''
     else Ok (GQcow \<lparr>qi_file = f, qi_hdr = created_header l vs backing fmt, qi_l1 = created_l1 l, qi_fmt = fm', qi_name = nm\<rparr> bk'))"
    for fm' nm bk'
    using created_load_l1 [OF assms(1)] by (simp add: finish_def)
  have sz: "h_bfSize (created_header l vs backing fmt) = length backing" by (simp add: created_header_def)
  show ?thesis
  proof (cases "backing = ''''")
    case True
    then show ?thesis
      using assms(2,3) s fin sz by (simp add: openGuestImage_def openGuestImageDepth.simps [of env p] maxBackingChainDepth_def opened_backing_def)
  next
    case False
    then obtain real img where b: "bk = Some (real, img)" "validateBackingName backing = Ok ()"
      "backingPathAllowed (e_eval env) (e_static env) (e_roots env) p (abs_backing p backing) = Ok real"
      "openGuestImageDepth env real 1 [hf_key f] = Ok img" "Format img = fmt"
      using assms(3) by (auto simp: opened_backing_def split: option.splits)
    have n: "parse_name (hf_data f) (created_header l vs backing fmt) = Ok backing"
      using created_parse_name [OF assms(1) False b(2)] .
    show ?thesis
      unfolding openGuestImage_def openGuestImageDepth.simps [of env p]
      using assms(2) s fin sz False b n by (simp add: maxBackingChainDepth_def)
  qed
qed

section \<open>Creation succeeds\<close>

lemma write_l1_all:
  assumes "\<And>n. io n"
  shows "\<exists>d'. write_l1 io l n d = (Ok (), d')"
proof (induction n)
  case (Suc n)
  then show ?case using assms by auto
qed simp

lemma create_all:
  assumes "\<And>n. io n" "0 < vs" "vs \<le> maxVirtualSize" "oo_ClusterBits opt = 0 \<or> 9 \<le> oo_ClusterBits opt \<and> oo_ClusterBits opt \<le> 21"
    "backing = '''' \<or> length backing \<le> maxBackingNameLen \<and> name_off fmt + length backing \<le>
       2 ^ (if oo_ClusterBits opt = 0 then clusterBits else oo_ClusterBits opt)"
  shows "\<exists>d. createQcow2 io vs backing fmt opt d0 = (Ok (), d)"
proof -
  from computeQcow2Layout_ok [OF assms(3,4), of "oo_PreallocMetadata opt"] obtain l where
    l: "computeQcow2Layout vs (oo_ClusterBits opt) (oo_PreallocMetadata opt) = Ok l" by metis
  have cs: "ly_clusterSize l = 2 ^ (if oo_ClusterBits opt = 0 then clusterBits else oo_ClusterBits opt)"
    using layout_Ok(3,24) [OF l] by simp
  have "\<exists>b'. put_names (ly_clusterSize l) backing fmt b = Ok b'" for b
    using assms(5) unfolding cs by (auto simp: put_names_def Let_def name_off_def)
  then obtain buf where "create_buf vs backing fmt opt = Ok (l, buf)"
    using l assms(2) by (fastforce simp: create_buf_def Let_def)
  moreover obtain d1 where "write_l1 io l (ly_l1Clusters l) (truncate_to (ly_l1Off l) buf) = (Ok (), d1)"
    using write_l1_all [of io] assms(1) by blast
  ultimately show ?thesis using assms(1) by (simp add: createQcow2_def write_image_def)
qed

lemma l1_over_cap:
  assumes "2 ^ 23 * u < vs" "vs \<le> ly_l1Size l * u"
  shows "maxL1TableBytes < ly_l1Size l * 8"
proof -
  have "2 ^ 23 * u < ly_l1Size l * u" using assms by linarith
  then have "2 ^ 23 < ly_l1Size l" by (simp only: mult_less_cancel2)
  then show ?thesis by (simp add: maxL1TableBytes_def)
qed

text \<open>Created, then opened for writing.\<close>

lemma created_writable:
  assumes "createQcow2 io vs backing fmt opt d0 = (Ok (), hf_data f)" "e_fs env p = Some f"
    "opened_backing env p f backing fmt b"
    "bits = (if oo_ClusterBits opt = 0 then clusterBits else oo_ClusterBits opt)" "bits \<le> 16"
    "vs \<le> 2 ^ 23 * (2 ^ bits div 8 * 2 ^ bits)"
  shows "\<exists>s role. OpenWritable env (e_fs env) io' p = Ok (BQcow s) \<and> img_wf role s \<and> im_size s = vs \<and> im_bits s = bits \<and>
    im_backing s = map_option (reader \<circ> snd) b \<and> (\<forall>bytes. \<forall>g < vs. content bytes s g = bytes g)"
proof -
  obtain l bf where c: "created vs backing fmt opt l bf (hf_data f)" by (rule createQcow2_created [OF assms(1)])
  note lf = layout_Ok [OF createdD(1) [OF c]]
  have "ly_l1Size l \<le> 2 ^ 23"
    unfolding lf(19) using assms(6) lf(3,4,24) by (intro ceil_div_le) (simp_all add: assms(4))
  moreover define q where "q = \<lparr>qi_file = f, qi_hdr = created_header l vs backing fmt, qi_l1 = created_l1 l,
       qi_fmt = (if backing = '''' then '''' else fmt), qi_name = backing\<rparr>"
  ultimately have o: "openGuestImage env p = Ok (GQcow q b)"
    using open_created [OF c assms(2,3)] by (simp add: maxL1TableBytes_def)
  have "112 \<le> length (hf_data f)" using createdD(9) [OF c] lf(4) by simp
  then have "isQcow2 env p"
    using assms(2) created_flds(1) [OF c] take_drop_fld [of 0 4 "hf_data f"] by (simp add: isQcow2_def)
  then have w: "OpenWritable env (e_fs env) io' p = Ok (BQcow (q_img io' q (map_option (reader \<circ> snd) b)))"
    using o assms(2) by (simp add: OpenWritable_def q_def)
  have bits: "ly_clusterBits l \<le> 16" using lf(24) assms(4,5) by simp
  note cw = created_wf [OF c bits q_def, where io = io' and bk = "map_option (reader \<circ> snd) b"]
  have "im_size (q_img io' q (map_option (reader \<circ> snd) b)) = vs" "im_bits (q_img io' q (map_option (reader \<circ> snd) b)) = bits"
    "im_backing (q_img io' q (map_option (reader \<circ> snd) b)) = map_option (reader \<circ> snd) b"
    using lf(24) assms(4) by (simp_all add: q_img_def q_def created_header_def)
  then show ?thesis using w cw by blast
qed

section \<open>Properties\<close>

text \<open>An overlay at \<^verbatim>\<open>/i/o\<close> on a raw image at \<^verbatim>\<open>/i/b\<close>, for the witnesses.\<close>

definition demo_base :: hfile where
  "demo_base = \<lparr>hf_data = [1, 2, 3, 4], hf_key = (0, 1), hf_mode = 0\<rparr>"

definition demo_file :: "u8 list \<Rightarrow> hfile" where
  "demo_file d = \<lparr>hf_data = d, hf_key = (0, 2), hf_mode = 0\<rparr>"

definition demo_env :: "u8 list \<Rightarrow> env" where
  "demo_env d =
     \<lparr>e_fs = (\<lambda>p. if p = [''i'', ''o''] then Some (demo_file d) else if p = [''i'', ''b''] then Some demo_base else None),
      e_eval = (\<lambda>s. if s = ''/i/b'' then Some [''i'', ''b''] else if s = ''/i'' then Some [''i''] else None),
      e_static = [], e_roots = \<lparr>rt_dyn = [], rt_ovl = []\<rparr>\<rparr>"

definition demo_opt :: OverlayOpt where
  "demo_opt = \<lparr>oo_ClusterBits = 9, oo_PreallocMetadata = True\<rparr>"

lemma demo_backing:
  "opened_backing (demo_env d) [''i'', ''o''] (demo_file d) ''/i/b'' ''raw'' (Some ([''i'', ''b''], GRaw demo_base))"
proof -
  have v: "validateBackingName ''/i/b'' = Ok ()"
    by (simp add: validateBackingName_def validatePath_def ContainsAny_def HasPrefix_def forbidden_prefixes_def ToLower_def)
  have a: "abs_backing [''i'', ''o''] ''/i/b'' = ''/i/b''" by (simp add: abs_backing_def IsAbs_def HasPrefix_def)
  have r: "backingPathAllowed (e_eval (demo_env d)) (e_static (demo_env d)) (e_roots (demo_env d)) [''i'', ''o''] ''/i/b'' = Ok [''i'', ''b'']"
    by (simp add: backingPathAllowed_def demo_env_def Dir_def path_str_def withinSubtree_def Let_def)
  have s: "sniff demo_base = Ok None" by (simp add: sniff_def demo_base_def readN_def qcow2Magic_def)
  have "openGuestImageDepth (demo_env d) [''i'', ''b''] 1 [hf_key (demo_file d)] = Ok (GRaw demo_base)"
    using s by (subst openGuestImageDepth.simps)
      (simp add: maxBackingChainDepth_def demo_env_def demo_file_def demo_base_def)
  then show ?thesis using v a r by (simp add: opened_backing_def)
qed

lemma demo_created: "\<exists>d. createQcow2 (\<lambda>n. True) 32768 ''/i/b'' ''raw'' demo_opt [] = (Ok (), d)"
  by (rule create_all) (simp_all add: maxVirtualSize_def demo_opt_def maxBackingNameLen_def name_off_def qcow2HeaderLen_def roundUp8_def)

lemma demo_fs: "e_fs (demo_env d) [''i'', ''o''] = Some (demo_file d)" "hf_data (demo_file d) = d"
  by (simp_all add: demo_env_def demo_file_def)

text \<open>
  C33: Opening an image never panics, whatever the bytes of the files and wherever their backing names
  lead: no header makes a slice expression or a big-endian read of the parser run out of bounds.\<close>

theorem openGuestImage_no_panic: "openGuestImage env p \<noteq> Panic"
  unfolding openGuestImage_def by (rule openGuestImageDepth_no_panic)

text \<open>
  C13: Every chain that opens is finite, acyclic and confined: at most 33 files, no file twice (by device
  and inode), every backing file below the real path of an allowed root of the image that names it,
  every declared backing format the real one, and every L1 table covers its image's virtual size.\<close>

theorem openGuestImage_chain:
  assumes "\<forall>c r. e_eval env c = Some r \<longrightarrow> clean_path r" "openGuestImage env p = Ok img"
  shows "chain_ok env p img \<and> distinct (map hf_key (chain_files img)) \<and>
    length (chain_files img) \<le> Suc maxBackingChainDepth"
  using openGuestImageDepth_chain [OF assms(1) assms(2) [unfolded openGuestImage_def]] by simp

theorem openGuestImage_chain_witness:
  "\<exists>d q. openGuestImage (demo_env d) [''i'', ''o''] = Ok (GQcow q (Some ([''i'', ''b''], GRaw demo_base))) \<and>
     chain_ok (demo_env d) [''i'', ''o''] (GQcow q (Some ([''i'', ''b''], GRaw demo_base)))"
proof -
  obtain d where d: "createQcow2 (\<lambda>n. True) 32768 ''/i/b'' ''raw'' demo_opt [] = (Ok (), d)" using demo_created by blast
  obtain l b where c: "created 32768 ''/i/b'' ''raw'' demo_opt l b d" by (rule createQcow2_created [OF d])
  have "ly_l1Size l = 1"
    using layout_Ok(3,19,24) [OF createdD(1) [OF c]] by (simp add: demo_opt_def ceil_div_def)
  then obtain q where o: "openGuestImage (demo_env d) [''i'', ''o''] = Ok (GQcow q (Some ([''i'', ''b''], GRaw demo_base)))"
    using open_created [OF _ demo_fs(1) demo_backing, of 32768 demo_opt l b d] c
    by (simp add: demo_fs maxL1TableBytes_def)
  have "\<forall>c r. e_eval (demo_env d) c = Some r \<longrightarrow> clean_path r" by (simp add: demo_env_def clean_path_def)
  from openGuestImage_chain [OF this o] o show ?thesis by blast
qed

text \<open>
  C34: Creation succeeds whenever it can: with a size of 1 byte up to 16 TiB, a cluster size of the qcow2
  range, a backing name that fits the header cluster and no failing file operation, an image is
  written.\<close>

theorem createQcow2_succeeds:
  assumes "\<forall>n. io n" "0 < vs" "vs \<le> maxVirtualSize"
    "oo_ClusterBits opt = 0 \<or> 9 \<le> oo_ClusterBits opt \<and> oo_ClusterBits opt \<le> 21"
    "backing = '''' \<or> length backing \<le> maxBackingNameLen \<and> name_off fmt + length backing \<le>
       2 ^ (if oo_ClusterBits opt = 0 then clusterBits else oo_ClusterBits opt)"
  shows "\<exists>d. createQcow2 io vs backing fmt opt d0 = (Ok (), d)"
  by (rule create_all [OF _ assms(2-5)]) (use assms(1) in blast)

theorem createQcow2_succeeds_witness:
  "\<exists>d. createQcow2 (\<lambda>n. True) 1000 '''' '''' defaultOverlayOpt [7] = (Ok (), d)"
  by (rule createQcow2_succeeds) (simp_all add: maxVirtualSize_def defaultOverlayOpt_def clusterBits_def)

text \<open>
  C14: Create and open round trip: an image that was created opens again (its L1 table being within the
  cap of the reader and its backing image opening) with the virtual size, cluster size, backing
  name and backing format it was created with.\<close>

theorem create_open_roundtrip:
  assumes "createQcow2 io vs backing fmt opt d0 = (Ok (), hf_data f)" "e_fs env p = Some f"
    "opened_backing env p f backing fmt b"
    "bits = (if oo_ClusterBits opt = 0 then clusterBits else oo_ClusterBits opt)"
    "vs \<le> 2 ^ 23 * (2 ^ bits div 8 * 2 ^ bits)"
  shows "\<exists>q. openGuestImage env p = Ok (GQcow q b) \<and> qi_file q = f \<and> h_size (qi_hdr q) = vs \<and>
    h_bits (qi_hdr q) = bits \<and> qi_name q = backing \<and> qi_fmt q = (if backing = '''' then '''' else fmt)"
proof -
  obtain l bf where c: "created vs backing fmt opt l bf (hf_data f)" by (rule createQcow2_created [OF assms(1)])
  note lf = layout_Ok [OF createdD(1) [OF c]]
  have "ly_l1Size l \<le> 2 ^ 23"
    unfolding lf(19) using assms(5) lf(3,4,24) by (intro ceil_div_le) (simp_all add: assms(4))
  then show ?thesis
    using open_created [OF c assms(2,3)] lf(24)
    by (auto simp: maxL1TableBytes_def created_header_def assms(4))
qed

theorem create_open_roundtrip_witness:
  "\<exists>d q. openGuestImage (demo_env d) [''i'', ''o''] = Ok (GQcow q (Some ([''i'', ''b''], GRaw demo_base))) \<and>
     h_size (qi_hdr q) = 32768 \<and> qi_name q = ''/i/b'' \<and> qi_fmt q = ''raw''"
proof -
  obtain d where d: "createQcow2 (\<lambda>n. True) 32768 ''/i/b'' ''raw'' demo_opt [] = (Ok (), hf_data (demo_file d))"
    using demo_created by (auto simp: demo_fs)
  from create_open_roundtrip [OF d demo_fs(1) demo_backing refl] show ?thesis by (auto simp: demo_opt_def)
qed

text \<open>
  C3: A created image is a usable disk: opened for writing, it satisfies the invariant that reads and
  writes rely on and preserve, and before the first write the guest sees the backing image's bytes
  (zeros without one) over the whole virtual size. Clusters of up to 64 KiB.\<close>

theorem created_disk:
  assumes "createQcow2 io vs backing fmt opt d0 = (Ok (), hf_data f)" "e_fs env p = Some f"
    "opened_backing env p f backing fmt b"
    "bits = (if oo_ClusterBits opt = 0 then clusterBits else oo_ClusterBits opt)" "bits \<le> 16"
    "vs \<le> 2 ^ 23 * (2 ^ bits div 8 * 2 ^ bits)"
  shows "\<exists>s role. OpenWritable env (e_fs env) io' p = Ok (BQcow s) \<and> img_wf role s \<and> im_size s = vs \<and>
    im_backing s = map_option (reader \<circ> snd) b \<and> (\<forall>bytes. \<forall>g < vs. content bytes s g = bytes g)"
  using created_writable [OF assms] by blast

theorem created_disk_witness:
  "\<exists>d s role. OpenWritable (demo_env d) (e_fs (demo_env d)) (\<lambda>n. True) [''i'', ''o''] = Ok (BQcow s) \<and> img_wf role s \<and>
     im_backing s = Some (raw_ReadAt [1, 2, 3, 4]) \<and> content (fb [1, 2, 3, 4]) s 2 = 3"
proof -
  obtain d where d: "createQcow2 (\<lambda>n. True) 32768 ''/i/b'' ''raw'' demo_opt [] = (Ok (), hf_data (demo_file d))"
    using demo_created by (auto simp: demo_fs)
  have b: "(if oo_ClusterBits demo_opt = 0 then clusterBits else oo_ClusterBits demo_opt) = 9" by (simp add: demo_opt_def)
  obtain s role where s: "OpenWritable (demo_env d) (e_fs (demo_env d)) (\<lambda>n. True) [''i'', ''o''] = Ok (BQcow s)"
    "img_wf role s" "im_backing s = map_option (reader \<circ> snd) (Some ([''i'', ''b''], GRaw demo_base))"
    "\<forall>bytes. \<forall>g < 32768. content bytes s g = bytes g"
    using created_disk [OF d demo_fs(1) demo_backing b [symmetric], of "\<lambda>n. True"] by auto
  have "content (fb [1, 2, 3, 4]) s 2 = 3" using s(4) by (simp add: fb_def)
  then show ?thesis using s(1-3) by (auto simp: demo_base_def)
qed

text \<open>
  C35: Creation accepts sizes the reader refuses: when the L1 table is larger than 64 MiB the created
  image cannot be opened. Small clusters get there below the 16 TiB cap of the size.\<close>

theorem created_not_openable:
  assumes "createQcow2 io vs '''' fmt opt d0 = (Ok (), hf_data f)" "e_fs env p = Some f"
    "bits = (if oo_ClusterBits opt = 0 then clusterBits else oo_ClusterBits opt)"
    "2 ^ 23 * (2 ^ bits div 8 * 2 ^ bits) < vs"
  shows "openGuestImage env p = Err ''L1 table cap''"
proof -
  obtain l bf where c: "created vs '''' fmt opt l bf (hf_data f)" by (rule createQcow2_created [OF assms(1)])
  note lf = layout_Ok [OF createdD(1) [OF c]]
  have "vs \<le> ly_l1Size l * (2 ^ bits div 8 * 2 ^ bits)" using lf(3,7,24) by (simp add: assms(3))
  then have "maxL1TableBytes < ly_l1Size l * 8" by (rule l1_over_cap [OF assms(4)])
  moreover have "opened_backing env p f '''' fmt None" by (simp add: opened_backing_def)
  ultimately show ?thesis using open_created [OF c assms(2)] by simp
qed

theorem created_not_openable_witness:
  "\<exists>d. createQcow2 (\<lambda>n. True) (2 ^ 39) '''' '''' demo_opt [] = (Ok (), d) \<and>
     openGuestImage (demo_env d) [''i'', ''o''] = Err ''L1 table cap''"
proof -
  have "\<exists>d. createQcow2 (\<lambda>n. True) (2 ^ 39) '''' '''' demo_opt [] = (Ok (), d)"
    by (rule create_all) (simp_all add: maxVirtualSize_def demo_opt_def)
  then obtain d where d: "createQcow2 (\<lambda>n. True) (2 ^ 39) '''' '''' demo_opt [] = (Ok (), hf_data (demo_file d))"
    by (auto simp: demo_fs)
  have "(9::nat) = (if oo_ClusterBits demo_opt = 0 then clusterBits else oo_ClusterBits demo_opt)" by (simp add: demo_opt_def)
  from created_not_openable [OF d demo_fs(1) this] d show ?thesis by (auto simp: demo_fs)
qed

end
