(* ===== verification/Qcow2Meta.thy ===== *)
theory Qcow2Meta
  imports Qcow2Image
begin

text \<open>
  Metadata ranges of a qcow2 image and the check of host data offsets
  (\<^verbatim>\<open>metadataRanges\<close>, \<^verbatim>\<open>validateHostData\<close>), and the word-wise zero test
  (\<^verbatim>\<open>allZero\<close>), all in \<^verbatim>\<open>internal/cow/qcow2.go\<close>. The check answers with one binary search over
  sorted and merged ranges what a scan of all ranges would answer. The ranges are computed on every
  call here; the code keeps the first result, and asks only for images it does not write.
\<close>

unbundle bit_operations_syntax

section \<open>Ranges\<close>

type_synonym hostRange = "nat \<times> nat"

definition maxRefcountTableBytes :: nat where
  "maxRefcountTableBytes = 2 ^ 22"

text \<open>The merge loop; the accumulator holds the merged ranges, last first.\<close>

primrec merge_ranges :: "hostRange list \<Rightarrow> hostRange list \<Rightarrow> hostRange list" where
  "merge_ranges acc [] = rev acc"
| "merge_ranges acc (r # rs) =
     (case acc of
        [] \<Rightarrow> merge_ranges [r] rs
      | m # ms \<Rightarrow>
          if fst r \<le> snd m
          then merge_ranges ((if snd r > snd m then (fst m, snd r) else m) # ms) rs
          else merge_ranges (r # m # ms) rs)"

definition sort_merge :: "hostRange list \<Rightarrow> hostRange list" where
  "sort_merge rs = merge_ranges [] (sort_key fst rs)"

text \<open>The ranges before sorting: header, L1 table, L2 tables, then refcount table and blocks.\<close>

definition l2_ranges :: "Img \<Rightarrow> hostRange list" where
  "l2_ranges s = map (\<lambda>e. (e_off e, e_off e + im_cs s)) (filter (\<lambda>e. e_off e \<noteq> 0) (im_l1 s))"

definition base_ranges :: "Img \<Rightarrow> hostRange list" where
  "base_ranges s =
     [(0, im_cs s)] @
     (if 0 < length (im_l1 s) then [(im_l1Offset s, im_l1Offset s + length (im_l1 s) * 8)] else []) @
     l2_ranges s"

definition block_ranges :: "Img \<Rightarrow> u8 list \<Rightarrow> hostRange list" where
  "block_ranges s buf =
     map (\<lambda>c. (c, c + im_cs s))
       (filter (\<lambda>c. c \<noteq> 0 \<and> c + im_cs s \<le> im_fileSize s)
         (map (\<lambda>i. be_get (take 8 (drop (8 * i) buf)) AND l1eOffsetMask) [0..<length buf div 8]))"

definition ref_ranges :: "hostRange list qm" where
  "ref_ranges s =
     (if im_refcountOffset s \<noteq> 0 \<and> 0 < im_refcountClusters s
      then let tblLen = im_refcountClusters s * im_cs s;
               tblEnd = im_refcountOffset s + tblLen
           in if 2 ^ 64 \<le> tblEnd \<or> im_fileSize s < tblEnd then (Inl ''refcount table exceeds file'', s)
              else if maxRefcountTableBytes < tblLen then (Inl ''refcount table cap'', s)
              else qbind (host_read (im_refcountOffset s) tblLen) (\<lambda>buf.
                     qret ((im_refcountOffset s, tblEnd) # block_ranges s buf)) s
      else (Inr [], s))"

definition metadataRanges :: "hostRange list qm" where
  "metadataRanges s = qbind ref_ranges (\<lambda>rs. qret (sort_merge (base_ranges s @ rs))) s"

section \<open>The check\<close>

text \<open>\<^verbatim>\<open>sort.Search\<close>: the least index in \<open>[i, j)\<close> at which a monotone predicate holds.\<close>

function search :: "(nat \<Rightarrow> bool) \<Rightarrow> nat \<Rightarrow> nat \<Rightarrow> nat" where
  "search f i j =
     (if i < j
      then let h = (i + j) div 2 in if \<not> f h then search f (h + 1) j else search f i h
      else i)"
  by pat_completeness auto
termination
  by (relation "measure (\<lambda>(f, i, j). j - i)") auto

declare search.simps [simp del]

definition validateHostData :: "nat \<Rightarrow> nat \<Rightarrow> unit qm" where
  "validateHostData off n s =
     (if off mod im_cs s \<noteq> 0 then (Inl ''not cluster-aligned'', s)
      else if 2 ^ 64 \<le> off + n \<or> im_fileSize s < off + n then (Inl ''exceeds file size'', s)
      else qbind metadataRanges (\<lambda>ranges.
             let i = search (\<lambda>i. snd (ranges ! i) > off) 0 (length ranges)
             in if i < length ranges \<and> off < snd (ranges ! i) \<and> fst (ranges ! i) < off + n
                then qfail ''overlaps image metadata'' else qret ()) s)"

text \<open>The reference: no range shares a byte with the request.\<close>

definition overlaps :: "nat \<Rightarrow> nat \<Rightarrow> hostRange \<Rightarrow> bool" where
  "overlaps off n r \<longleftrightarrow> (\<exists>x. off \<le> x \<and> x < off + n \<and> fst r \<le> x \<and> x < snd r)"

lemma overlaps_iff: "0 < n \<Longrightarrow> fst r < snd r \<Longrightarrow> overlaps off n r \<longleftrightarrow> off < snd r \<and> fst r < off + n"
  unfolding overlaps_def
proof
  assume a: "0 < n" "fst r < snd r" "off < snd r \<and> fst r < off + n"
  then show "\<exists>x. off \<le> x \<and> x < off + n \<and> fst r \<le> x \<and> x < snd r" by (intro exI [of _ "max off (fst r)"]) auto
qed auto

section \<open>Merging\<close>

text \<open>Strictly increasing in both ends, with gaps between the ranges.\<close>

definition separated :: "hostRange list \<Rightarrow> bool" where
  "separated rs \<longleftrightarrow> (\<forall>r \<in> set rs. fst r < snd r) \<and> sorted_wrt (\<lambda>a b. snd a < fst b) rs"

definition covered :: "hostRange list \<Rightarrow> nat set" where
  "covered rs = (\<Union>r \<in> set rs. {fst r..<snd r})"

lemma in_covered: "x \<in> covered rs \<longleftrightarrow> (\<exists>r \<in> set rs. fst r \<le> x \<and> x < snd r)"
  by (simp add: covered_def)

lemma overlaps_covered: "(\<exists>r \<in> set rs. overlaps off n r) \<longleftrightarrow> {off..<off + n} \<inter> covered rs \<noteq> {}"
  unfolding overlaps_def disjoint_iff in_covered atLeastLessThan_iff by blast

lemma merge_ranges_ok:
  assumes "separated (rev acc)" "\<forall>r \<in> set rs. fst r < snd r" "sorted (map fst rs)"
    "\<forall>m \<in> set acc. \<forall>r \<in> set rs. fst m \<le> fst r"
  shows "separated (merge_ranges acc rs) \<and> covered (merge_ranges acc rs) = covered acc \<union> covered rs"
  using assms
proof (induction rs arbitrary: acc)
  case Nil
  then show ?case by (simp add: covered_def)
next
  case (Cons r rs)
  show ?case
  proof (cases acc)
    case Nil
    have "separated (merge_ranges [r] rs) \<and> covered (merge_ranges [r] rs) = covered [r] \<union> covered rs"
      using Cons.prems by (intro Cons.IH) (auto simp: separated_def)
    then show ?thesis using Nil by (auto simp: covered_def)
  next
    case (Cons m ms)
    have sep: "separated (rev ms @ [m])" using Cons.prems(1) Cons by simp
    then have ms: "\<forall>a \<in> set ms. snd a < fst m" "fst m < snd m" by (auto simp: separated_def sorted_wrt_append)
    have le: "fst m \<le> fst r" "fst r < snd r" using Cons.prems(2,4) Cons by auto
    show ?thesis
    proof (cases "fst r \<le> snd m")
      case True
      let ?m = "if snd r > snd m then (fst m, snd r) else m"
      have "separated (rev (?m # ms))" using sep le ms True by (auto simp: separated_def sorted_wrt_append)
      moreover have "\<forall>a \<in> set (?m # ms). \<forall>b \<in> set rs. fst a \<le> fst b" using Cons.prems(4) Cons by auto
      ultimately have "separated (merge_ranges (?m # ms) rs) \<and>
          covered (merge_ranges (?m # ms) rs) = covered (?m # ms) \<union> covered rs"
        using Cons.prems(2,3) by (intro Cons.IH) auto
      moreover have "{fst ?m..<snd ?m} = {fst m..<snd m} \<union> {fst r..<snd r}" using True le by auto
      ultimately show ?thesis using Cons True by (auto simp: covered_def)
    next
      case False
      have "separated (rev (r # m # ms))" using sep le ms False by (auto simp: separated_def sorted_wrt_append)
      moreover have "\<forall>a \<in> set (r # m # ms). \<forall>b \<in> set rs. fst a \<le> fst b" using Cons.prems(3,4) Cons by auto
      ultimately have "separated (merge_ranges (r # m # ms) rs) \<and>
          covered (merge_ranges (r # m # ms) rs) = covered (r # m # ms) \<union> covered rs"
        using Cons.prems(2,3) by (intro Cons.IH) auto
      then show ?thesis using Cons False by (auto simp: covered_def)
    qed
  qed
qed

lemma sort_merge_ok:
  assumes "\<forall>r \<in> set rs. fst r < snd r"
  shows "separated (sort_merge rs)" "covered (sort_merge rs) = covered rs"
proof -
  have "separated (merge_ranges [] (sort_key fst rs)) \<and>
      covered (merge_ranges [] (sort_key fst rs)) = covered [] \<union> covered (sort_key fst rs)"
    using assms by (intro merge_ranges_ok) (auto simp: separated_def)
  then show "separated (sort_merge rs)" "covered (sort_merge rs) = covered rs"
    by (simp_all add: sort_merge_def covered_def)
qed

lemma search_ok:
  assumes "i \<le> j" "\<And>a b. a \<le> b \<Longrightarrow> b < j \<Longrightarrow> f a \<Longrightarrow> f b"
  shows "i \<le> search f i j \<and> search f i j \<le> j \<and> (\<forall>k. i \<le> k \<and> k < search f i j \<longrightarrow> \<not> f k) \<and>
    (search f i j < j \<longrightarrow> f (search f i j))"
  using assms
proof (induction f i j rule: search.induct)
  case (1 f i j)
  show ?case
  proof (cases "i < j")
    case True
    define h where "h = (i + j) div 2"
    have h: "i \<le> h" "h < j" using True by (auto simp: h_def)
    show ?thesis
    proof (cases "f h")
      case False
      have ih: "h + 1 \<le> search f (h + 1) j \<and> search f (h + 1) j \<le> j \<and>
          (\<forall>k. h + 1 \<le> k \<and> k < search f (h + 1) j \<longrightarrow> \<not> f k) \<and> (search f (h + 1) j < j \<longrightarrow> f (search f (h + 1) j))"
        using h "1.prems"(2) by (intro "1.IH"(1) [OF True h_def False]) auto
      have "\<not> f k" if "i \<le> k" "k < search f (h + 1) j" for k
      proof (cases "k \<le> h")
        case True
        then show ?thesis using "1.prems"(2) [of k h] h False by blast
      qed (use ih that in auto)
      then show ?thesis using ih h True False by (simp add: search.simps [of f i j] h_def Let_def)
    next
      case ft: True
      have ih: "i \<le> search f i h \<and> search f i h \<le> h \<and> (\<forall>k. i \<le> k \<and> k < search f i h \<longrightarrow> \<not> f k) \<and>
          (search f i h < h \<longrightarrow> f (search f i h))"
        using h "1.prems"(2) ft by (intro "1.IH"(2) [OF True h_def]) auto
      have "f (search f i h)" using ih ft by (cases "search f i h = h") auto
      then show ?thesis using ih h True ft by (auto simp: search.simps [of f i j] h_def Let_def)
    qed
  next
    case False
    then have "search f i j = i" by (simp add: search.simps [of f i j])
    then show ?thesis using "1.prems"(1) False by auto
  qed
qed

text \<open>On separated ranges the one candidate the search finds decides.\<close>

lemma search_decides:
  fixes off :: nat
  assumes "separated rs" "0 < n"
  defines "i \<equiv> search (\<lambda>i. snd (rs ! i) > off) 0 (length rs)"
  shows "(i < length rs \<and> off < snd (rs ! i) \<and> fst (rs ! i) < off + n) \<longleftrightarrow> (\<exists>r \<in> set rs. overlaps off n r)"
proof -
  have lt: "snd (rs ! a) < fst (rs ! b)" "fst (rs ! b) < snd (rs ! b)" if "a < b" "b < length rs" for a b
    using assms(1) that sorted_wrt_nth_less [of "\<lambda>a b. snd a < fst b" rs a b] by (auto simp: separated_def)
  have inc: "snd (rs ! a) \<le> snd (rs ! b)" if "a \<le> b" "b < length rs" for a b
    using lt [of a b] that by (cases "a = b") auto
  have mono: "off < snd (rs ! b)" if "a \<le> b" "b < length rs" "off < snd (rs ! a)" for a b
    using inc [OF that(1,2)] that(3) by simp
  have so: "i \<le> length rs" "\<forall>k<i. \<not> off < snd (rs ! k)" "i < length rs \<Longrightarrow> off < snd (rs ! i)"
    using search_ok [of 0 "length rs" "\<lambda>i. snd (rs ! i) > off", OF _ mono, folded i_def] by simp_all
  show ?thesis
  proof
    assume "i < length rs \<and> off < snd (rs ! i) \<and> fst (rs ! i) < off + n"
    moreover from this have "fst (rs ! i) < snd (rs ! i)" using assms(1) by (simp add: separated_def)
    ultimately show "\<exists>r \<in> set rs. overlaps off n r"
      using overlaps_iff [OF assms(2), of "rs ! i"] by (metis nth_mem)
  next
    assume "\<exists>r \<in> set rs. overlaps off n r"
    then obtain k where k: "k < length rs" "overlaps off n (rs ! k)" by (metis in_set_conv_nth)
    then have o: "off < snd (rs ! k)" "fst (rs ! k) < off + n" by (auto simp: overlaps_def)
    have ik: "i \<le> k" using so(2) o(1) by (meson not_le)
    have "fst (rs ! i) < snd (rs ! i)" using assms(1) ik k(1) by (simp add: separated_def)
    then have "fst (rs ! i) \<le> fst (rs ! k)" using lt(1) [of i k] ik k(1) by (cases "i = k") auto
    then show "i < length rs \<and> off < snd (rs ! i) \<and> fst (rs ! i) < off + n" using ik k(1) o so(3) by auto
  qed
qed

section \<open>Zero detection\<close>

text \<open>\<^verbatim>\<open>allZero\<close>: eight bytes at a time, then the tail.\<close>

definition allZero :: "u8 list \<Rightarrow> bool" where
  "allZero b =
     (let n = length b div 8
      in list_all (\<lambda>i. be_get (take 8 (drop (i * 8) b)) = 0) [0..<n] \<and> list_all (\<lambda>v. v = 0) (drop (n * 8) b))"

lemma le_get_zero: "le_get bs = 0 \<longleftrightarrow> (\<forall>v \<in> set bs. v = 0)"
  by (induction bs) (auto simp: unat_eq_0)

lemma be_get_zero: "be_get bs = 0 \<longleftrightarrow> (\<forall>v \<in> set bs. v = 0)"
  by (simp add: be_get_def le_get_zero)

lemma chunk_nth:
  assumes "k < length b" "k < length b div 8 * 8"
  shows "b ! k \<in> set (take 8 (drop (k div 8 * 8) b))"
proof -
  have "take 8 (drop (k div 8 * 8) b) ! (k mod 8) = b ! k" using assms by simp
  moreover have "k div 8 * 8 + k mod 8 < length b" "k mod 8 < 8" using assms(1) by simp_all
  then have "k mod 8 < length (take 8 (drop (k div 8 * 8) b))" unfolding length_take length_drop by linarith
  ultimately show ?thesis by (metis nth_mem)
qed

lemma allZero_bytes: "allZero b \<longleftrightarrow> (\<forall>v \<in> set b. v = 0)"
proof
  assume a: "allZero b"
  show "\<forall>v \<in> set b. v = 0"
  proof
    fix v assume "v \<in> set b"
    then obtain k where k: "k < length b" "b ! k = v" by (auto simp: in_set_conv_nth)
    show "v = 0"
    proof (cases "k < length b div 8 * 8")
      case True
      then have "k div 8 < length b div 8" by (simp add: less_mult_imp_div_less)
      then have "be_get (take 8 (drop (k div 8 * 8) b)) = 0" using a by (simp add: allZero_def Let_def list_all_iff)
      then show ?thesis using chunk_nth [OF k(1) True] k(2) by (simp add: be_get_zero)
    next
      case False
      then have "v \<in> set (drop (length b div 8 * 8) b)"
        using k by (auto simp: in_set_conv_nth intro!: exI [of _ "k - length b div 8 * 8"])
      then show ?thesis using a by (auto simp: allZero_def Let_def list_all_iff)
    qed
  qed
next
  assume "\<forall>v \<in> set b. v = 0"
  then show "allZero b"
    by (auto simp: allZero_def Let_def list_all_iff be_get_zero dest!: in_set_takeD in_set_dropD)
qed

section \<open>Properties\<close>

text \<open>
  The host offset check is exact. For a request of at least one byte, \<^verbatim>\<open>validateHostData\<close>
  accepts it exactly when it is cluster aligned, inside the file without wrapping, the refcount table
  could be read, and no byte of it lies in any metadata range: header cluster, L1 table, an L2 table, the
  refcount table or a refcount block. The binary search over the merged ranges misses none of them.\<close>

theorem validateHostData_exact:
  assumes "0 < n" "validateHostData off n s = (r, s')"
  shows "r = Inr () \<longleftrightarrow>
    im_cs s dvd off \<and> off + n < 2 ^ 64 \<and> off + n \<le> im_fileSize s \<and>
    (\<exists>rs. fst (ref_ranges s) = Inr rs \<and> (\<forall>m \<in> set (base_ranges s @ rs). \<not> overlaps off n m))"
proof (cases "im_cs s dvd off \<and> off + n < 2 ^ 64 \<and> off + n \<le> im_fileSize s")
  case False
  then show ?thesis using assms(2) by (auto simp: validateHostData_def dvd_eq_mod_eq_0 split: if_splits)
next
  case True
  obtain rr s1 where rf: "ref_ranges s = (rr, s1)" by (cases "ref_ranges s")
  have guard: "\<not> (2 ^ 64 \<le> off + n \<or> im_fileSize s < off + n)" "off mod im_cs s = 0" using True by auto
  show ?thesis
  proof (cases rr)
    case (Inl e)
    then have "r = Inl e" using assms(2) guard rf
      by (simp add: validateHostData_def metadataRanges_def qbind_def)
    then show ?thesis using rf Inl by simp
  next
    case (Inr rs)
    let ?m = "sort_merge (base_ranges s @ rs)"
    have pos: "\<forall>m \<in> set (base_ranges s @ rs). fst m < snd m"
    proof -
      have cs: "0 < im_cs s" by (simp add: im_cs_def)
      have "\<forall>m \<in> set rs. fst m < snd m"
        using rf Inr cs
        by (auto simp: ref_ranges_def block_ranges_def Let_def qbind_def qret_def split: if_splits prod.splits sum.splits)
      then show ?thesis using cs by (auto simp: base_ranges_def l2_ranges_def)
    qed
    have run: "r = (let i = search (\<lambda>i. snd (?m ! i) > off) 0 (length ?m)
        in if i < length ?m \<and> off < snd (?m ! i) \<and> fst (?m ! i) < off + n
           then Inl ''overlaps image metadata'' else Inr ())"
      using assms(2) guard rf Inr
      by (auto simp: validateHostData_def metadataRanges_def qbind_def qret_def qfail_def Let_def
          split: if_splits)
    have "r = Inr () \<longleftrightarrow> \<not> (\<exists>m \<in> set ?m. overlaps off n m)"
      unfolding run using search_decides [OF sort_merge_ok(1) [OF pos] assms(1), of off] by (auto simp: Let_def)
    also have "\<dots> \<longleftrightarrow> (\<forall>m \<in> set (base_ranges s @ rs). \<not> overlaps off n m)"
      unfolding overlaps_covered sort_merge_ok(2) [OF pos]
      using overlaps_covered [of "base_ranges s @ rs" off n] by blast
    finally show ?thesis using True rf Inr by simp
  qed
qed

definition meta_img :: Img where
  "meta_img = \<lparr>im_file = [], im_ops = 0, im_io = (\<lambda>n. True), im_size = 32768, im_l1Offset = 512,
     im_refcountOffset = 0, im_refcountClusters = 0, im_bits = 9, im_fileSize = 2048, im_l1 = [1536],
     im_cache = [], im_cacheBytes = 0, im_backing = None\<rparr>"

theorem validateHostData_exact_witness:
  "fst (validateHostData 1024 512 meta_img) = Inr () \<and> fst (validateHostData 1536 512 meta_img) \<noteq> Inr ()"
proof -
  have rs: "ref_ranges meta_img = (Inr [], meta_img)" by (simp add: ref_ranges_def meta_img_def)
  have br: "base_ranges meta_img = [(0, 512), (512, 520), (1536, 2048)]"
    by (simp add: base_ranges_def l2_ranges_def meta_img_def im_cs_def e_off_def l1eOffsetMask_def)
  have eqs: "im_cs meta_img = 512" "im_fileSize meta_img = 2048" by (simp_all add: meta_img_def im_cs_def)
  obtain r s' where v: "validateHostData 1024 512 meta_img = (r, s')" by (metis surj_pair)
  obtain r2 s2 where v2: "validateHostData 1536 512 meta_img = (r2, s2)" by (metis surj_pair)
  have "r = Inr ()"
    using validateHostData_exact [OF _ v] by (simp add: rs br eqs overlaps_def)
  moreover have "r2 \<noteq> Inr ()"
    using validateHostData_exact [OF _ v2] by (auto simp: rs br eqs overlaps_def intro!: exI [of _ 1536])
  ultimately show ?thesis using v v2 by simp
qed

text \<open>
  The word-wise zero test agrees with looking at every byte, for buffers of any length.\<close>

theorem allZero_iff: "allZero b \<longleftrightarrow> b = replicate (length b) 0"
  unfolding allZero_bytes by (metis in_set_replicate replicate_length_same)

end
