(* ===== verification/Qcow2Convert.thy ===== *)
theory Qcow2Convert
  imports Qcow2Trip Qcow2Meta
begin

text \<open>
  Converting images, \<^verbatim>\<open>internal/cow/convert.go\<close> and \<^verbatim>\<open>convertToRaw\<close> in
  \<^verbatim>\<open>internal/cow/qcow2.go\<close>. The source is anything with a \<^verbatim>\<open>ReadAt\<close>; what the
  conversions rely on is the locale \<open>image_source\<close>, interpreted for raw files and for qcow2 images.
  \<open>live\<close> says at which offsets the context is not cancelled, \<open>io\<close> at which offsets a write succeeds
  (\<open>sz\<close> standing for the final truncate), \<open>pre\<close> which of the other file operations succeed.
\<close>

type_synonym 's rd = "nat \<Rightarrow> nat \<Rightarrow> 's \<Rightarrow> (u8 list \<times> qerr option) \<times> 's"

section \<open>The destination\<close>

text \<open>\<^verbatim>\<open>os.Stat\<close> of every backing path of the chain against the destination's key.\<close>

fun backing_hit :: "env \<Rightarrow> nat \<times> nat \<Rightarrow> gimg \<Rightarrow> bool" where
  "backing_hit env key (GRaw f) = False"
| "backing_hit env key (GQcow q None) = False"
| "backing_hit env key (GQcow q (Some (real, img))) =
     ((case e_fs env real of None \<Rightarrow> False | Some bf \<Rightarrow> hf_key bf = key) \<or> backing_hit env key img)"

definition checkNotInChain :: "env \<Rightarrow> gimg \<Rightarrow> path \<Rightarrow> path \<Rightarrow> (qerr, unit) go" where
  "checkNotInChain env img src dest =
     (case e_fs env dest of
        None \<Rightarrow> Ok ()
      | Some df \<Rightarrow>
          if (case e_fs env src of None \<Rightarrow> False | Some sf \<Rightarrow> hf_key sf = hf_key df) then Err ''source and destination are the same file''
          else if backing_hit env (hf_key df) img then Err ''destination is a backing file''
          else Ok ())"

lemma backing_hit_files:
  assumes "chain_ok env p img"
  shows "backing_hit env key img \<longleftrightarrow> key \<in> hf_key ` set (tl (chain_files img))"
  using assms
proof (induction env p img rule: chain_ok.induct)
  case (3 env p q real img)
  obtain f where "e_fs env real = Some f" "chain_files img = f # tl (chain_files img)"
    using "3.prems" by (cases img rule: chain_files.cases) auto
  then show ?case using 3 by (cases "chain_files img") auto
qed auto

lemma chain_head: "chain_ok env p img \<Longrightarrow> \<exists>f. e_fs env p = Some f \<and> chain_files img = f # tl (chain_files img)"
  by (cases img rule: chain_files.cases) auto

section \<open>To raw\<close>

definition raw_chunk :: "nat option \<Rightarrow> nat" where
  "raw_chunk cs =
     (let chunk = 2 ^ 20 in
      case cs of
        None \<Rightarrow> chunk
      | Some c \<Rightarrow> (let r = chunk mod c in if r \<noteq> 0 then chunk + (c - r) else chunk))"

lemma raw_chunk_pos: "0 < raw_chunk cs"
  by (cases cs) (simp_all add: raw_chunk_def Let_def)

lemma raw_step: "off < sz \<Longrightarrow> sz - (off + raw_chunk cs) < sz - off"
  using raw_chunk_pos [of cs] by simp

function raw_loop ::
  "'s rd \<Rightarrow> (nat \<Rightarrow> bool) \<Rightarrow> (nat \<Rightarrow> bool) \<Rightarrow> nat \<Rightarrow> nat option \<Rightarrow> nat \<Rightarrow> 's \<Rightarrow> u8 list \<Rightarrow> (qerr, unit) go \<times> u8 list" where
  "raw_loop rd live io sz cs off s out =
     (if off < sz
      then if \<not> live off then (Err ''context'', out)
           else let n = min (raw_chunk cs) (sz - off) in
             case rd n off s of
               ((bs, err), s1) \<Rightarrow>
                 if err \<noteq> None \<and> err \<noteq> Some ''EOF'' then (Err ''read guest'', out)
                 else let buf = bs @ replicate (n - length bs) 0 in
                   if allZero buf then raw_loop rd live io sz cs (off + raw_chunk cs) s1 out
                   else if \<not> io off then (Err ''write raw'', out)
                   else raw_loop rd live io sz cs (off + raw_chunk cs) s1 (write_at out off buf)
      else if \<not> io sz then (Err ''truncate'', out)
      else (Ok (), truncate_to sz out))"
  by pat_completeness auto
termination
  by (relation "measure (\<lambda>(rd, live, io, sz, cs, off, s, out). sz - off)")
    (simp_all only: wf_measure in_measure split_conv raw_step)

declare raw_loop.simps [simp del]

text \<open>The two kinds of source.\<close>

definition raw_rd :: "u8 list rd" where
  "raw_rd n off f = (raw_ReadAt f off n, f)"

definition q_rd :: "Img rd" where
  "q_rd n off s = (case ReadAt (replicate n 0) off s of ((buf, t, err), s') \<Rightarrow> ((take t buf, err), s'))"

definition Size :: "gimg \<Rightarrow> nat" where
  "Size img = (case img of GRaw f \<Rightarrow> length (hf_data f) | GQcow q b \<Rightarrow> h_size (qi_hdr q))"

definition src_img :: "qinfo \<Rightarrow> (path \<times> gimg) option \<Rightarrow> Img" where
  "src_img q b = q_img (\<lambda>n. True) q (map_option (reader \<circ> snd) b)"

definition convertToRaw ::
  "env \<Rightarrow> (nat \<Rightarrow> bool) \<Rightarrow> (nat \<Rightarrow> bool) \<Rightarrow> (nat \<Rightarrow> bool) \<Rightarrow> path \<Rightarrow> path \<Rightarrow> u8 list \<Rightarrow> (qerr, unit) go \<times> u8 list" where
  "convertToRaw env live io pre src dest old =
     (case openGuestImage env src of
        Err e \<Rightarrow> (Err e, old)
      | Panic \<Rightarrow> (Panic, old)
      | Ok img \<Rightarrow>
          (case checkNotInChain env img src dest of
             Err e \<Rightarrow> (Err e, old)
           | Panic \<Rightarrow> (Panic, old)
           | Ok _ \<Rightarrow>
               if \<not> pre 0 then (Err ''create dest'', old)
               else if \<not> pre 1 then (Err ''align dest mode'', [])
               else (case img of
                       GRaw f \<Rightarrow> raw_loop raw_rd live io (Size img) None 0 (hf_data f) []
                     | GQcow q b \<Rightarrow> raw_loop q_rd live io (Size img) (Some (h_cs (qi_hdr q))) 0 (src_img q b) [])))"

section \<open>To qcow2\<close>

text \<open>One buffer, cluster by cluster; \<open>chunk\<close> holds the source from \<open>off\<close> on.\<close>

lemma cluster_step: "c < fin \<Longrightarrow> fin - (c + 2 ^ bits) < fin - (c :: nat)"
proof -
  have "0 < (2::nat) ^ bits" by simp
  then show "c < fin \<Longrightarrow> ?thesis" by linarith
qed

function q2_clusters :: "nat \<Rightarrow> nat \<Rightarrow> nat \<Rightarrow> u8 list \<Rightarrow> nat \<Rightarrow> Img \<Rightarrow> (qerr, unit) go \<times> Img" where
  "q2_clusters bits off fin chunk c dst =
     (if c < fin
      then let wlen = min (2 ^ bits) (fin - c);
               seg = take wlen (drop (c - off) chunk)
           in if allZero seg then q2_clusters bits off fin chunk (c + 2 ^ bits) dst
              else (case WriteAt seg c dst of
                      ((n, Some e), dst1) \<Rightarrow> (Err e, dst1)
                    | ((n, None), dst1) \<Rightarrow> q2_clusters bits off fin chunk (c + 2 ^ bits) dst1)
      else (Ok (), dst))"
  by pat_completeness auto
termination
  by (relation "measure (\<lambda>(bits, off, fin, chunk, c, dst). fin - c)")
    (simp_all only: wf_measure in_measure split_conv cluster_step)

declare q2_clusters.simps [simp del]

definition q2_bufLen :: "nat \<Rightarrow> nat \<Rightarrow> nat" where
  "q2_bufLen bits sz =
     (let cs = 2 ^ bits;
          r = 2 ^ 20 mod cs;
          b = (if r \<noteq> 0 then 2 ^ 20 + (cs - r) else 2 ^ 20)
      in if b > sz then (let b' = (sz + cs - 1) div cs * cs in if b' = 0 then cs else b') else b)"

lemma q2_bufLen_pos: "0 < q2_bufLen bits sz"
proof -
  have "(1048576::nat) mod 2 ^ bits < 2 ^ bits" by simp
  then show ?thesis by (auto simp: q2_bufLen_def Let_def intro!: trans_less_add2)
qed

lemma q2_step: "off < sz \<Longrightarrow> sz - (off + q2_bufLen bits sz) < sz - off"
  using q2_bufLen_pos [of bits sz] by simp

text \<open>The bytes of one read, rounded up to whole clusters of the destination.\<close>

definition q2_n :: "nat \<Rightarrow> nat \<Rightarrow> nat \<Rightarrow> nat" where
  "q2_n bits sz off =
     (let n = min (q2_bufLen bits sz) (sz - off); r = n mod 2 ^ bits
      in if r \<noteq> 0 then n + (2 ^ bits - r) else n)"

function q2_loop :: "'s rd \<Rightarrow> (nat \<Rightarrow> bool) \<Rightarrow> nat \<Rightarrow> nat \<Rightarrow> nat \<Rightarrow> 's \<Rightarrow> Img \<Rightarrow> (qerr, unit) go \<times> Img" where
  "q2_loop rd live bits sz off s dst =
     (if off < sz
      then if \<not> live off then (Err ''context'', dst)
           else let n = q2_n bits sz off;
                    fin = min (off + n) sz
                in case rd n off s of
                  ((bs, err), s1) \<Rightarrow>
                    if err \<noteq> None \<and> err \<noteq> Some ''EOF'' then (Err ''read src'', dst)
                    else (case q2_clusters bits off fin (bs @ replicate (n - length bs) 0) off dst of
                            (Ok _, dst1) \<Rightarrow> q2_loop rd live bits sz (off + q2_bufLen bits sz) s1 dst1
                          | (Err e, dst1) \<Rightarrow> (Err e, dst1)
                          | (Panic, dst1) \<Rightarrow> (Panic, dst1))
      else (Ok (), dst))"
  by pat_completeness auto
termination
  by (relation "measure (\<lambda>(rd, live, bits, sz, off, s, dst). sz - off)")
    (simp_all only: wf_measure in_measure split_conv q2_step)

declare q2_loop.simps [simp del]

lemma round_up_dvd: "0 < (cs::nat) \<Longrightarrow> cs dvd (if n mod cs \<noteq> 0 then n + (cs - n mod cs) else n)"
proof (cases "n mod cs = 0")
  case False
  assume "0 < cs"
  then have "n mod cs < cs" by simp
  then have "n + (cs - n mod cs) = n div cs * cs + cs" using div_mult_mod_eq [of n cs] by linarith
  then show ?thesis using False by (metis dvd_add dvd_refl dvd_triv_right)
qed auto

lemma q2_bufLen_dvd: "2 ^ bits dvd q2_bufLen bits sz"
  using round_up_dvd [of "2 ^ bits" "2 ^ 20"] by (simp add: q2_bufLen_def Let_def split: if_splits)

text \<open>A read covers the whole buffer or the rest of the source.\<close>

lemma q2_n_cases: "q2_n bits sz off = q2_bufLen bits sz \<or> sz - off \<le> q2_n bits sz off \<and> sz - off \<le> q2_bufLen bits sz"
proof (cases "q2_bufLen bits sz \<le> sz - off")
  case True
  then show ?thesis using q2_bufLen_dvd [of bits sz] by (auto simp: q2_n_def Let_def min_def)
next
  case False
  then have m: "min (q2_bufLen bits sz) (sz - off) = sz - off" by simp
  have "sz - off \<le> q2_n bits sz off"
    unfolding q2_n_def Let_def m by (split if_split) (intro conjI impI le_add1 order_refl)
  then show ?thesis using False by simp
qed

section \<open>What a source promises\<close>

text \<open>
  A read that starts below the size returns the image's bytes as far as the size goes; a short read
  without an error other than the end of the file means zeros.
\<close>

lemma allZero_nth: "allZero b \<Longrightarrow> k < length b \<Longrightarrow> b ! k = 0"
  by (simp add: allZero_bytes)

locale image_source =
  fixes rd :: "'s rd" and inv :: "'s \<Rightarrow> bool" and sz :: nat and bytes :: "nat \<Rightarrow> u8"
  assumes serves: "inv s \<Longrightarrow> off < sz \<Longrightarrow> rd n off s = ((bs, err), s') \<Longrightarrow>
    inv s' \<and> length bs \<le> n \<and>
    (err = None \<or> err = Some ''EOF'' \<longrightarrow>
       (\<forall>k < n. off + k < sz \<longrightarrow> bytes (off + k) = (if k < length bs then bs ! k else 0)))"
begin

text \<open>The zero-filled buffer of one read.\<close>

lemma padded:
  assumes "inv s" "off < sz" "rd n off s = ((bs, err), s')" "err = None \<or> err = Some ''EOF''"
  shows "inv s'" "length (bs @ replicate (n - length bs) 0) = n"
    "k < n \<Longrightarrow> off + k < sz \<Longrightarrow> (bs @ replicate (n - length bs) 0) ! k = bytes (off + k)"
  using serves [OF assms(1-3)] assms(4) by (auto simp: nth_append)

lemma raw_loop_ok:
  assumes "raw_loop rd live io sz cs off s out = (Ok (), out')" "inv s"
    "\<forall>x. fb out x = (if x < min off sz then bytes x else 0)"
  shows "length out' = sz \<and> (\<forall>x < sz. fb out' x = bytes x)"
  using assms
proof (induction "sz - off" arbitrary: off s out rule: less_induct)
  case less
  note run = less.prems(1) [unfolded raw_loop.simps [of rd live io sz cs off s out]]
  show ?case
  proof (cases "off < sz")
    case False
    then have "out' = truncate_to sz out" using run by (auto split: if_splits)
    then show ?thesis using False less.prems(3) by (simp add: fb_truncate)
  next
    case True
    define n where "n = min (raw_chunk cs) (sz - off)"
    obtain bs err s1 where r: "rd n off s = ((bs, err), s1)" by (metis surj_pair)
    define buf where "buf = bs @ replicate (n - length bs) 0"
    have e: "err = None \<or> err = Some ''EOF''" using run True r by (auto simp: n_def [symmetric] Let_def split: if_splits)
    note p = padded [OF less.prems(2) True r e, folded buf_def]
    have lt: "sz - (off + raw_chunk cs) < sz - off" by (rule raw_step [OF True])
    have m: "min (off + raw_chunk cs) sz = off + n" using True by (simp add: n_def)
    have bufb: "buf ! (x - off) = bytes x" if "off \<le> x" "x < off + n" for x
      using p(3) [of "x - off"] that m by simp
    consider (zero) "allZero buf" "raw_loop rd live io sz cs (off + raw_chunk cs) s1 out = (Ok (), out')"
      | (data) "raw_loop rd live io sz cs (off + raw_chunk cs) s1 (write_at out off buf) = (Ok (), out')"
      using run True r e by (auto simp: n_def [symmetric] buf_def [symmetric] Let_def split: if_splits)
    then show ?thesis
    proof cases
      case zero
      have "bytes x = 0" if "off \<le> x" "x < off + n" for x
        using bufb [OF that] allZero_nth [OF zero(1), of "x - off"] that p(2) by simp
      then have "\<forall>x. fb out x = (if x < min (off + raw_chunk cs) sz then bytes x else 0)"
        unfolding m using less.prems(3) True by auto
      then show ?thesis by (rule less.hyps [OF lt zero(2) p(1)])
    next
      case data
      have "\<forall>x. fb (write_at out off buf) x = (if x < min (off + raw_chunk cs) sz then bytes x else 0)"
        unfolding m using less.prems(3) True bufb p(2) by (auto simp: fb_write_at)
      then show ?thesis by (rule less.hyps [OF lt data p(1)])
    qed
  qed
qed

text \<open>Converting to qcow2 writes the non-zero clusters over an image that reads as zeros.\<close>

lemma q2_clusters_ok:
  assumes "q2_clusters bits off fin chunk c dst = (Ok (), dst')" "img_wf role dst" "bk_ok (\<lambda>g. 0) dst" "fin \<le> im_size dst"
    "off \<le> c" "fin - off \<le> length chunk" "\<forall>k. off + k < fin \<longrightarrow> chunk ! k = bytes (off + k)"
    "\<forall>g. c \<le> g \<and> g < im_size dst \<longrightarrow> content (\<lambda>g. 0) dst g = 0"
  shows "(\<exists>role'. img_wf role' dst') \<and> geq dst dst' \<and>
    (\<forall>g < im_size dst. content (\<lambda>g. 0) dst' g = (if c \<le> g \<and> g < fin then bytes g else content (\<lambda>g. 0) dst g))"
  using assms
proof (induction "fin - c" arbitrary: c dst role rule: less_induct)
  case less
  note run = less.prems(1) [unfolded q2_clusters.simps [of bits off fin chunk c dst]]
  show ?case
  proof (cases "c < fin")
    case False
    then show ?thesis using run less.prems(2) by auto
  next
    case True
    define wlen where "wlen = min (2 ^ bits) (fin - c)"
    define seg where "seg = take wlen (drop (c - off) chunk)"
    have seg: "length seg = wlen" "\<And>g. c \<le> g \<Longrightarrow> g < c + wlen \<Longrightarrow> seg ! (g - c) = bytes g"
    proof -
      show "length seg = wlen" using less.prems(5,6) True by (simp add: seg_def wlen_def)
      fix g assume g: "c \<le> g" "g < c + wlen"
      have "g - c < wlen" using g by linarith
      then have "seg ! (g - c) = chunk ! (c - off + (g - c))" using less.prems(5,6) True by (simp add: seg_def)
      also have "c - off + (g - c) = g - off" using g less.prems(5) by simp
      finally show "seg ! (g - c) = bytes g" using less.prems(5,7) g by (simp add: wlen_def)
    qed
    have wl: "c + wlen \<le> fin" "c + wlen = fin \<or> wlen = 2 ^ bits" using True by (auto simp: wlen_def)
    have lt: "fin - (c + 2 ^ bits) < fin - c" using True by (rule cluster_step)
    have after: "fin \<le> c + 2 ^ bits" if "c + wlen = fin" using that by (simp add: wlen_def)
    consider (zero) "allZero seg" "q2_clusters bits off fin chunk (c + 2 ^ bits) dst = (Ok (), dst')"
      | (data) n dst1 where "WriteAt seg c dst = ((n, None), dst1)" "q2_clusters bits off fin chunk (c + 2 ^ bits) dst1 = (Ok (), dst')"
      using run True by (auto simp: wlen_def [symmetric] seg_def [symmetric] Let_def split: if_splits prod.splits option.splits)
    then show ?thesis
    proof cases
      case zero
      have z: "bytes g = 0" if "c \<le> g" "g < c + wlen" for g using seg(2) [OF that] allZero_nth [OF zero(1), of "g - c"] seg(1) that by simp
      have ih: "(\<exists>role'. img_wf role' dst') \<and> geq dst dst' \<and> (\<forall>g < im_size dst. content (\<lambda>g. 0) dst' g =
          (if c + 2 ^ bits \<le> g \<and> g < fin then bytes g else content (\<lambda>g. 0) dst g))"
        using less.prems(5,8) by (intro less.hyps [OF lt zero(2) less.prems(2-4) _ less.prems(6,7)]) auto
      have "content (\<lambda>g. 0) dst' g = (if c \<le> g \<and> g < fin then bytes g else content (\<lambda>g. 0) dst g)" if "g < im_size dst" for g
        using ih that z [of g] wl(2) after less.prems(8) by (cases "c + wlen = fin") auto
      then show ?thesis using ih by blast
    next
      case data
      obtain role1 where q: "img_wf role1 dst1" "geq dst dst1" "n = length seg"
        "\<forall>g. g < im_size dst \<or> c \<le> g \<and> g < c + n \<longrightarrow> content (\<lambda>g. 0) dst1 g =
           (if c \<le> g \<and> g < c + n then seg ! (g - c) else content (\<lambda>g. 0) dst g)"
        using write_loop_ok [OF data(1) [unfolded WriteAt_def] less.prems(2,3)] by auto
      note ge = geq_eqs [OF q(2)]
      have c1: "content (\<lambda>g. 0) dst1 g = (if c \<le> g \<and> g < c + wlen then bytes g else content (\<lambda>g. 0) dst g)"
        if "g < im_size dst" for g using q(3,4) that seg by auto
      have ih: "(\<exists>role'. img_wf role' dst') \<and> geq dst1 dst' \<and> (\<forall>g < im_size dst1. content (\<lambda>g. 0) dst' g =
          (if c + 2 ^ bits \<le> g \<and> g < fin then bytes g else content (\<lambda>g. 0) dst1 g))"
      proof (rule less.hyps [OF lt data(2) q(1)])
        show "\<forall>g. c + 2 ^ bits \<le> g \<and> g < im_size dst1 \<longrightarrow> content (\<lambda>g. 0) dst1 g = 0"
          using c1 ge(6) less.prems(8) wl(2) after by (auto simp: wlen_def)
      qed (use less.prems ge in auto)
      have "content (\<lambda>g. 0) dst' g = (if c \<le> g \<and> g < fin then bytes g else content (\<lambda>g. 0) dst g)" if "g < im_size dst" for g
        using ih that c1 ge(6) wl after by (cases "c + wlen = fin") auto
      then show ?thesis using ih geq_trans [OF q(2)] by blast
    qed
  qed
qed

lemma q2_loop_ok:
  assumes "q2_loop rd live bits sz off s dst = (Ok (), dst')" "inv s" "img_wf role dst" "bk_ok (\<lambda>g. 0) dst" "im_size dst = sz"
    "\<forall>g < sz. content (\<lambda>g. 0) dst g = (if g < off then bytes g else 0)"
  shows "(\<exists>role'. img_wf role' dst') \<and> geq dst dst' \<and> (\<forall>g < sz. content (\<lambda>g. 0) dst' g = bytes g)"
  using assms
proof (induction "sz - off" arbitrary: off s dst role rule: less_induct)
  case less
  note run = less.prems(1) [unfolded q2_loop.simps [of rd live bits sz off s dst]]
  show ?case
  proof (cases "off < sz")
    case False
    then show ?thesis using run less.prems(3,6) by auto
  next
    case True
    let ?b = "q2_bufLen bits sz"
    define n fin where "n = q2_n bits sz off" and "fin = min (off + n) sz"
    obtain bs err s1 where r: "rd n off s = ((bs, err), s1)" by (metis surj_pair)
    define buf where "buf = bs @ replicate (n - length bs) 0"
    have e: "err = None \<or> err = Some ''EOF''"
      using run True r by (auto simp: n_def [symmetric] Let_def split: if_splits)
    note p = padded [OF less.prems(2) True r e, folded buf_def]
    obtain dst1 where d1: "q2_clusters bits off fin buf off dst = (Ok (), dst1)"
      and d2: "q2_loop rd live bits sz (off + ?b) s1 dst1 = (Ok (), dst')"
      using run True r e
      by (auto simp: n_def [symmetric] fin_def [symmetric] buf_def [symmetric] Let_def
          split: if_splits prod.splits go.splits)
    have fin: "fin \<le> sz" "fin - off \<le> n" "fin = min (off + ?b) sz"
      using True q2_n_cases [of bits sz off] by (auto simp: fin_def n_def)
    have q: "(\<exists>role'. img_wf role' dst1) \<and> geq dst dst1 \<and> (\<forall>g < im_size dst. content (\<lambda>g. 0) dst1 g =
        (if off \<le> g \<and> g < fin then bytes g else content (\<lambda>g. 0) dst g))"
      using less.prems(5,6) fin p(2,3)
      by (intro q2_clusters_ok [OF d1 less.prems(3,4)]) auto
    then obtain role1 where w1: "img_wf role1 dst1" by blast
    note ge = geq_eqs [OF q [THEN conjunct2, THEN conjunct1]]
    have c1: "content (\<lambda>g. 0) dst1 g = (if g < off + ?b then bytes g else 0)" if "g < sz" for g
      using q that less.prems(5,6) fin(3) by auto
    have "(\<exists>role'. img_wf role' dst') \<and> geq dst1 dst' \<and> (\<forall>g < sz. content (\<lambda>g. 0) dst' g = bytes g)"
      using less.prems(4,5) ge c1 by (intro less.hyps [OF q2_step [OF True] d2 p(1) w1]) auto
    then show ?thesis using q geq_trans by blast
  qed
qed

end

section \<open>The sources of the code\<close>

interpretation raw_source: image_source raw_rd "\<lambda>f. f = d" "length d" "fb d" for d
  by unfold_locales (auto simp: raw_rd_def raw_ReadAt_def Let_def fb_def)

definition q_inv :: "(nat \<Rightarrow> u8) \<Rightarrow> nat \<Rightarrow> (nat \<Rightarrow> u8) \<Rightarrow> Img \<Rightarrow> bool" where
  "q_inv bk sz bytes s \<longleftrightarrow>
     (\<exists>role. img_wf role s) \<and> bk_ok bk s \<and> im_size s = sz \<and> (\<forall>g < sz. content bk s g = bytes g)"

lemma q_rd_serves:
  assumes "q_inv bk sz bytes s" "off < sz" "q_rd n off s = ((bs, err), s')"
  shows "q_inv bk sz bytes s' \<and> length bs \<le> n \<and>
    (err = None \<or> err = Some ''EOF'' \<longrightarrow>
       (\<forall>k < n. off + k < sz \<longrightarrow> bytes (off + k) = (if k < length bs then bs ! k else 0)))"
proof -
  obtain role where w: "img_wf role s" and bk: "bk_ok bk s" and sz: "im_size s = sz" and c: "\<forall>g < sz. content bk s g = bytes g"
    using assms(1) by (auto simp: q_inv_def)
  obtain buf t where rd: "read_loop (replicate n 0) off s = ((buf, t, err), s')" and bs: "bs = take t buf"
    using assms(3) by (auto simp: q_rd_def ReadAt_def split: prod.splits)
  note ro = read_loop_ok [OF rd w bk]
  then have sm: "same s s'" by blast
  have inv: "q_inv bk sz bytes s'" using ro c sz bk same_eqs(6,7) [OF sm] sm by (auto simp: q_inv_def same_def)
  have len: "length buf = n" "t \<le> n" using ro by simp_all
  have "bytes (off + k) = (if k < length bs then bs ! k else 0)"
    if e: "err = None \<or> err = Some ''EOF''" and k: "k < n" "off + k < sz" for k
  proof -
    have "k < t" using e k ro sz by auto
    then show ?thesis using ro c k bs len by simp
  qed
  then show ?thesis using inv len bs by simp
qed

interpretation q_source: image_source q_rd "q_inv bk sz bytes" sz bytes for bk sz bytes
  by unfold_locales (rule q_rd_serves)

text \<open>The bytes an opened image shows, and its size.\<close>

definition shows_bytes :: "gimg \<Rightarrow> (nat \<Rightarrow> u8) \<Rightarrow> bool" where
  "shows_bytes img bytes \<longleftrightarrow>
     (case img of
        GRaw f \<Rightarrow> bytes = fb (hf_data f)
      | GQcow q b \<Rightarrow> \<exists>bk. q_inv bk (Size img) bytes (src_img q b))"

section \<open>The command\<close>

definition Abs :: "path \<Rightarrow> string \<Rightarrow> path" where
  "Abs cwd name = clean_from (if IsAbs name then [] else rev cwd) (split_slash name)"

definition same_file :: "env \<Rightarrow> path \<Rightarrow> path \<Rightarrow> bool" where
  "same_file env a b = (case e_fs env a of
     None \<Rightarrow> False
   | Some sf \<Rightarrow> (case e_fs env b of None \<Rightarrow> False | Some df \<Rightarrow> hf_key sf = hf_key df))"

text \<open>Everything before the destination is built.\<close>

definition convert_check :: "env \<Rightarrow> path \<Rightarrow> (nat \<Rightarrow> bool) \<Rightarrow> string \<Rightarrow> string \<Rightarrow> (qerr, gimg) go" where
  "convert_check env cwd pre srcPath destPath =
     (if \<not> pre 0 then Err ''context''
      else go_bind (validatePath srcPath) (\<lambda>_.
           go_bind (validatePath destPath) (\<lambda>_.
           let absSrc = Abs cwd srcPath; absDst = Abs cwd destPath in
           if same_file env absSrc absDst then Err ''source and destination are the same file''
           else if \<not> pre 1 then Err ''create dest dir''
           else go_bind (openGuestImage env absSrc) (\<lambda>src.
                go_bind (checkNotInChain env src absSrc absDst) (\<lambda>_.
                if Size src = 0 then Err ''zero size'' else Ok src)))))"

text \<open>
  The image built in the temporary file \<open>tmp\<close> with inode \<open>key\<close>; \<open>cio\<close> and \<open>dio\<close> are the operations on it
  while it is created and written. A destination that opened as raw would be written in place.
\<close>

definition convert_copy :: "(nat \<Rightarrow> bool) \<Rightarrow> nat \<Rightarrow> gimg \<Rightarrow> Img \<Rightarrow> (qerr, unit) go \<times> Img" where
  "convert_copy live bits src dst =
     (case src of
        GRaw f \<Rightarrow> q2_loop raw_rd live bits (Size src) 0 (hf_data f) dst
      | GQcow q b \<Rightarrow> q2_loop q_rd live bits (Size src) 0 (src_img q b) dst)"

definition convert_build ::
  "env \<Rightarrow> (nat \<Rightarrow> bool) \<Rightarrow> (nat \<Rightarrow> bool) \<Rightarrow> (nat \<Rightarrow> bool) \<Rightarrow> path \<Rightarrow> nat \<times> nat \<Rightarrow> gimg \<Rightarrow> OverlayOpt \<Rightarrow> (qerr, Img) go" where
  "convert_build env live cio dio tmp key src opt =
     (case createQcow2 cio (Size src) '''' '''' opt [] of
        (Err e, d) \<Rightarrow> Err e
      | (Panic, d) \<Rightarrow> Panic
      | (Ok _, d) \<Rightarrow>
          let env1 = env\<lparr>e_fs := (e_fs env)(tmp := Some \<lparr>hf_data = d, hf_key = key, hf_mode = 0\<rparr>)\<rparr> in
          go_bind (OpenWritable env1 (e_fs env1) dio tmp) (\<lambda>w.
          case w of
            BRaw f \<Rightarrow> Err ''raw destination''
          | BQcow dst \<Rightarrow>
              (case convert_copy live (oo_ClusterBits opt) src dst of
                 (Ok _, dst1) \<Rightarrow> Ok dst1
               | (Err e, dst1) \<Rightarrow> Err e
               | (Panic, dst1) \<Rightarrow> Panic)))"

definition ConvertToQcow2 ::
  "env \<Rightarrow> path \<Rightarrow> (nat \<Rightarrow> bool) \<Rightarrow> (nat \<Rightarrow> bool) \<Rightarrow> (nat \<Rightarrow> bool) \<Rightarrow> (nat \<Rightarrow> bool) \<Rightarrow> path \<Rightarrow> nat \<times> nat \<Rightarrow>
   string \<Rightarrow> string \<Rightarrow> OverlayOpt \<Rightarrow> u8 list \<Rightarrow> (qerr, unit) go \<times> u8 list" where
  "ConvertToQcow2 env cwd pre live cio dio tmp key srcPath destPath opt old =
     (case go_bind (convert_check env cwd pre srcPath destPath) (\<lambda>src.
             if \<not> pre 2 then Err ''create temp''
             else go_bind (convert_build env live cio dio tmp key src
                    (if oo_ClusterBits opt = 0 then opt\<lparr>oo_ClusterBits := clusterBits\<rparr> else opt)) (\<lambda>dst.
                  if \<not> pre 3 then Err ''sync''
                  else if \<not> pre 4 then Err ''close''
                  else if \<not> pre 5 then Err ''align dest mode''
                  else if \<not> pre 6 then Err ''rename into place''
                  else Ok dst)) of
        Ok dst \<Rightarrow> (Ok (), im_file dst)
      | Err e \<Rightarrow> (Err e, old)
      | Panic \<Rightarrow> (Panic, old))"

section \<open>The new image\<close>

lemma created_opened:
  assumes "createQcow2 cio vs backing fmt opt d0 = (Ok (), d)" "e_fs env p = Some f" "hf_data f = d"
    "bits = (if oo_ClusterBits opt = 0 then clusterBits else oo_ClusterBits opt)" "bits \<le> 16"
    "OpenWritable env (e_fs env) io p = Ok w" and b: "opened_backing env p f backing fmt bk"
  obtains s role where "w = BQcow s" "img_wf role s" "im_size s = vs" "im_bits s = bits"
    "im_backing s = map_option (reader \<circ> snd) bk" "\<forall>bytes. \<forall>g < vs. content bytes s g = bytes g"
proof -
  note c = assms(1) [folded assms(3)]
  obtain l bf where cr: "created vs backing fmt opt l bf (hf_data f)" by (rule createQcow2_created [OF c])
  have "vs \<le> 2 ^ 23 * (2 ^ bits div 8 * 2 ^ bits)"
  proof (rule ccontr)
    assume "\<not> ?thesis"
    then have "maxL1TableBytes < ly_l1Size l * 8"
      using layout_Ok(3,7,24) [OF createdD(1) [OF cr]] assms(4)
      by (intro l1_over_cap [of "2 ^ bits div 8 * 2 ^ bits" vs]) simp_all
    then have e: "openGuestImage env p = Err ''L1 table cap''" using open_created [OF cr assms(2) b] by simp
    have "112 \<le> length (hf_data f)" using createdD(9) [OF cr] layout_Ok(4) [OF createdD(1) [OF cr]] by simp
    then have "isQcow2 env p"
      using assms(2) created_flds(1) [OF cr] take_drop_fld [of 0 4 "hf_data f"] by (simp add: isQcow2_def)
    then show False using e assms(6) by (simp add: OpenWritable_def)
  qed
  from created_writable [OF c assms(2) b assms(4,5) this, of io] assms(6)
  obtain s role where "w = BQcow s" "img_wf role s" "im_size s = vs" "im_bits s = bits" "im_backing s = map_option (reader \<circ> snd) bk"
    "\<forall>bytes. \<forall>g < vs. content bytes s g = bytes g" by auto
  then show ?thesis using that by blast
qed

lemma convert_build_ok:
  assumes "convert_build env live cio dio tmp key src opt = Ok dst" "shows_bytes src bytes"
    "oo_ClusterBits opt \<noteq> 0" "oo_ClusterBits opt \<le> 16"
  shows "(\<exists>role. img_wf role dst) \<and> im_size dst = Size src \<and> im_backing dst = None \<and>
    (\<forall>g < Size src. content (\<lambda>g. 0) dst g = bytes g)"
proof -
  obtain d where c: "createQcow2 cio (Size src) '''' '''' opt [] = (Ok (), d)"
    using assms(1) by (auto simp: convert_build_def Let_def split: prod.splits go.splits)
  let ?f = "\<lparr>hf_data = d, hf_key = key, hf_mode = 0\<rparr>"
  let ?env = "env\<lparr>e_fs := (e_fs env)(tmp := Some ?f)\<rparr>"
  obtain w where o: "OpenWritable ?env (e_fs ?env) dio tmp = Ok w"
    and w: "(case w of BRaw f \<Rightarrow> Err ''raw destination''
      | BQcow s0 \<Rightarrow> (case convert_copy live (oo_ClusterBits opt) src s0 of
           (Ok _, dst1) \<Rightarrow> Ok dst1 | (Err e, dst1) \<Rightarrow> Err e | (Panic, dst1) \<Rightarrow> Panic)) = Ok dst"
    using assms(1) c by (auto simp: convert_build_def Let_def)
  then obtain s0 where s: "w = BQcow s0" by (cases w) simp_all
  then have l: "convert_copy live (oo_ClusterBits opt) src s0 = (Ok (), dst)"
    using w by (auto split: prod.splits go.splits)
  note o = o [unfolded s]
  have fs: "e_fs ?env tmp = Some ?f" and fd: "hf_data ?f = d" by simp_all
  have bt: "(if oo_ClusterBits opt = 0 then clusterBits else oo_ClusterBits opt) \<le> 16" using assms(3,4) by simp
  obtain role where s0: "img_wf role s0" "im_size s0 = Size src" "im_backing s0 = None" "\<forall>g < Size src. content (\<lambda>g. 0) s0 g = 0"
    by (rule created_opened [OF c fs fd refl bt o, where bk = None]) (auto simp: opened_backing_def)
  have bk: "bk_ok (\<lambda>g. 0) s0" using s0(3) by (simp add: bk_ok_def)
  have z: "\<forall>g < Size src. content (\<lambda>g. 0) s0 g = (if g < 0 then bytes g else 0)" using s0(4) by simp
  have "(\<exists>role'. img_wf role' dst) \<and> geq s0 dst \<and> (\<forall>g < Size src. content (\<lambda>g. 0) dst g = bytes g)"
  proof (cases src)
    case (GRaw f)
    then have "Size src = length (hf_data f)" "bytes = fb (hf_data f)" using assms(2) by (simp_all add: Size_def shows_bytes_def)
    then show ?thesis using raw_source.q2_loop_ok [where d = "hf_data f", OF _ refl s0(1) bk] l s0(2) z GRaw by (simp add: convert_copy_def)
  next
    case (GQcow q b)
    then obtain bk' where "q_inv bk' (Size src) bytes (src_img q b)" using assms(2) by (auto simp: shows_bytes_def)
    then show ?thesis using q_source.q2_loop_ok [OF _ _ s0(1) bk s0(2) z] l GQcow by (simp add: convert_copy_def)
  qed
  then show ?thesis using s0(2,3) by (auto simp: geq_def)
qed

section \<open>Properties\<close>

lemma convertToRaw_run:
  assumes "convertToRaw env live io pre src dest old = (Ok (), out)" "openGuestImage env src = Ok img"
  shows "checkNotInChain env img src dest = Ok ()"
    "(case img of
        GRaw f \<Rightarrow> raw_loop raw_rd live io (Size img) None 0 (hf_data f) []
      | GQcow q b \<Rightarrow> raw_loop q_rd live io (Size img) (Some (h_cs (qi_hdr q))) 0 (src_img q b) []) = (Ok (), out)"
  using assms by (auto simp: convertToRaw_def split: go.splits if_splits)

text \<open>
  The guard before a conversion is exact: for a chain that opened, the destination is accepted exactly
  when it does not exist or is none of the chain's files, compared by device and inode. Neither conversion
  truncates or replaces a file it is reading.\<close>

theorem checkNotInChain_exact:
  assumes "\<forall>c r. e_eval env c = Some r \<longrightarrow> clean_path r" "openGuestImage env src = Ok img"
  shows "checkNotInChain env img src dest = Ok () \<longleftrightarrow>
    (\<forall>df. e_fs env dest = Some df \<longrightarrow> hf_key df \<notin> hf_key ` set (chain_files img))"
proof -
  have c: "chain_ok env src img"
    using openGuestImageDepth_chain [OF assms(1) assms(2) [unfolded openGuestImage_def]] by blast
  obtain f where f: "e_fs env src = Some f" "chain_files img = f # tl (chain_files img)" using chain_head [OF c] by blast
  have "hf_key ` set (chain_files img) = insert (hf_key f) (hf_key ` set (tl (chain_files img)))"
    by (subst f(2)) simp
  then show ?thesis
    using f(1) backing_hit_files [OF c] by (auto simp: checkNotInChain_def split: option.splits)
qed

theorem checkNotInChain_exact_witness:
  "checkNotInChain (demo_env []) (GRaw demo_base) [''i'', ''b''] [''i'', ''b''] \<noteq> Ok () \<and>
   checkNotInChain (demo_env []) (GRaw demo_base) [''i'', ''b''] [''x''] = Ok ()"
proof -
  have o: "openGuestImage (demo_env []) [''i'', ''b''] = Ok (GRaw demo_base)"
    by (simp add: openGuestImage_def openGuestImageDepth.simps maxBackingChainDepth_def demo_env_def demo_base_def
        sniff_def readN_def qcow2Magic_def)
  have "\<forall>c r. e_eval (demo_env []) c = Some r \<longrightarrow> clean_path r" by (simp add: demo_env_def clean_path_def)
  note t = checkNotInChain_exact [OF this o]
  show ?thesis unfolding t by (simp add: demo_env_def)
qed

text \<open>
  C37: Flattening is faithful: when converting to raw succeeds, the output has exactly the size of the
  source and holds its bytes, the skipped zero regions included.\<close>

theorem convertToRaw_flattens:
  assumes "convertToRaw env live io pre src dest old = (Ok (), out)" "openGuestImage env src = Ok img" "shows_bytes img bytes"
  shows "length out = Size img \<and> (\<forall>g < Size img. out ! g = bytes g)"
proof -
  note run = convertToRaw_run(2) [OF assms(1,2)]
  have start: "\<forall>x. fb [] x = (if x < min 0 sz then b x else 0)" for sz b by (simp add: fb_def)
  have "length out = Size img \<and> (\<forall>g < Size img. fb out g = bytes g)"
  proof (cases img)
    case (GRaw f)
    then show ?thesis using raw_source.raw_loop_ok [where d = "hf_data f", OF _ refl start] run assms(3)
      by (simp add: shows_bytes_def Size_def)
  next
    case (GQcow q b)
    then obtain bk where "q_inv bk (Size img) bytes (src_img q b)" using assms(3) by (auto simp: shows_bytes_def)
    then show ?thesis using q_source.raw_loop_ok [OF _ _ start] run GQcow by simp
  qed
  then show ?thesis by (auto simp: fb_def)
qed

theorem convertToRaw_flattens_witness:
  "convertToRaw (demo_env []) (\<lambda>n. True) (\<lambda>n. True) (\<lambda>n. True) [''i'', ''b''] [''x''] [9] = (Ok (), [1, 2, 3, 4]) \<and>
   length [1, 2, 3, 4 :: u8] = Size (GRaw demo_base)"
proof -
  have o: "openGuestImage (demo_env []) [''i'', ''b''] = Ok (GRaw demo_base)"
    by (simp add: openGuestImage_def openGuestImageDepth.simps maxBackingChainDepth_def demo_env_def demo_base_def
        sniff_def readN_def qcow2Magic_def)
  have c: "checkNotInChain (demo_env []) (GRaw demo_base) [''i'', ''b''] [''x''] = Ok ()"
    by (simp add: checkNotInChain_def demo_env_def)
  have "convertToRaw (demo_env []) (\<lambda>n. True) (\<lambda>n. True) (\<lambda>n. True) [''i'', ''b''] [''x''] [9] = (Ok (), [1, 2, 3, 4])"
    using o c
    by (simp add: convertToRaw_def Size_def demo_base_def raw_loop.simps raw_chunk_def raw_rd_def raw_ReadAt_def
        allZero_bytes write_at_def truncate_to_def)
  moreover from convertToRaw_flattens [OF this o, of "fb (hf_data demo_base)"]
  have "length [1, 2, 3, 4 :: u8] = Size (GRaw demo_base)" by (simp add: shows_bytes_def)
  ultimately show ?thesis by blast
qed


definition zero_env :: env where
  "zero_env = (demo_env [])\<lparr>e_fs := (\<lambda>p. if p = [''z''] then Some \<lparr>hf_data = [0, 0, 0, 0, 0], hf_key = (0, 5), hf_mode = 0\<rparr> else None)\<rparr>"


end
