(* ===== verification/Qcow2Compact.thy ===== *)
theory Qcow2Compact
  imports Qcow2Convert
begin

text \<open>
  Compaction, \<^verbatim>\<open>internal/cow/qcow2_compact.go\<close>: rebuilding an overlay from its allocated clusters. The
  walk reads the source's tables from its file, copies the clusters that hold data, and represents
  clusters that read as zero by bare ZERO entries. \<open>live\<close> says at which table and entry the context is
  not cancelled.
\<close>

unbundle bit_operations_syntax

section \<open>Definitions\<close>

record CompactStats =
  cp_Before :: nat
  cp_After :: nat
  cp_Copied :: nat
  cp_Zeroed :: nat
  cp_Dropped :: nat

type_synonym cpst = "Img \<times> Img \<times> CompactStats"

definition oflagZero :: nat where "oflagZero = 1"

text \<open>The guest-visible bytes of a data cluster, from the host file or through the chain.\<close>

definition read_cluster :: "nat \<Rightarrow> nat \<Rightarrow> nat \<Rightarrow> Img \<Rightarrow> (qerr + u8 list) \<times> Img" where
  "read_cluster e guestOff n src =
     (if is_copied e
      then qbind (validateHostData (e_off e) n) (\<lambda>_ s.
             case host_pread (e_off e) n s of
               ((bs, Some err), s1) \<Rightarrow> (Inl err, s1)
             | ((bs, None), s1) \<Rightarrow> if length bs < n then (Inl ''unexpected EOF'', s1) else (Inr bs, s1)) src
      else case ReadAt (replicate n 0) guestOff src of
             ((buf, m, Some err), s1) \<Rightarrow> (Inl err, s1)
           | ((buf, m, None), s1) \<Rightarrow> if m < n then (Inl ''unexpected EOF'', s1) else (Inr buf, s1))"

definition put_zero :: "nat \<Rightarrow> cpst \<Rightarrow> (qerr, unit) go \<times> cpst" where
  "put_zero clusterIdx st =
     (case st of (src, dst, stats) \<Rightarrow>
        (case setL2Entry clusterIdx oflagZero dst of
           (Inl e, dst1) \<Rightarrow> (Err e, (src, dst1, stats))
         | (Inr _, dst1) \<Rightarrow> (Ok (), (src, dst1, stats\<lparr>cp_Zeroed := cp_Zeroed stats + 1\<rparr>))))"

definition drop_n :: "nat \<Rightarrow> cpst \<Rightarrow> (qerr, unit) go \<times> cpst" where
  "drop_n k st = (case st of (src, dst, stats) \<Rightarrow> (Ok (), (src, dst, stats\<lparr>cp_Dropped := cp_Dropped stats + k\<rparr>)))"

text \<open>One L2 entry.\<close>

definition compact_entry :: "nat \<Rightarrow> nat \<Rightarrow> cpst \<Rightarrow> (qerr, unit) go \<times> cpst" where
  "compact_entry clusterIdx e st =
     (case st of (src, dst, stats) \<Rightarrow>
        let cs = im_cs src; guestOff = clusterIdx * cs mod 2 ^ 64 in
        if e = 0 then drop_n 1 st
        else if is_compressed e then (Err ''compressed cluster'', st)
        else if im_size src \<le> guestOff then drop_n 1 st
        else if is_zero e then put_zero clusterIdx st
        else if e_off e = 0 then drop_n 1 st
        else let n = min cs (im_size src - guestOff) in
          (case read_cluster e guestOff n src of
             (Inl err, src1) \<Rightarrow> (Err err, (src1, dst, stats))
           | (Inr buf, src1) \<Rightarrow>
               if allZero buf then put_zero clusterIdx (src1, dst, stats)
               else (case WriteAt buf guestOff dst of
                       ((m, Some err), dst1) \<Rightarrow> (Err err, (src1, dst1, stats))
                     | ((m, None), dst1) \<Rightarrow> (Ok (), (src1, dst1, stats\<lparr>cp_Copied := cp_Copied stats + 1\<rparr>)))))"

text \<open>The entries \<open>js\<close> of the table of L1 slot \<open>i\<close>; the context is looked at on every 64th.\<close>

primrec compact_entries :: "(nat \<Rightarrow> nat option \<Rightarrow> bool) \<Rightarrow> nat \<Rightarrow> nat \<Rightarrow> u8 list \<Rightarrow> nat list \<Rightarrow> cpst \<Rightarrow> (qerr, unit) go \<times> cpst" where
  "compact_entries live l2Entries i l2Table [] st = (Ok (), st)"
| "compact_entries live l2Entries i l2Table (j # js) st =
     (if j mod 64 = 0 \<and> \<not> live i (Some j) then (Err ''context'', st)
      else (case compact_entry (i * l2Entries + j) (be_get (take 8 (drop (j * 8) l2Table))) st of
              (Ok _, st1) \<Rightarrow> compact_entries live l2Entries i l2Table js st1
            | (Err e, st1) \<Rightarrow> (Err e, st1)
            | (Panic, st1) \<Rightarrow> (Panic, st1)))"

text \<open>One L1 slot.\<close>

definition compact_slot :: "(nat \<Rightarrow> nat option \<Rightarrow> bool) \<Rightarrow> nat \<Rightarrow> cpst \<Rightarrow> (qerr, unit) go \<times> cpst" where
  "compact_slot live i st =
     (case st of (src, dst, stats) \<Rightarrow>
        let cs = im_cs src; l2Entries = cs div 8 in
        (case readUint64At (im_l1Offset src + i * 8) src of
           (Inl e, src1) \<Rightarrow> (Err e, (src1, dst, stats))
         | (Inr l1e, src1) \<Rightarrow>
             if e_off l1e = 0 then drop_n l2Entries (src1, dst, stats)
             else (case host_pread (e_off l1e) cs src1 of
                     ((bs, err), src2) \<Rightarrow>
                       if err \<noteq> None \<and> err \<noteq> Some ''EOF'' then (Err ''read L2 table'', (src2, dst, stats))
                       else if length bs < cs then (Err ''unexpected EOF'', (src2, dst, stats))
                       else compact_entries live l2Entries i bs [0..<l2Entries] (src2, dst, stats))))"

primrec compact_slots :: "(nat \<Rightarrow> nat option \<Rightarrow> bool) \<Rightarrow> nat list \<Rightarrow> cpst \<Rightarrow> (qerr, unit) go \<times> cpst" where
  "compact_slots live [] st = (Ok (), st)"
| "compact_slots live (i # is) st =
     (if \<not> live i None then (Err ''context'', st)
      else (case compact_slot live i st of
              (Ok _, st1) \<Rightarrow> compact_slots live is st1
            | (Err e, st1) \<Rightarrow> (Err e, st1)
            | (Panic, st1) \<Rightarrow> (Panic, st1)))"

definition compactWalk :: "(nat \<Rightarrow> nat option \<Rightarrow> bool) \<Rightarrow> nat \<Rightarrow> Img \<Rightarrow> Img \<Rightarrow> CompactStats \<Rightarrow> (qerr, unit) go \<times> cpst" where
  "compactWalk live l1Size src dst stats = compact_slots live [0..<l1Size] (src, dst, stats)"

text \<open>
  The command. \<open>sio\<close> are the reads of the source, \<open>cio\<close> and \<open>dio\<close> the operations on the temporary file
  while it is created and written, \<open>pre\<close> the remaining file operations; \<open>key\<close> is the inode of the new file.
\<close>

definition compact_source :: "env \<Rightarrow> path \<Rightarrow> (nat \<Rightarrow> bool) \<Rightarrow> string \<Rightarrow> (qerr, hfile \<times> qinfo \<times> (path \<times> gimg) option) go" where
  "compact_source env cwd pre overlayFile =
     go_bind (validatePath overlayFile) (\<lambda>_.
     let p = Abs cwd overlayFile in
     if \<not> isQcow2 env p then Err ''compact requires a qcow2 image''
     else (case e_fs env p of
             None \<Rightarrow> Err ''stat overlay''
           | Some st0 \<Rightarrow>
               if \<not> pre 0 then Err ''stat overlay''
               else go_bind (openGuestImage env p) (\<lambda>src.
                    case src of
                      GRaw f \<Rightarrow> Err ''sniffed qcow2 but parsed raw''
                    | GQcow q b \<Rightarrow>
                        if h_snapshots (qi_hdr q) \<noteq> 0 \<or> h_snapshotsOffset (qi_hdr q) \<noteq> 0 then Err ''internal snapshots''
                        else if h_size (qi_hdr q) = 0 then Err ''zero virtual size''
                        else Ok (st0, q, b))))"

text \<open>The backing name and format the new image is given.\<close>

definition compact_backing :: "env \<Rightarrow> qinfo \<Rightarrow> (path \<times> gimg) option \<Rightarrow> string \<times> string" where
  "compact_backing env q b =
     (case b of
        None \<Rightarrow> ('''', '''')
      | Some (real, img) \<Rightarrow>
          (if qi_name q = '''' then path_str real else qi_name q,
           if qi_fmt q = '''' then if isQcow2 env real then ''qcow2'' else ''raw'' else qi_fmt q))"

definition tmp_path :: "path \<Rightarrow> path" where
  "tmp_path p = butlast p @ [last p @ ''.compact.tmp'']"

definition with_file :: "env \<Rightarrow> path \<Rightarrow> nat \<times> nat \<Rightarrow> u8 list \<Rightarrow> env" where
  "with_file env p key d = env\<lparr>e_fs := (e_fs env)(p := Some \<lparr>hf_data = d, hf_key = key, hf_mode = 0\<rparr>)\<rparr>"

definition compact_build ::
  "env \<Rightarrow> path \<Rightarrow> (nat \<Rightarrow> nat option \<Rightarrow> bool) \<Rightarrow> (nat \<Rightarrow> bool) \<Rightarrow> (nat \<Rightarrow> bool) \<Rightarrow> (nat \<Rightarrow> bool) \<Rightarrow> nat \<times> nat \<Rightarrow>
   string \<times> string \<Rightarrow> qinfo \<Rightarrow> (path \<times> gimg) option \<Rightarrow> CompactStats \<Rightarrow> (qerr, Img \<times> CompactStats) go" where
  "compact_build env p live sio cio dio key backing q b stats =
     (case backing of (name, fmt) \<Rightarrow>
      (case createQcow2 cio (h_size (qi_hdr q)) name fmt \<lparr>oo_ClusterBits = h_bits (qi_hdr q), oo_PreallocMetadata = False\<rparr> [] of
         (Err e, d) \<Rightarrow> Err e
       | (Panic, d) \<Rightarrow> Panic
       | (Ok _, d) \<Rightarrow>
           let env1 = with_file env (tmp_path p) key d in
           go_bind (OpenWritable env1 (e_fs env1) dio (tmp_path p)) (\<lambda>w.
           case w of
             BRaw f \<Rightarrow> Err ''dest is not a qcow2 writable''
           | BQcow dst \<Rightarrow>
               (case compactWalk live (h_l1Size (qi_hdr q)) (q_img sio q (map_option (reader \<circ> snd) b)) dst stats of
                  (Ok _, (src1, dst1, stats1)) \<Rightarrow> Ok (dst1, stats1)
                | (Err e, _) \<Rightarrow> Err e
                | (Panic, _) \<Rightarrow> Panic))))"

definition Compact ::
  "env \<Rightarrow> path \<Rightarrow> (nat \<Rightarrow> bool) \<Rightarrow> (nat \<Rightarrow> nat option \<Rightarrow> bool) \<Rightarrow> (nat \<Rightarrow> bool) \<Rightarrow> (nat \<Rightarrow> bool) \<Rightarrow> (nat \<Rightarrow> bool) \<Rightarrow> nat \<times> nat \<Rightarrow>
   string \<Rightarrow> (qerr, CompactStats) go \<times> env" where
  "Compact env cwd pre live sio cio dio key overlayFile =
     (let p = Abs cwd overlayFile; env0 = env\<lparr>e_fs := (e_fs env)(tmp_path p := None)\<rparr> in
      case compact_source env cwd pre overlayFile of
        Err e \<Rightarrow> (Err e, env)
      | Panic \<Rightarrow> (Panic, env)
      | Ok (st0, q, b) \<Rightarrow>
          (case go_bind (compact_build env0 p live sio cio dio key (compact_backing env q b) q b
                   \<lparr>cp_Before = length (hf_data st0), cp_After = 0, cp_Copied = 0, cp_Zeroed = 0, cp_Dropped = 0\<rparr>) (\<lambda>(dst, stats).
                 if \<not> pre 1 then Err ''sync dest''
                 else if \<not> pre 2 then Err ''close dest''
                 else if \<not> pre 3 then Err ''stat dest''
                 else if \<not> pre 4 then Err ''align dest mode''
                 else if \<not> pre 5 then Err ''rename into place''
                 else Ok (dst, stats)) of
             Err e \<Rightarrow> (Err e, env0)
           | Panic \<Rightarrow> (Panic, env0)
           | Ok (dst, stats) \<Rightarrow>
               (Ok (stats\<lparr>cp_After := length (im_file dst)\<rparr>),
                env0\<lparr>e_fs := (e_fs env0)(p := Some \<lparr>hf_data = im_file dst, hf_key = key, hf_mode = hf_mode st0\<rparr>)\<rparr>)))"

section \<open>The ZERO entry\<close>

lemma setL2Entry_zero:
  assumes "setL2Entry c oflagZero s = (r, s')" "img_wf role s" "c div (im_cs s div 8) < length (im_l1 s)"
  shows "\<exists>role'. img_wf role' s' \<and> geq s s' \<and>
    (\<forall>bk g. g < l1_span s \<longrightarrow> content bk s' g = (if r = Inr () \<and> g div im_cs s = c then 0 else content bk s g))"
proof -
  let ?i = "c div (im_cs s div 8)" and ?j = "c mod (im_cs s div 8)"
  obtain r1 s1 where en: "ensureL2 ?i s = (r1, s1)" by (cases "ensureL2 ?i s")
  obtain role1 where q1: "img_wf role1 s1" "ext role s role1 s1"
    "\<forall>t. r1 = Inr t \<longrightarrow> e_off (im_l1 s1 ! ?i) = t \<and> t \<noteq> 0"
    using ensureL2_ok [OF en assms(2,3)] by blast
  note e1 = ext_eqs [OF q1(2)]
  have c1: "content bk s1 g = content bk s g" if "g < l1_span s" for bk g using q1(2) that by (simp add: ext_def)
  show ?thesis
  proof (cases r1)
    case (Inl e)
    then have "(r, s') = (Inl e, s1)"
      unfolding assms(1) [symmetric] using en assms(3) by (simp add: setL2Entry_def Let_def qbind_def)
    then show ?thesis using q1(1) ext_geq [OF q1(2)] c1 by auto
  next
    case (Inr t)
    then have t: "e_off (im_l1 s1 ! ?i) = t" "t \<noteq> 0" using q1(3) by simp_all
    obtain r2 s2 where w: "host_write (t + ?j * 8) (be_put 8 oflagZero) s1 = (r2, s2)"
      by (cases "host_write (t + ?j * 8) (be_put 8 oflagZero) s1")
    have run: "(r, s') = (case r2 of Inl e \<Rightarrow> (Inl e, s2) | Inr u \<Rightarrow> (Inr (), updateL2Cache t ?j oflagZero s2))"
      unfolding assms(1) [symmetric] using en assms(3) Inr w
      by (simp add: setL2Entry_def Let_def qbind_def del: le_put_numeral split: sum.splits)
    from w show ?thesis
    proof (cases rule: host_write_cases)
      case fail
      then have s': "r = Inl ''io''" "s' = s1\<lparr>im_ops := Suc (im_ops s1)\<rparr>" using run by simp_all
      have x: "ext role1 s1 role1 s'" unfolding s'(2) by (rule same_ext) simp
      have "content bk s' g = content bk s g" if "g < l1_span s" for bk g
        using x that c1 [OF that] e1(4) by (simp add: ext_def)
      then show ?thesis using s'(1) img_wf_ops [OF q1(1)] ext_geq [OF ext_trans [OF q1(2) x]]
        by (intro exI [of _ role1]) (simp add: s'(2))
    next
      case ok
      have s': "r = Inr ()" "s' = updateL2Cache (e_off (im_l1 s1 ! (c div (im_cs s1 div 8)))) (c mod (im_cs s1 div 8)) 1
          (s1\<lparr>im_ops := Suc (im_ops s1), im_file := write_at (im_file s1)
             (e_off (im_l1 s1 ! (c div (im_cs s1 div 8))) + 8 * (c mod (im_cs s1 div 8))) (be_put 8 1)\<rparr>)"
        using run ok t e1(1) by (simp_all add: mult.commute oflagZero_def)
      have i1: "c div (im_cs s1 div 8) < length (im_l1 s1)" using assms(3) e1(1,8) by simp
      have t1: "e_off (im_l1 s1 ! (c div (im_cs s1 div 8))) \<noteq> 0" using t e1(1) by simp
      note ze = zero_entry [OF q1(1) i1 t1 s'(2)]
      have "geq s1 s'" unfolding s'(2) using updateL2Cache_same by (simp add: geq_def same_def)
      then have "geq s s'" using ext_geq [OF q1(2)] geq_trans by blast
      moreover have "content bk s' g = (if g div im_cs s = c then 0 else content bk s g)" if "g < l1_span s" for bk g
        using ze(2) [of g bk] that e1(1,4) c1 [OF that] by simp
      ultimately show ?thesis using ze(1) s'(1) by auto
    qed
  qed
qed


section \<open>Reading a cluster\<close>

lemma validateHostData_frame:
  assumes "validateHostData off n s = (r, s')"
  shows "\<exists>k. s' = s\<lparr>im_ops := k\<rparr>"
proof -
  have id: "\<exists>k. s = s\<lparr>im_ops := k\<rparr>" by (intro exI [of _ "im_ops s"]) simp
  have hr: "\<exists>k. snd (host_read a b s) = s\<lparr>im_ops := k\<rparr>" for a b
    using host_read_frame [of a b s] by (metis prod.collapse)
  have "snd (ref_ranges s) = s \<or> (\<exists>a b. snd (ref_ranges s) = snd (host_read a b s))"
    by (auto simp: ref_ranges_def Let_def qbind_def qret_def split: prod.splits sum.splits) (metis snd_conv)+
  then have rr: "\<exists>k. snd (ref_ranges s) = s\<lparr>im_ops := k\<rparr>" using id hr by metis
  have "snd (metadataRanges s) = snd (ref_ranges s)"
    by (simp add: metadataRanges_def qbind_def qret_def split: prod.splits sum.splits)
  moreover have "s' = s \<or> s' = snd (metadataRanges s)"
    using assms by (auto simp: validateHostData_def qbind_def qret_def qfail_def Let_def
        split: if_splits prod.splits sum.splits)
  ultimately show ?thesis using rr id by metis
qed


lemma data_entry:
  assumes "img_wf role s" "c div (im_cs s div 8) < length (im_l1 s)"
    "e = lookup (im_cs s) (im_l1 s) (im_file s) c" "\<not> is_zero e" "e_off e \<noteq> 0"
  shows "e_off e + im_cs s \<le> length (im_file s)" "g div im_cs s = c \<Longrightarrow> content bk s g = fb (im_file s) (e_off e + g mod im_cs s)"
proof -
  note cs = wf_cs [OF wfD(1) [OF assms(1)]]
  have "ent_ok (im_cs s) role (im_file s) c e"
    unfolding assms(3) by (rule lookup_ok [OF wfD(3) [OF assms(1)] cs(2,3) assms(2)])
  then show "e_off e + im_cs s \<le> length (im_file s)" using assms(4,5) by (simp add: ent_ok_def)
  show "content bk s g = fb (im_file s) (e_off e + g mod im_cs s)" if "g div im_cs s = c"
    using assms(3-5) that by (simp add: content_def content_of_def)
qed

lemma read_cluster_ok:
  assumes "read_cluster e (c * im_cs s) n s = (Inr buf, s')" "img_wf role s" "bk_ok bk s"
    "c div (im_cs s div 8) < length (im_l1 s)" "e = lookup (im_cs s) (im_l1 s) (im_file s) c" "\<not> is_zero e" "e_off e \<noteq> 0"
    "n \<le> im_cs s"
  shows "img_wf role s' \<and> same s s' \<and> length buf = n \<and> (\<forall>k < n. buf ! k = content bk s (c * im_cs s + k))"
proof (cases "is_copied e")
  case True
  obtain r s1 where v: "validateHostData (e_off e) n s = (r, s1)" by (cases "validateHostData (e_off e) n s")
  obtain bs err s2 where h: "host_pread (e_off e) n s1 = ((bs, err), s2)" by (metis surj_pair)
  have run: "r \<noteq> Inl x" "err = None" "buf = bs" "s' = s2" for x
    using assms(1) v h True by (auto simp: read_cluster_def qbind_def split: sum.splits option.splits if_splits)
  from validateHostData_frame [OF v] obtain k where k: "s1 = s\<lparr>im_ops := k\<rparr>" by blast
  note d = data_entry [OF assms(2,4-7)]
  have "e_off e + n \<le> length (im_file s1)" using d(1) assms(8) k by simp
  note p = host_pread_cases [OF h this]
  then have bs: "bs = map (fb (im_file s)) [e_off e..<e_off e + n]" and s2: "s2 = s\<lparr>im_ops := Suc k\<rparr>"
    using run(2) k by simp_all
  have "buf ! i = content bk s (c * im_cs s + i)" if "i < n" for i
    using d(2) [of "c * im_cs s + i" bk] that bs run(3) assms(8) by simp
  then show ?thesis using run s2 img_wf_ops [OF assms(2)] bs by simp
next
  case False
  obtain b m err s1 where r: "ReadAt (replicate n 0) (c * im_cs s) s = ((b, m, err), s1)" by (metis surj_pair)
  have run: "err = None" "\<not> m < n" "buf = b" "s' = s1"
    using assms(1) r False by (auto simp: read_cluster_def split: option.splits if_splits)
  show ?thesis using read_loop_ok [OF r [unfolded ReadAt_def] assms(2,3)] run by auto
qed

section \<open>The walk\<close>

text \<open>
  What holds when the clusters below \<open>c\<close> have been visited: the source is untouched, and the destination
  shows the source below \<open>c\<close> and the backing image from there on.
\<close>

definition walked :: "(nat \<Rightarrow> u8) \<Rightarrow> Img \<Rightarrow> nat \<Rightarrow> Img \<Rightarrow> Img \<Rightarrow> bool" where
  "walked bk s0 c src dst \<longleftrightarrow>
     (\<exists>role. img_wf role src) \<and> same s0 src \<and> bk_ok bk src \<and> (\<exists>role. img_wf role dst) \<and> bk_ok bk dst \<and>
     im_cs dst = im_cs s0 \<and> im_size dst = im_size s0 \<and>
     (\<forall>g < im_size s0. content bk dst g = (if g < c * im_cs s0 then content bk s0 g else bk g))"

lemma in_cluster: "0 < (cs::nat) \<Longrightarrow> g div cs = c \<longleftrightarrow> c * cs \<le> g \<and> g < (c + 1) * cs"
proof
  assume c: "0 < cs" "g div cs = c"
  show "c * cs \<le> g \<and> g < (c + 1) * cs"
    using div_times_less_eq_dividend [of g cs] dividend_less_div_times [OF c(1), of g] unfolding c(2) by (simp add: add.commute)
qed (auto intro!: div_nat_eqI simp: mult.commute)

text \<open>A step that leaves both images showing what they showed, on a cluster the source does not map.\<close>

lemma walked_skip:
  assumes "walked bk s0 c src dst" "c \<le> c'" "\<forall>g < im_size s0. c * im_cs s0 \<le> g \<and> g < c' * im_cs s0 \<longrightarrow> content bk s0 g = bk g"
  shows "walked bk s0 c' src dst"
proof -
  have le: "g < c * im_cs s0 \<Longrightarrow> g < c' * im_cs s0" for g
    by (erule less_le_trans) (use assms(2) in simp)
  have "content bk dst g = (if g < c' * im_cs s0 then content bk s0 g else bk g)" if "g < im_size s0" for g
    using assms(1,3) that le [of g] by (cases "g < c * im_cs s0") (simp_all add: walked_def)
  then show ?thesis using assms(1) unfolding walked_def by blast
qed

text \<open>A step that gives cluster \<open>c\<close> of the destination the bytes of the source.\<close>

lemma walked_step:
  assumes "walked bk s0 c src dst" "\<exists>role. img_wf role src'" "same src src'" "\<exists>role. img_wf role dst'" "geq dst dst'"
    "\<forall>g < im_size s0. content bk dst' g = (if g div im_cs s0 = c then content bk s0 g else content bk dst g)" "0 < im_cs s0"
  shows "walked bk s0 (c + 1) src' dst'"
proof -
  note w = assms(1) [unfolded walked_def]
  have "content bk dst' g = (if g < (c + 1) * im_cs s0 then content bk s0 g else bk g)" if "g < im_size s0" for g
    using assms(6) w that in_cluster [OF assms(7), of g c] by auto
  moreover have "same s0 src'" "bk_ok bk src'" using w assms(3) same_trans same_eqs(7) [OF assms(3)] by blast+
  ultimately show ?thesis using w assms(2,4) geq_eqs [OF assms(5)] unfolding walked_def by metis
qed

lemma size_cluster:
  assumes "img_wf role s" "c * im_cs s < im_size s"
  shows "c div (im_cs s div 8) < length (im_l1 s)"
proof -
  note geo = wfD(1) [OF assms(1)]
  have "c * im_cs s < l1_span s" using assms(2) size_span [OF geo] by simp
  from span_l1 [OF this] show ?thesis using wf_cs(3) [OF geo] by simp
qed

lemma put_zero_ok:
  assumes "put_zero c (src', dst, st) = (Ok (), (src2, dst', st'))" "walked bk s0 c src dst" "img_wf role src'" "same src src'"
    "\<forall>g < im_size s0. g div im_cs s0 = c \<longrightarrow> content bk s0 g = 0" "c * im_cs s0 < im_size s0"
  shows "walked bk s0 (c + 1) src2 dst'"
proof -
  note w = assms(2) [unfolded walked_def]
  then obtain rd where rd: "img_wf rd dst" and d: "im_cs dst = im_cs s0" "im_size dst = im_size s0" by blast
  have src: "src2 = src'" and e: "setL2Entry c oflagZero dst = (Inr (), dst')"
    using assms(1) by (auto simp: put_zero_def split: prod.splits sum.splits)
  have "c div (im_cs dst div 8) < length (im_l1 dst)" using size_cluster [OF rd] assms(6) d by simp
  from setL2Entry_zero [OF e rd this] obtain role' where z: "img_wf role' dst'" "geq dst dst'"
    "\<forall>bk g. g < l1_span dst \<longrightarrow> content bk dst' g = (if g div im_cs dst = c then 0 else content bk dst g)" by auto
  have "im_size s0 \<le> l1_span dst" using size_span [OF wfD(1) [OF rd]] d by simp
  then have "\<forall>g < im_size s0. content bk dst' g = (if g div im_cs s0 = c then content bk s0 g else content bk dst g)"
    using z(3) assms(5) d by auto
  then show ?thesis
    using walked_step [OF assms(2) exI, where src' = src' and dst' = dst'] assms(3,4) z(1,2) src wf_cs(3) [OF wfD(1) [OF rd]] d by auto
qed

lemma compact_entry_ok:
  assumes "compact_entry c e (src, dst, st) = (Ok (), (src', dst', st'))" "walked bk s0 c src dst"
    "e = lookup (im_cs s0) (im_l1 s0) (im_file s0) c" "c * im_cs s0 < 2 ^ 64"
  shows "walked bk s0 (c + 1) src' dst'"
proof -
  note w = assms(2) [unfolded walked_def]
  then obtain rs rd where rs: "img_wf rs src" and rd: "img_wf rd dst" and sm: "same s0 src" and bs: "bk_ok bk src"
    and bd: "bk_ok bk dst" and d: "im_cs dst = im_cs s0" "im_size dst = im_size s0" by blast
  note eq = same_eqs [OF sm]
  have sz: "im_size src = im_size s0" "im_l1 src = im_l1 s0" "im_file src = im_file s0" using sm by (simp_all add: same_def)
  have cs: "0 < im_cs s0" using wf_cs(3) [OF wfD(1) [OF rs]] eq(1) by simp
  note ic = in_cluster [OF cs, of _ c]
  have co: "content bk s0 g = (if is_zero e then 0 else if e_off e = 0 then bk g else fb (im_file s0) (e_off e + g mod im_cs s0))"
    if "g div im_cs s0 = c" for g using that assms(3) by (simp add: content_def content_of_def)
  have off: "c * im_cs s0 mod 2 ^ 64 = c * im_cs s0" using assms(4) by simp
  note run = assms(1) [unfolded compact_entry_def Let_def split_conv eq(1) sz(1), unfolded off]
  consider (skip) "src' = src" "dst' = dst" "e = 0 \<or> im_size s0 \<le> c * im_cs s0 \<or> \<not> is_zero e \<and> e_off e = 0"
    | (zero) "is_zero e" "put_zero c (src, dst, st) = (Ok (), (src', dst', st'))" "c * im_cs s0 < im_size s0"
    | (data) "\<not> is_zero e" "e_off e \<noteq> 0" "c * im_cs s0 < im_size s0"
    using run by (auto simp: drop_n_def split: if_splits)
  then show ?thesis
  proof cases
    case skip
    have "is_zero 0 = False" "e_off 0 = 0" by (simp_all add: is_zero_def e_off_def)
    then have "\<forall>g < im_size s0. c * im_cs s0 \<le> g \<and> g < (c + 1) * im_cs s0 \<longrightarrow> content bk s0 g = bk g"
      using skip(3) co ic by (metis le_trans linorder_not_less)
    then show ?thesis using walked_skip [OF assms(2)] skip by simp
  next
    case zero
    then show ?thesis using put_zero_ok [OF zero(2) assms(2) rs] co by simp
  next
    case data
    define n where "n = min (im_cs s0) (im_size s0 - c * im_cs s0)"
    have nz: "\<not> e = 0" "\<not> is_compressed e" "\<not> im_size s0 \<le> c * im_cs s0"
      using data run by (auto simp: e_off_def split: if_splits)
    obtain buf src1 where rc: "read_cluster e (c * im_cs s0) n src = (Inr buf, src1)"
      and run2: "(if allZero buf then put_zero c (src1, dst, st)
               else (case WriteAt buf (c * im_cs s0) dst of
                       ((m, Some err), dst1) \<Rightarrow> (Err err, (src1, dst1, st))
                     | ((m, None), dst1) \<Rightarrow> (Ok (), (src1, dst1, st\<lparr>cp_Copied := cp_Copied st + 1\<rparr>)))) = (Ok (), (src', dst', st'))"
      using run data nz by (auto simp: n_def split: prod.splits sum.splits)
    have l: "c div (im_cs src div 8) < length (im_l1 src)" using size_cluster [OF rs] data(3) eq(1) sz(1) by simp
    have "img_wf rs src1 \<and> same src src1 \<and> length buf = n \<and> (\<forall>k < n. buf ! k = content bk s0 (c * im_cs s0 + k))"
      using read_cluster_ok [OF _ rs bs l _ data(1,2)] rc assms(3) eq(1,6) sz by (simp add: n_def)
    then have r: "img_wf rs src1" "same src src1" "length buf = n" and b: "\<And>k. k < n \<Longrightarrow> buf ! k = content bk s0 (c * im_cs s0 + k)"
      by blast+
    have rng: "g div im_cs s0 = c \<longleftrightarrow> c * im_cs s0 \<le> g \<and> g < c * im_cs s0 + n" if "g < im_size s0" for g
      unfolding ic n_def using that by auto
    have inn: "g - c * im_cs s0 < n" "c * im_cs s0 \<le> g" if "g < im_size s0" "g div im_cs s0 = c" for g
      using that(2) unfolding rng [OF that(1)] by linarith+
    show ?thesis
    proof (cases "allZero buf")
      case True
      then have "buf ! k = 0" if "k < n" for k using allZero_bytes [of buf] r(3) that by (simp add: r(3))
      then have "content bk s0 g = 0" if "g < im_size s0" "g div im_cs s0 = c" for g
        using inn [OF that] b [of "g - c * im_cs s0"] by simp
      then show ?thesis using run2 True data(3) by (intro put_zero_ok [OF _ assms(2) r(1,2)]) simp_all
    next
      case False
      then obtain m where wr: "write_loop buf (c * im_cs s0) dst = ((m, None), dst')" and s1: "src' = src1"
        using run2 by (auto simp: WriteAt_def split: prod.splits option.splits)
      from write_loop_ok [OF wr rd bd] obtain role' where q: "img_wf role' dst'" "geq dst dst'" "m = length buf"
        "\<forall>g. g < im_size dst \<or> c * im_cs s0 \<le> g \<and> g < c * im_cs s0 + m \<longrightarrow> content bk dst' g =
           (if c * im_cs s0 \<le> g \<and> g < c * im_cs s0 + m then buf ! (g - c * im_cs s0) else content bk dst g)" by auto
      have "content bk dst' g = (if g div im_cs s0 = c then content bk s0 g else content bk dst g)" if "g < im_size s0" for g
      proof -
        have "content bk dst' g = (if g div im_cs s0 = c then buf ! (g - c * im_cs s0) else content bk dst g)"
          unfolding rng [OF that] using q(3) q(4) [rule_format, of g] r(3) that d(2) by simp
        then show ?thesis using inn [OF that] b [of "g - c * im_cs s0"] by (cases "g div im_cs s0 = c") simp_all
      qed
      then show ?thesis unfolding s1 by (intro walked_step [OF assms(2) exI r(2) exI q(2) _ cs, OF r(1) q(1)]) simp
    qed
  qed
qed


lemma compact_entries_ok:
  assumes "compact_entries live m i tbl [j..<m] (src, dst, st) = (Ok (), (src', dst', st'))" "walked bk s0 (i * m + j) src dst"
    "j \<le> m" "\<forall>j < m. be_get (take 8 (drop (j * 8) tbl)) = lookup (im_cs s0) (im_l1 s0) (im_file s0) (i * m + j)"
    "(i * m + m) * im_cs s0 \<le> 2 ^ 64" "0 < im_cs s0"
  shows "walked bk s0 (i * m + m) src' dst'"
  using assms(1-3)
proof (induction "m - j" arbitrary: j src dst st)
  case 0
  then show ?case by simp
next
  case (Suc k)
  then have j: "j < m" "k = m - Suc j" by simp_all
  obtain r st1 where e: "compact_entry (i * m + j) (be_get (take 8 (drop (j * 8) tbl))) (src, dst, st) = (r, st1)"
    by (cases "compact_entry (i * m + j) (be_get (take 8 (drop (j * 8) tbl))) (src, dst, st)")
  obtain src1 dst1 st2 where s: "st1 = (src1, dst1, st2)" by (cases st1)
  have run: "r = Ok ()" "compact_entries live m i tbl [Suc j..<m] (src1, dst1, st2) = (Ok (), (src', dst', st'))"
    using Suc.prems(1) e s unfolding upt_conv_Cons [OF j(1)] by (auto split: if_splits go.splits)
  have "(i * m + j) * im_cs s0 < (i * m + m) * im_cs s0" using j(1) assms(6) by simp
  then have "(i * m + j) * im_cs s0 < 2 ^ 64" using assms(5) by linarith
  from compact_entry_ok [OF e [unfolded run(1) s] Suc.prems(2) _ this]
  have "walked bk s0 (i * m + Suc j) src1 dst1" using assms(4) j(1) by simp
  then show ?case using Suc.hyps(1) [OF j(2) run(2)] j(1) by simp
qed

lemma walked_ops:
  assumes "walked bk s0 c src dst"
  shows "walked bk s0 c (src\<lparr>im_ops := n\<rparr>) dst"
proof -
  have "same s0 (src\<lparr>im_ops := n\<rparr>)" using assms same_ops same_trans unfolding walked_def by blast
  moreover have "bk_ok bk (src\<lparr>im_ops := n\<rparr>) = bk_ok bk src" by (rule same_eqs(7)) simp
  ultimately show ?thesis using assms img_wf_ops unfolding walked_def by blast
qed

lemma slot_lookup:
  assumes "0 < m" "m = cs div 8" "j < m"
  shows "lookup cs l1 f (i * m + j) = (if e_off (l1 ! i) = 0 then 0 else be8 f (e_off (l1 ! i) + 8 * j))"
proof -
  have "(i * m + j) div m = i" "(i * m + j) mod m = j" using assms by simp_all
  then show ?thesis by (simp add: lookup_def assms(2) [symmetric])
qed

lemma compact_slot_ok:
  assumes "compact_slot live i (src, dst, st) = (Ok (), (src', dst', st'))" "m = im_cs s0 div 8" "walked bk s0 (i * m) src dst"
    "i < length (im_l1 s0)" "l1_span s0 \<le> 2 ^ 64"
  shows "walked bk s0 (Suc i * m) src' dst'"
proof -
  note w = assms(3) [unfolded walked_def]
  then obtain rs where rs: "img_wf rs src" and sm: "same s0 src" by blast
  note eq = same_eqs [OF sm]
  have f: "im_l1 src = im_l1 s0" "im_file src = im_file s0" using sm by (simp_all add: same_def)
  note cs = wf_cs [OF wfD(1) [OF rs], unfolded eq(1)]
  have m: "0 < m" "8 * m = im_cs s0" using cs(4,5) assms(2) by simp_all
  have "Suc i * m * im_cs s0 \<le> length (im_l1 s0) * m * im_cs s0"
    using assms(4) by (intro mult_le_mono) auto
  from le_trans [OF this assms(5) [unfolded l1_span_def, folded assms(2)]]
  have cap: "(i * m + m) * im_cs s0 \<le> 2 ^ 64" unfolding mult_Suc add.commute [of m] .
  obtain r src1 where rd: "readUint64At (im_l1Offset src + i * 8) src = (r, src1)"
    by (cases "readUint64At (im_l1Offset src + i * 8) src")
  have "r = Inr (im_l1 s0 ! i)"
    using rd wfD(4) [OF rs] assms(1,4) f
    by (cases rule: readUint64At_cases) (auto simp: compact_slot_def Let_def wf_l1_def rd)
  note r = this readUint64At_frame [OF rd]
  have w1: "walked bk s0 (i * m) src1 dst" unfolding r(2) by (rule walked_ops [OF assms(3)])
  note run = assms(1) [unfolded compact_slot_def Let_def split_conv rd r(1) sum.case eq(1), folded assms(2)]
  note sl = slot_lookup [OF m(1) assms(2)]
  show ?thesis
  proof (cases "e_off (im_l1 s0 ! i) = 0")
    case True
    have "content bk s0 g = bk g" if g: "i * m * im_cs s0 \<le> g" "g < (i * m + m) * im_cs s0" for g
    proof -
      have c: "i * m \<le> g div im_cs s0" "g div im_cs s0 < i * m + m"
        using g cs(3) by (simp_all add: less_eq_div_iff_mult_less_eq div_less_iff_less_mult)
      have "lookup (im_cs s0) (im_l1 s0) (im_file s0) (g div im_cs s0) = 0"
        using sl [of "g div im_cs s0 - i * m" "im_l1 s0" "im_file s0" i] c True by simp
      then show ?thesis by (simp add: content_def content_of_def is_zero_def e_off_def)
    qed
    then have "walked bk s0 (i * m + m) src1 dst" by (intro walked_skip [OF w1]) simp_all
    then show ?thesis using run True by (simp add: drop_n_def add.commute)
  next
    case False
    obtain bs err src2 where h: "host_pread (e_off (im_l1 s0 ! i)) (im_cs s0) src1 = ((bs, err), src2)" by (metis surj_pair)
    have t: "e_off (im_l1 s0 ! i) + im_cs s0 \<le> length (im_file src1)"
      using wfD(3) [OF rs] assms(4) False f r(2) by (simp add: wf_map_def tbl_ok_def eq(1))
    note p = host_pread_cases [OF h t]
    have e: "compact_entries live m i bs [0..<m] (src2, dst, st) = (Ok (), (src', dst', st'))" and len: "\<not> length bs < im_cs s0"
      using run False h by (auto split: if_splits)
    have bs: "bs = map (fb (im_file s0)) [e_off (im_l1 s0 ! i)..<e_off (im_l1 s0 ! i) + im_cs s0]"
      and s2: "src2 = src1\<lparr>im_ops := Suc (im_ops src1)\<rparr>"
      using p len cs(3) f r(2) by auto
    have "decode_table m bs = table (im_cs s0) (im_file s0) (e_off (im_l1 s0 ! i))"
      unfolding bs assms(2) by (rule decode_table_fb [OF cs(2)])
    then have "map (\<lambda>j. be_get (take 8 (drop (j * 8) bs))) [0..<m] = map (\<lambda>j. be8 (im_file s0) (e_off (im_l1 s0 ! i) + 8 * j)) [0..<m]"
      by (simp add: decode_table_def table_def assms(2))
    then have tb: "\<forall>j < m. be_get (take 8 (drop (j * 8) bs)) = lookup (im_cs s0) (im_l1 s0) (im_file s0) (i * m + j)"
      using sl [of _ "im_l1 s0" "im_file s0" i] False by simp
    have "walked bk s0 (i * m + 0) src2 dst" unfolding s2 using walked_ops [OF w1] by simp
    from compact_entries_ok [OF e this _ tb cap cs(3)] show ?thesis by (simp add: add.commute)
  qed
qed

lemma compact_slots_ok:
  assumes "compact_slots live [i..<length (im_l1 s0)] (src, dst, st) = (Ok (), (src', dst', st'))" "m = im_cs s0 div 8"
    "walked bk s0 (i * m) src dst" "i \<le> length (im_l1 s0)" "l1_span s0 \<le> 2 ^ 64"
  shows "walked bk s0 (length (im_l1 s0) * m) src' dst'"
  using assms(1,3,4)
proof (induction "length (im_l1 s0) - i" arbitrary: i src dst st)
  case 0
  then show ?case by simp
next
  case (Suc k)
  then have i: "i < length (im_l1 s0)" "k = length (im_l1 s0) - Suc i" by simp_all
  obtain r src1 dst1 st1 where e: "compact_slot live i (src, dst, st) = (r, (src1, dst1, st1))" by (metis surj_pair)
  have run: "r = Ok ()" "compact_slots live [Suc i..<length (im_l1 s0)] (src1, dst1, st1) = (Ok (), (src', dst', st'))"
    using Suc.prems(1) e unfolding upt_conv_Cons [OF i(1)] by (auto split: if_splits go.splits)
  from compact_slot_ok [OF e [unfolded run(1)] assms(2) Suc.prems(2) i(1) assms(5)]
  show ?case using Suc.hyps(1) [OF i(2) run(2)] i(1) by simp
qed

lemma compactWalk_ok:
  assumes "compactWalk live (length (im_l1 src)) src dst st = (Ok (), (src', dst', st'))" "img_wf rs src" "bk_ok bk src"
    "img_wf rd dst" "bk_ok bk dst" "im_cs dst = im_cs src" "im_size dst = im_size src"
    "\<forall>g < im_size src. content bk dst g = bk g" "l1_span src \<le> 2 ^ 64"
  shows "(\<exists>role. img_wf role dst') \<and> bk_ok bk dst' \<and> im_size dst' = im_size src \<and>
    (\<forall>g < im_size src. content bk dst' g = content bk src g)"
proof -
  let ?m = "im_cs src div 8"
  have "walked bk src (0 * ?m) src dst" using assms(2-8) unfolding walked_def by auto
  from compact_slots_ok [OF assms(1) [unfolded compactWalk_def] refl this _ assms(9)]
  have w: "walked bk src (length (im_l1 src) * ?m) src' dst'" by simp
  have "im_size src \<le> length (im_l1 src) * ?m * im_cs src"
    using size_span [OF wfD(1) [OF assms(2)]] by (simp add: l1_span_def)
  then show ?thesis using w unfolding walked_def by auto
qed


section \<open>The new image\<close>

text \<open>What an opened qcow2 image was parsed from.\<close>

lemma opened_parts:
  assumes "openGuestImageDepth env p depth visited = Ok (GQcow q b)"
  obtains f h fmt name hb where "e_fs env p = Some f" "hf_key f \<notin> set visited" "sniff f = Ok (Some (hb, h, fmt))"
    "finish f h fmt name b = Ok (GQcow q b)" "qi_name q = name" "qi_fmt q = fmt" "qi_hdr q = h" "qi_file q = f"
    "b = None \<and> h_bfSize h = 0 \<or> (\<exists>real img. b = Some (real, img) \<and> parse_name (hf_data f) h = Ok name \<and> h_bfSize h \<noteq> 0 \<and>
       backingPathAllowed (e_eval env) (e_static env) (e_roots env) p (abs_backing p name) = Ok real \<and>
       openGuestImageDepth env real (depth + 1) (hf_key f # visited) = Ok img \<and> (fmt \<noteq> '''' \<longrightarrow> Format img = fmt))"
proof -
  note opened = assms(1) [unfolded openGuestImageDepth.simps [of env p depth visited]]
  have fin: "b' = b \<and> qi_name q = n' \<and> qi_fmt q = fm' \<and> qi_hdr q = h' \<and> qi_file q = f'"
    if "finish f' h' fm' n' b' = Ok (GQcow q b)" for f' h' fm' n' b' using that by (auto simp: finish_def)
  obtain f hb h fmt where s: "e_fs env p = Some f" "hf_key f \<notin> set visited" "sniff f = Ok (Some (hb, h, fmt))"
    using opened by (auto split: if_splits option.splits go.splits)
  show ?thesis
  proof (cases "h_bfSize h = 0")
    case True
    then have "finish f h fmt '''' None = Ok (GQcow q b)" using opened s by (simp split: if_splits)
    with fin [OF this] True that [OF s, of "''''"] show ?thesis by simp
  next
    case False
    then obtain name real img where n: "parse_name (hf_data f) h = Ok name"
      "backingPathAllowed (e_eval env) (e_static env) (e_roots env) p (abs_backing p name) = Ok real"
      "openGuestImageDepth env real (depth + 1) (hf_key f # visited) = Ok img" "fmt \<noteq> '''' \<longrightarrow> Format img = fmt"
      "finish f h fmt name (Some (real, img)) = Ok (GQcow q b)"
      using opened s by (auto split: go.splits if_splits)
    with fin [OF n(5)] False that [OF s, of name] show ?thesis by auto
  qed
qed

text \<open>A chain that opens still opens to the same images next to a new file with a new inode.\<close>

lemma open_beside:
  assumes "openGuestImageDepth env p depth visited = Ok img" "e_fs env tmp = None" "\<forall>p f. e_fs env p = Some f \<longrightarrow> hf_key f \<noteq> key"
    "set visited' \<subseteq> insert key (set visited)"
  shows "openGuestImageDepth (with_file env tmp key d) p depth visited' = Ok img"
  using assms
proof (induction env p depth visited arbitrary: img visited' rule: openGuestImageDepth.induct)
  case (1 env p depth visited)
  let ?e = "with_file env tmp key d"
  note opened = "1.prems"(1) [unfolded openGuestImageDepth.simps [of env p depth visited]]
  have d: "\<not> maxBackingChainDepth < depth" using opened by (auto split: if_splits)
  obtain f where f: "e_fs env p = Some f" "hf_key f \<notin> set visited"
    using opened d by (auto split: option.splits if_splits)
  have "p \<noteq> tmp" using f(1) "1.prems"(2) by auto
  then have f': "e_fs ?e p = Some f" using f(1) by (simp add: with_file_def)
  have k: "hf_key f \<notin> set visited'" using f "1.prems"(3,4) by blast
  have env: "e_eval ?e = e_eval env" "e_static ?e = e_static env" "e_roots ?e = e_roots env" by (simp_all add: with_file_def)
  note start = openGuestImageDepth.simps [of ?e p depth visited']
  show ?case
  proof (cases "\<exists>hb h fmt. sniff f = Ok (Some (hb, h, fmt)) \<and> h_bfSize h \<noteq> 0")
    case False
    then show ?thesis using opened d f f' k by (auto simp: start split: go.splits option.splits)
  next
    case True
    then obtain hb h fmt where s: "sniff f = Ok (Some (hb, h, fmt))" "h_bfSize h \<noteq> 0" by blast
    then obtain name real backing where n: "parse_name (hf_data f) h = Ok name"
      "backingPathAllowed (e_eval env) (e_static env) (e_roots env) p (abs_backing p name) = Ok real"
      "openGuestImageDepth env real (depth + 1) (hf_key f # visited) = Ok backing"
      "fmt \<noteq> '''' \<longrightarrow> Format backing = fmt" "finish f h fmt name (Some (real, backing)) = Ok img"
      using opened d f by (auto split: go.splits if_splits)
    have "openGuestImageDepth ?e real (depth + 1) (hf_key f # visited') = Ok backing"
      using "1.IH" [OF d f s(1) refl refl refl s(2) n(1,2,3) "1.prems"(2,3), of "hf_key f # visited'"] "1.prems"(4) by auto
    then show ?thesis using d f' k s n env by (auto simp: start)
  qed
qed

lemma opened_isQcow2:
  assumes "openGuestImageDepth env p depth visited = Ok img"
  shows "isQcow2 env p \<longleftrightarrow> Format img = ''qcow2''" "Format img = ''qcow2'' \<or> Format img = ''raw''"
proof -
  note opened = assms [unfolded openGuestImageDepth.simps [of env p depth visited]]
  obtain f where f: "e_fs env p = Some f" using opened by (auto split: option.splits if_splits)
  have "img = GRaw f' \<Longrightarrow> sniff f = Ok None" for f'
    using opened f by (auto simp: finish_def split: go.splits option.splits if_splits)
  moreover have "img = GQcow q b \<Longrightarrow> sniff f \<noteq> Ok None" for q b using opened f by (auto split: if_splits)
  moreover have "sniff f = Ok None \<Longrightarrow> take 4 (hf_data f) \<noteq> qcow2Magic"
    by (auto simp: sniff_def readN_def split: if_splits)
  moreover have "sniff f = Ok (Some x) \<Longrightarrow> take 4 (hf_data f) = qcow2Magic" for x
    by (auto simp: sniff_def readN_def split: if_splits)
  moreover have "\<exists>y. sniff f = Ok y" using opened f by (auto split: go.splits if_splits)
  ultimately show "isQcow2 env p \<longleftrightarrow> Format img = ''qcow2''" using f
    by (cases img) (auto simp: isQcow2_def)
  show "Format img = ''qcow2'' \<or> Format img = ''raw''" by (cases img) simp_all
qed


lemma opened_span:
  assumes "openGuestImage env p = Ok (GQcow q b)"
  shows "length (qi_l1 q) * (h_cs (qi_hdr q) div 8) * h_cs (qi_hdr q) \<le> 2 ^ 64"
proof -
  obtain f h fmt name hb where o: "sniff f = Ok (Some (hb, h, fmt))" "finish f h fmt name b = Ok (GQcow q b)" "qi_hdr q = h"
    by (rule opened_parts [OF assms [unfolded openGuestImage_def]]) simp
  note pb = parse_header_bounds [OF sniff_header [OF o(1)]]
  define cs u where "cs = h_cs h" and "u = cs div 8 * cs"
  have cs: "512 \<le> cs" "cs \<le> 2 ^ 21"
    unfolding cs_def h_cs_def using power_increasing [OF pb(1), of "2::nat"] power_increasing [OF pb(2), of "2::nat"] by simp_all
  have u: "0 < u" "u \<le> 2 ^ 18 * 2 ^ 21" unfolding u_def using cs by (simp, intro mult_le_mono) simp_all
  have "h_size h < 2 ^ 64" using pb(5) by (simp add: maxVirtualSize_def)
  then have "length (qi_l1 q) = ceil_div (h_size h) u"
    using o(2) divCeil_eq [OF _ u(1), of "h_size h"]
    by (auto simp: finish_def load_l1_def Let_def cs_def [symmetric] u_def split: if_splits)
  then have "length (qi_l1 q) * u < h_size h + u" using ceil_div_bounds(2) [OF u(1), of "h_size h"] u(1) by simp
  then have "length (qi_l1 q) * u \<le> 2 ^ 64" using u(2) pb(5) by (simp add: maxVirtualSize_def)
  then show ?thesis by (simp add: o(3) u_def cs_def mult.assoc)
qed

lemma compact_reopens:
  assumes "openGuestImage env p = Ok (GQcow q b)" "e_fs env (tmp_path p) = None" "\<forall>p f. e_fs env p = Some f \<longrightarrow> hf_key f \<noteq> key"
    "compact_backing env q b = (name, fmt)"
  shows "opened_backing (with_file env (tmp_path p) key d) (tmp_path p) \<lparr>hf_data = d, hf_key = key, hf_mode = 0\<rparr> name fmt b"
proof (cases b)
  case None
  then show ?thesis using assms(4) by (simp add: compact_backing_def opened_backing_def)
next
  case (Some x)
  let ?e = "with_file env (tmp_path p) key d"
  obtain f :: hfile and h :: qcow2Header and fmt' name' where p: "qi_name q = name'" "qi_fmt q = fmt'" "b = None \<and> h_bfSize h = 0 \<or>
      (\<exists>real img. b = Some (real, img) \<and> parse_name (hf_data f) h = Ok name' \<and> h_bfSize h \<noteq> 0 \<and>
       backingPathAllowed (e_eval env) (e_static env) (e_roots env) p (abs_backing p name') = Ok real \<and>
       openGuestImageDepth env real (0 + 1) [hf_key f] = Ok img \<and> (fmt' \<noteq> '''' \<longrightarrow> Format img = fmt'))"
    by (rule opened_parts [OF assms(1) [unfolded openGuestImage_def]]) blast
  then obtain real img where o: "qi_name q = name'" "qi_fmt q = fmt'" "b = Some (real, img)"
      "parse_name (hf_data f) h = Ok name'"
      "backingPathAllowed (e_eval env) (e_static env) (e_roots env) p (abs_backing p name') = Ok real"
      "openGuestImageDepth env real 1 [hf_key f] = Ok img" "fmt' \<noteq> '''' \<longrightarrow> Format img = fmt'"
    using Some by auto
  have v: "validateBackingName name' = Ok ()" using o(4) by (auto simp: parse_name_def split: if_splits)
  then have n: "name' \<noteq> ''''" by (auto simp: validateBackingName_def)
  have en: "e_eval ?e = e_eval env" "e_static ?e = e_static env" "e_roots ?e = e_roots env" by (simp_all add: with_file_def)
  have d: "Dir (tmp_path p) = Dir p" by (simp add: Dir_def tmp_path_def)
  have r: "backingPathAllowed (e_eval ?e) (e_static ?e) (e_roots ?e) (tmp_path p) (abs_backing (tmp_path p) name') = Ok real"
    using o(5) unfolding backingPathAllowed_def abs_backing_def d en .
  have i: "openGuestImageDepth ?e real 1 [key] = Ok img" by (rule open_beside [OF o(6) assms(2,3)]) simp
  note q = opened_isQcow2 [OF o(6)]
  have nm: "name = name'" and fm: "fmt = Format img"
    using assms(4) o(1-3,7) n q by (auto simp: compact_backing_def split: if_splits)
  show ?thesis using v n r i q(2) by (auto simp: opened_backing_def nm fm o(3))
qed

lemma compact_build_ok:
  assumes "compact_build env p live sio cio dio key (compact_backing env q b) q b st = Ok (dst, st')"
    "openGuestImage env p = Ok (GQcow q b)" "e_fs env (tmp_path p) = None" "\<forall>p f. e_fs env p = Some f \<longrightarrow> hf_key f \<noteq> key"
    and s: "s = q_img sio q (map_option (reader \<circ> snd) b)" and w: "img_wf role s" "bk_ok bk s"
    and h: "h_l1Size (qi_hdr q) = length (qi_l1 q)" "h_bits (qi_hdr q) \<le> 16"
  shows "(\<exists>role. img_wf role dst) \<and> bk_ok bk dst \<and> im_size dst = im_size s \<and> (\<forall>g < im_size s. content bk dst g = content bk s g)"
proof -
  let ?o = "\<lparr>oo_ClusterBits = h_bits (qi_hdr q), oo_PreallocMetadata = False\<rparr>"
  obtain name fmt where cb: "compact_backing env q b = (name, fmt)" by fastforce
  obtain d where c: "createQcow2 cio (h_size (qi_hdr q)) name fmt ?o [] = (Ok (), d)"
    using assms(1) by (auto simp: compact_build_def cb Let_def split: prod.splits go.splits)
  let ?f = "\<lparr>hf_data = d, hf_key = key, hf_mode = 0\<rparr>" and ?env = "with_file env (tmp_path p) key d"
  obtain bw where op: "OpenWritable ?env (e_fs ?env) dio (tmp_path p) = Ok bw"
    and run: "(case bw of BRaw f \<Rightarrow> Err ''dest is not a qcow2 writable''
           | BQcow dst \<Rightarrow>
               (case compactWalk live (h_l1Size (qi_hdr q)) s dst st of
                  (Ok _, (src1, dst1, stats1)) \<Rightarrow> Ok (dst1, stats1)
                | (Err e, _) \<Rightarrow> Err e
                | (Panic, _) \<Rightarrow> Panic)) = Ok (dst, st')"
    using assms(1) c by (auto simp: compact_build_def cb Let_def s [symmetric])
  have fs: "e_fs ?env (tmp_path p) = Some ?f" and fd: "hf_data ?f = d" by (simp_all add: with_file_def)
  have im: "im_bits s = h_bits (qi_hdr q)" "im_size s = h_size (qi_hdr q)" "im_l1 s = qi_l1 q"
    "im_backing s = map_option (reader \<circ> snd) b" by (simp_all add: s q_img_def)
  have nz: "h_bits (qi_hdr q) \<noteq> 0" using wfD(1) [OF w(1)] im(1) by (simp add: wf_geom_def)
  have bt: "h_bits (qi_hdr q) = (if oo_ClusterBits ?o = 0 then clusterBits else oo_ClusterBits ?o)" using nz by simp
  obtain s0 rd where s0: "bw = BQcow s0" "img_wf rd s0" "im_size s0 = h_size (qi_hdr q)" "im_bits s0 = h_bits (qi_hdr q)"
    "im_backing s0 = map_option (reader \<circ> snd) b" "\<forall>bytes. \<forall>g < h_size (qi_hdr q). content bytes s0 g = bytes g"
    by (rule created_opened [OF c fs fd bt h(2) op compact_reopens [OF assms(2-4) cb]]) simp
  obtain src1 where wk: "compactWalk live (length (im_l1 s)) s s0 st = (Ok (), (src1, dst, st'))"
    using run s0(1) h(1) im(3) by (auto split: prod.splits go.splits)
  have "bk_ok bk s0" using w(2) s0(5) im(4) by (simp add: bk_ok_def)
  moreover have "l1_span s \<le> 2 ^ 64"
    using opened_span [OF assms(2)] by (simp add: l1_span_def im_cs_def im h_cs_def)
  ultimately show ?thesis
    using s0(3,4,6) im(1,2) by (intro compactWalk_ok [OF wk w s0(2)]) (simp_all add: im_cs_def)
qed


section \<open>Properties\<close>

lemma Compact_run:
  assumes "Compact env cwd pre live sio cio dio key file = (Ok stats, env')" "p = Abs cwd file"
    "openGuestImage env p = Ok (GQcow q b)" "e_fs env (tmp_path p) = None"
  obtains st0 st dst st' where "e_fs env p = Some st0"
    "compact_build env p live sio cio dio key (compact_backing env q b) q b st = Ok (dst, st')"
    "env' = env\<lparr>e_fs := (e_fs env)(p := Some \<lparr>hf_data = im_file dst, hf_key = key, hf_mode = hf_mode st0\<rparr>)\<rparr>"
proof -
  have e: "env\<lparr>e_fs := (e_fs env)(tmp_path p := None)\<rparr> = env" using assms(4) by (simp add: fun_upd_idem)
  obtain st0 q' b' where c: "compact_source env cwd pre file = Ok (st0, q', b')"
    using assms(1) by (auto simp: Compact_def Let_def split: go.splits)
  have "e_fs env p = Some st0" "q' = q" "b' = b"
    using c assms(3) by (auto simp: compact_source_def assms(2) [symmetric] Let_def split: go.splits if_splits option.splits)
  then show ?thesis
    using assms(1) c that by (auto simp: Compact_def Let_def assms(2) [symmetric] e split: go.splits if_splits)
qed



lemma readUint64At_in:
  assumes "im_io s (im_ops s)" "off + 8 \<le> length (im_file s)"
  shows "readUint64At off s = (Inr (be8 (im_file s) off), s\<lparr>im_ops := Suc (im_ops s)\<rparr>)"
  using assms take_drop_fb [OF assms(2)]
  by (simp add: readUint64At_def qbind_def qret_def host_read_def host_pread_def raw_ReadAt_def Let_def be8_def)

text \<open>A new standalone image with one empty L1 slot.\<close>

definition small_opt :: OverlayOpt where
  "small_opt = \<lparr>oo_ClusterBits = 9, oo_PreallocMetadata = False\<rparr>"

lemma small_image:
  obtains d q role where "createQcow2 (\<lambda>n. True) 32768 '''' '''' small_opt [] = (Ok (), d)"
    "openGuestImage (demo_env d) [''i'', ''o''] = Ok (GQcow q None)" "img_wf role (q_img (\<lambda>n. True) q None)"
    "qi_l1 q = [0]" "h_l1Size (qi_hdr q) = 1" "h_bits (qi_hdr q) = 9" "h_size (qi_hdr q) = 32768"
    "h_snapshots (qi_hdr q) = 0" "h_snapshotsOffset (qi_hdr q) = 0" "h_l1Offset (qi_hdr q) + 8 \<le> length (hf_data (qi_file q))"
    "isQcow2 (demo_env d) [''i'', ''o'']"
proof -
  have "\<exists>d. createQcow2 (\<lambda>n. True) 32768 '''' '''' small_opt [] = (Ok (), d)"
    by (rule create_all) (simp_all add: maxVirtualSize_def small_opt_def)
  then obtain d where d: "createQcow2 (\<lambda>n. True) 32768 '''' '''' small_opt [] = (Ok (), hf_data (demo_file d))"
    by (auto simp: demo_fs)
  obtain l b where c: "created 32768 '''' '''' small_opt l b (hf_data (demo_file d))" by (rule createQcow2_created [OF d])
  note lf = layout_Ok [OF createdD(1) [OF c]]
  have l1: "ly_l1Size l = 1" "ly_clusterBits l = 9" using lf(3,19,24) by (simp_all add: small_opt_def ceil_div_def)
  have l2: "created_l1 l = [0]" using l1(1) lf(9) by (simp add: created_l1_def small_opt_def)
  define q where "q = \<lparr>qi_file = demo_file d, qi_hdr = created_header l 32768 '''' '''', qi_l1 = created_l1 l, qi_fmt = '''', qi_name = ''''\<rparr>"
  have ob: "opened_backing (demo_env d) [''i'', ''o''] (demo_file d) '''' '''' None" by (simp add: opened_backing_def)
  have o: "openGuestImage (demo_env d) [''i'', ''o''] = Ok (GQcow q None)"
    using open_created [OF c demo_fs(1) ob] l1(1) by (simp add: maxL1TableBytes_def q_def)
  have w: "img_wf (created_role l) (q_img (\<lambda>n. True) q None)"
    by (rule created_wf(1) [OF c _ q_def]) (simp add: l1)
  have ev: "\<forall>c r. e_eval (demo_env d) c = Some r \<longrightarrow> clean_path r" by (simp add: demo_env_def clean_path_def)
  have "geometry_ok q" using openGuestImageDepth_chain [OF ev o [unfolded openGuestImage_def]] by simp
  then have g: "h_l1Offset (qi_hdr q) + 8 \<le> length (hf_data (qi_file q))"
    using l2 by (simp add: geometry_ok_def Let_def q_def)
  have i: "isQcow2 (demo_env d) [''i'', ''o'']" using opened_isQcow2(1) [OF o [unfolded openGuestImage_def]] by simp
  show ?thesis
    by (rule that [OF d [unfolded demo_fs(2)] o w _ _ _ _ _ _ g i]) (simp_all add: q_def l1 l2 created_header_def)
qed


end
