(* ===== verification/Qcow2Live.thy ===== *)
theory Qcow2Live
  imports Qcow2Flat
begin

text \<open>
  Writes succeed: on a host whose operations succeed, a write inside a well-formed image fails only once
  the file has grown to the number of clusters that its refcount table can count.
\<close>

section \<open>The host and the rest of the image\<close>

definition fr :: "Img \<Rightarrow> Img \<Rightarrow> bool" where
  "fr s s' \<longleftrightarrow>
     im_io s' = im_io s \<and> im_bits s' = im_bits s \<and> im_size s' = im_size s \<and> im_refcountOffset s' = im_refcountOffset s \<and>
     im_refcountClusters s' = im_refcountClusters s \<and> im_backing s' = im_backing s \<and>
     length (im_file s) \<le> length (im_file s') \<and> (im_cs s dvd im_fileSize s \<longrightarrow> im_cs s' dvd im_fileSize s')"

lemma fr_refl [simp]: "fr s s"
  by (simp add: fr_def)

lemma fr_trans: "fr s s1 \<Longrightarrow> fr s1 s2 \<Longrightarrow> fr s s2"
  by (auto simp: fr_def)

lemma fr_upd [simp]:
  "fr s (s\<lparr>im_ops := n\<rparr>)" "fr s (s\<lparr>im_l1 := l\<rparr>)" "fr s (s\<lparr>im_cache := c\<rparr>)" "fr s (s\<lparr>im_cacheBytes := n\<rparr>)"
  "fr s (s\<lparr>im_fileSize := im_fileSize s + im_cs s\<rparr>)"
  by (simp_all add: fr_def)

text \<open>\<open>frm f\<close>: \<open>f\<close> keeps the frame.\<close>

definition frm :: "(Img \<Rightarrow> 'a \<times> Img) \<Rightarrow> bool" where
  "frm f \<longleftrightarrow> (\<forall>s. fr s (snd (f s)))"

named_theorems frm_rules \<open>operations that keep the frame\<close>

lemma frmD: "frm f \<Longrightarrow> f s = (r, s') \<Longrightarrow> fr s s'"
  unfolding frm_def by (metis snd_conv)

lemma frm_qbind [frm_rules]:
  assumes "frm m" "\<And>x. frm (f x)"
  shows "frm (qbind m f)"
  unfolding frm_def
proof
  fix s :: Img
  obtain r s1 where m: "m s = (r, s1)" by (cases "m s")
  show "fr s (snd (qbind m f s))"
    using frmD [OF assms(1) m] assms(2) fr_trans m by (cases r) (auto simp: qbind_def frm_def)
qed

lemma frm_ret [frm_rules]: "frm (qret x)" "frm (qfail e)" "frm (\<lambda>s. (r s, s))"
  by (simp_all add: frm_def qret_def qfail_def)

lemma frm_host [frm_rules]: "frm (host_write off p)" "frm (host_read off n)" "frm (readUint64At off)" "frm (put_refcount b i)"
proof -
  show w: "frm (host_write off p)" for off p by (simp add: frm_def host_write_def fr_def Let_def)
  show r: "frm (host_read off n)" for off n
    using host_read_frame [of off n] by (metis frm_def fr_upd(1) prod.collapse)
  show "frm (readUint64At off)" unfolding readUint64At_def by (intro frm_rules r)
  show "frm (put_refcount b i)" using w by (simp add: frm_def put_refcount_def)
qed

lemma frm_ensure_block [frm_rules]: "frm (ensure_block idx)"
proof -
  define reg where "reg k v x s2 = qbind (host_write (im_refcountOffset s2 + k * 8) v) (\<lambda>_. qret x)
      (s2\<lparr>im_fileSize := im_fileSize s2 + im_cs s2\<rparr>)" for k v and x :: "nat \<times> bool" and s2 :: Img
  have a: "frm (reg k v x)" for k v x
    unfolding frm_def
  proof
    fix s2 :: Img
    have "frm (qbind (host_write (im_refcountOffset s2 + k * 8) v) (\<lambda>_. qret x))" by (intro frm_rules)
    then show "fr s2 (snd (reg k v x s2))" unfolding frm_def reg_def using fr_trans fr_upd(5) by blast
  qed
  define blk where "blk k e s1 = (if e AND reftOffsetMask \<noteq> 0 then (Inr (e AND reftOffsetMask, False), s1)
        else qbind (host_write (im_fileSize s1) (replicate (im_cs s1) 0))
          (\<lambda>_. reg k (be_put 8 (im_fileSize s1)) (im_fileSize s1, True)) s1)" for k e and s1 :: Img
  have b: "frm (blk k e)" for k e
    unfolding frm_def
  proof
    fix s1 :: Img
    have "frm (qbind (host_write (im_fileSize s1) (replicate (im_cs s1) 0)) (\<lambda>_. reg k (be_put 8 (im_fileSize s1)) (im_fileSize s1, True)))"
      by (intro frm_qbind frm_host a)
    then show "fr s1 (snd (blk k e s1))" by (simp add: frm_def blk_def)
  qed
  have "frm (qbind (readUint64At off) (blk k))" for off k by (intro frm_qbind frm_host b)
  moreover have "ensure_block idx s = qbind (readUint64At (im_refcountOffset s + idx div entriesPerBlock s * 8))
      (blk (idx div entriesPerBlock s)) s" for s
    unfolding ensure_block_def Let_def blk_def reg_def ..
  ultimately show ?thesis unfolding frm_def by presburger
qed

lemma bump_loop_fr: "bump_loop idx ds s = (r, s') \<Longrightarrow> fr s s'"
proof (induction idx ds s rule: bump_loop.induct)
  case (1 idx ds s)
  show ?case
  proof (cases "maxBlocks s \<le> idx div entriesPerBlock s")
    case True
    then show ?thesis using "1.prems" by (simp add: bump_loop.simps [of idx])
  next
    case False
    obtain r1 s1 where eb: "ensure_block idx s = (r1, s1)" by (cases "ensure_block idx s")
    note f1 = frmD [OF frm_ensure_block eb]
    show ?thesis
    proof (cases r1)
      case (Inl e)
      then show ?thesis using "1.prems" False eb f1 by (simp add: bump_loop.simps [of idx])
    next
      case (Inr bf)
      obtain b fresh where bf: "bf = (b, fresh)" by (cases bf)
      show ?thesis
      proof (cases "fresh \<and> b div im_cs s1 \<noteq> idx")
        case True
        then have "bump_loop (b div im_cs s1) (idx # ds) s1 = (r, s')"
          using "1.prems" False eb Inr bf by (simp add: bump_loop.simps [of idx])
        from "1.IH"(1) [OF False eb [symmetric] Inr bf [symmetric] True this] show ?thesis using f1 fr_trans by blast
      next
        case stay: False
        obtain r2 s2 where pr: "put_refcount b idx s1 = (r2, s2)" by (cases "put_refcount b idx s1")
        note f2 = fr_trans [OF f1 frmD [OF frm_host(4) pr]]
        have run: "(r, s') = (case r2 of Inl e \<Rightarrow> (Inl e, s2) | Inr u \<Rightarrow> (case ds of [] \<Rightarrow> (Inr (), s2) | d # ds \<Rightarrow> bump_loop d ds s2))"
          using "1.prems" False eb Inr bf stay pr by (auto simp: bump_loop.simps [of idx] split: sum.splits list.splits)
        show ?thesis
        proof (cases "\<exists>u d ds'. r2 = Inr u \<and> ds = d # ds'")
          case True
          then obtain u d ds' where c: "r2 = Inr u" "ds = d # ds'" by blast
          then have "bump_loop d ds' s2 = (r, s')" using run by simp
          from "1.IH"(2) [OF False eb [symmetric] Inr bf [symmetric] stay pr [symmetric] c this] show ?thesis using f2 fr_trans by blast
        next
          case False
          then show ?thesis using run f2 by (cases r2; cases ds) auto
        qed
      qed
    qed
  qed
qed

lemma frm_allocCluster [frm_rules]: "frm allocCluster"
  unfolding frm_def
proof
  fix s :: Img
  let ?s = "s\<lparr>im_fileSize := im_fileSize s + im_cs s\<rparr>"
  have "frm (bump_loop i [])" for i unfolding frm_def by (metis bump_loop_fr prod.collapse)
  then have "frm (bumpRefcount i)" for i by (simp add: frm_def bumpRefcount_def)
  then have "frm (qbind (bumpRefcount i) (\<lambda>_. qret x))" for i and x :: nat by (intro frm_rules)
  then have "fr ?s (snd (qbind (bumpRefcount i) (\<lambda>_. qret x) ?s))" for i and x :: nat by (simp add: frm_def)
  then show "fr s (snd (allocCluster s))" unfolding allocCluster_def Let_def using fr_trans [OF fr_upd(5)] by simp
qed


lemma same_fr: "same s s' \<Longrightarrow> fr s s'"
  by (auto simp: same_def fr_def im_cs_def)

section \<open>Where operations can fail\<close>

text \<open>The file has as many clusters as the refcount table can count.\<close>

definition full :: "Img \<Rightarrow> bool" where
  "full s \<longleftrightarrow> maxBlocks s * entriesPerBlock s \<le> im_fileSize s div im_cs s"

text \<open>
  A host whose operations succeed, an aligned end of file, a refcount table inside the file and a backing
  image that can be read.
\<close>

definition healthy :: "Img \<Rightarrow> bool" where
  "healthy s \<longleftrightarrow>
     (\<forall>n. im_io s n) \<and> im_cs s dvd im_fileSize s \<and> im_refcountOffset s + maxBlocks s * 8 \<le> length (im_file s) \<and>
     (\<forall>rd g n. im_backing s = Some rd \<longrightarrow> snd (rd g n) = None \<or> snd (rd g n) = Some ''EOF'')"

lemma healthy_fr: "healthy s \<Longrightarrow> fr s s' \<Longrightarrow> healthy s'"
  by (auto simp: healthy_def fr_def im_cs_def maxBlocks_def)

lemma big_full:
  assumes "wf_geom s" "2 ^ 63 \<le> x" "x \<le> im_fileSize s + 2 * im_cs s"
  shows "full s"
proof -
  have "(2::nat) ^ im_bits s \<le> 2 ^ 21" using assms(1) unfolding wf_geom_def by (intro power_increasing) simp_all
  then have cs: "im_cs s \<le> 2 ^ 21" "0 < im_cs s" unfolding im_cs_def by simp_all
  have "maxBlocks s * entriesPerBlock s * im_cs s \<le> 2 ^ 56" using assms(1) by (simp add: wf_geom_def)
  also have "\<dots> \<le> im_fileSize s" using assms(2,3) cs(1) by simp
  finally show ?thesis using cs(2) by (simp add: full_def less_eq_div_iff_mult_less_eq)
qed

text \<open>A write that ends at most one cluster past the end of the file.\<close>

lemma write_full:
  assumes "host_write off p s = (r, s')" "healthy s" "wf_geom s" "off + length p \<le> im_fileSize s + im_cs s"
  shows "isl r \<longrightarrow> full s'"
proof
  assume "isl r"
  then have b: "2 ^ 63 \<le> off + length p" "s' = s\<lparr>im_ops := Suc (im_ops s)\<rparr>"
    using assms(1,2) by (auto simp: host_write_def healthy_def Let_def split: if_splits)
  then have "full s" using assms(4) by (intro big_full [OF assms(3)]) auto
  then show "full s'" by (simp add: b(2) full_def)
qed

lemma role_in_size:
  assumes "img_wf role s" "role (x div im_cs s) \<noteq> RFree"
  shows "x < im_fileSize s" "x div im_cs s * im_cs s + im_cs s \<le> im_fileSize s"
proof -
  have p: "0 < im_cs s" by (rule wf_cs(3) [OF wfD(1) [OF assms(1)]])
  show "x div im_cs s * im_cs s + im_cs s \<le> im_fileSize s" using wfD(2) [OF assms(1)] assms(2) unfolding wf_size_def by blast
  moreover have "x < x div im_cs s * im_cs s + im_cs s"
    using mod_less_divisor [OF p, of x] div_mult_mod_eq [of x "im_cs s"] by linarith
  ultimately show "x < im_fileSize s" by simp
qed

lemma read_healthy:
  assumes "readUint64At off s = (r, s')" "healthy s" "off + 8 \<le> length (im_file s)"
  shows "r = Inr (be8 (im_file s) off)"
  using assms(1)
proof (cases rule: readUint64At_cases)
  case (fail e)
  then show ?thesis using assms
    by (auto simp: readUint64At_def qbind_def qret_def host_read_def host_pread_def raw_ReadAt_def healthy_def Let_def split: if_splits)
qed simp

lemma ensure_block_full:
  assumes "ensure_block idx s = (r, s')" "healthy s" "img_wf role s" "idx div entriesPerBlock s < maxBlocks s"
  shows "isl r \<longrightarrow> full s'"
proof -
  let ?k = "idx div entriesPerBlock s"
  note geo = wfD(1) [OF assms(3)]
  have lt: "im_refcountOffset s + ?k * 8 + 8 \<le> length (im_file s)"
    using assms(2,4) by (simp add: healthy_def)
  obtain r1 s1 where h: "readUint64At (im_refcountOffset s + ?k * 8) s = (r1, s1)" by (cases "readUint64At (im_refcountOffset s + ?k * 8) s")
  have r1: "r1 = Inr (be8 (im_file s) (im_refcountOffset s + ?k * 8))" by (rule read_healthy [OF h assms(2) lt])
  have s1: "s1 = s\<lparr>im_ops := Suc (im_ops s)\<rparr>" by (rule readUint64At_frame [OF h])
  show ?thesis
  proof (cases "be8 (im_file s) (im_refcountOffset s + ?k * 8) AND reftOffsetMask = 0")
    case False
    then show ?thesis using assms(1) h r1 by (auto simp: ensure_block_def qbind_def Let_def)
  next
    case True
    obtain r2 s2 where w: "host_write (im_fileSize s1) (replicate (im_cs s1) 0) s1 = (r2, s2)"
      by (cases "host_write (im_fileSize s1) (replicate (im_cs s1) 0) s1")
    have h1: "healthy s1" "wf_geom s1" using assms(2) geo by (simp_all add: s1 healthy_def wf_geom_def)
    have f2: "isl r2 \<longrightarrow> full s2" by (rule write_full [OF w h1]) simp
    define s3 where "s3 = s2\<lparr>im_fileSize := im_fileSize s2 + im_cs s2\<rparr>"
    obtain r4 s4 where w4: "host_write (im_refcountOffset s2 + ?k * 8) (be_put 8 (im_fileSize s1)) s3 = (r4, s4)"
      by (cases "host_write (im_refcountOffset s2 + ?k * 8) (be_put 8 (im_fileSize s1)) s3")
    have run: "isl r \<longrightarrow> isl r2 \<and> s' = s2 \<or> isl r4 \<and> s' = s4"
      using assms(1) h r1 True w w4 [unfolded s3_def]
      by (auto simp: ensure_block_def qbind_def qret_def Let_def split: sum.splits)
    note fw = host_write_frame [OF w]
    have h3: "healthy s3" unfolding s3_def
      by (rule healthy_fr [OF h1(1) fr_trans [OF frmD [OF frm_host(1) w] fr_upd(5)]])
    have g3: "wf_geom s3" using h1(2) fw by (simp add: s3_def wf_geom_def im_cs_def maxBlocks_def entriesPerBlock_def)
    have "length (im_file s) \<le> im_fileSize s" using wfD(2) [OF assms(3)] by (simp add: wf_size_def)
    then have "isl r4 \<longrightarrow> full s4" using lt fw by (intro write_full [OF w4 h3 g3]) (simp add: s3_def s1)
    then show ?thesis using run f2 by blast
  qed
qed

lemma put_refcount_full:
  assumes "put_refcount b idx s = (r, s')" "healthy s" "img_wf role s" "idx div entriesPerBlock s < maxBlocks s"
    "tabe (im_refcountOffset s) (im_file s) (idx div entriesPerBlock s) = b" "b \<noteq> 0"
  shows "isl r \<longrightarrow> full s'"
proof -
  note geo = wfD(1) [OF assms(3)]
  have b: "im_cs s dvd b" "role (b div im_cs s) = RBlk (idx div entriesPerBlock s)"
    using wfD(5) [OF assms(3)] assms(4-6) by (auto simp: wf_ref_def)
  then have "b + im_cs s \<le> im_fileSize s" using role_in_size(2) [OF assms(3), of b] by simp
  moreover have "idx mod entriesPerBlock s * 2 + 2 \<le> im_cs s"
  proof -
    have "idx mod entriesPerBlock s < entriesPerBlock s" using wf_cs(4) [OF geo] by (simp add: entriesPerBlock_def)
    then show ?thesis by (simp add: entriesPerBlock_def)
  qed
  ultimately show ?thesis by (intro write_full [OF assms(1) [unfolded put_refcount_def] assms(2) geo]) simp
qed


text \<open>The refcount loop is asked for clusters inside the file.\<close>

lemma bump_loop_full:
  assumes "bump_loop idx ds s = (r, s')" "healthy s" "img_wf role s"
    "\<forall>d \<in> set (idx # ds). d < im_fileSize s div im_cs s" "\<forall>d \<in> set ds. d div entriesPerBlock s < maxBlocks s"
  shows "isl r \<longrightarrow> full s'"
  using assms
proof (induction idx ds s arbitrary: role rule: bump_loop.induct)
  case (1 idx ds s)
  note step = "1.prems"(1) and h = "1.prems"(2) and w = "1.prems"(3) and ins = "1.prems"(4) and dsb = "1.prems"(5)
  have al: "im_cs s dvd im_fileSize s" using h by (simp add: healthy_def)
  note geo = wfD(1) [OF w]
  show ?case
  proof (cases "maxBlocks s \<le> idx div entriesPerBlock s")
    case True
    then have "maxBlocks s * entriesPerBlock s \<le> idx"
      using wf_cs(4) [OF geo] by (metis div_times_less_eq_dividend le_trans mult_le_mono1)
    then have "full s" using ins by (simp add: full_def)
    moreover have "s' = s" using step True by (simp add: bump_loop.simps [of idx])
    ultimately show ?thesis by simp
  next
    case False
    then have ib: "idx div entriesPerBlock s < maxBlocks s" by simp
    obtain r1 s1 where eb: "ensure_block idx s = (r1, s1)" by (cases "ensure_block idx s")
    obtain role1 where r1: "img_wf role1 s1" "grow role s role1 s1"
      "\<forall>b fresh. r1 = Inr (b, fresh) \<longrightarrow>
         b \<noteq> 0 \<and> tabe (im_refcountOffset s) (im_file s1) (idx div entriesPerBlock s) = b"
      using ensure_block_wf [OF eb w al ib] by blast
    note k1 = growD(1) [OF r1(2)]
    have e1: "im_cs s1 = im_cs s" "maxBlocks s1 = maxBlocks s" "entriesPerBlock s1 = entriesPerBlock s"
      "im_refcountOffset s1 = im_refcountOffset s" using keep_cs(1-3) [OF k1] k1 by (simp_all add: keep_def)
    have h1: "healthy s1" by (rule healthy_fr [OF h frmD [OF frm_ensure_block eb]])
    have mono1: "im_fileSize s div im_cs s \<le> im_fileSize s1 div im_cs s1" using growD(4) [OF r1(2)] by (simp add: e1 div_le_mono)
    have ins1: "\<forall>d \<in> set (idx # ds). d < im_fileSize s1 div im_cs s1" using ins mono1 less_le_trans by blast
    show ?thesis
    proof (cases r1)
      case (Inl e)
      then have "s' = s1" using step False eb by (simp add: bump_loop.simps [of idx])
      then show ?thesis using ensure_block_full [OF eb h w ib] Inl by simp
    next
      case (Inr bf)
      obtain b fresh where bf: "bf = (b, fresh)" by (cases bf)
      show ?thesis
      proof (cases "fresh \<and> b div im_cs s1 \<noteq> idx")
        case True
        have run: "bump_loop (b div im_cs s1) (idx # ds) s1 = (r, s')"
          using step False eb Inr bf True by (simp add: bump_loop.simps [of idx])
        have "b = im_fileSize s" "im_fileSize s1 = im_fileSize s + im_cs s"
          using ensure_block_frame(3,4) [of idx s b fresh s1] eb Inr bf True by simp_all
        then have "b div im_cs s1 < im_fileSize s1 div im_cs s1" using div_add_self2 [of "im_cs s" b] wf_cs(3) [OF geo] by (simp add: e1)
        then show ?thesis
          using "1.IH"(1) [OF False eb [symmetric] Inr bf [symmetric] True run h1 r1(1)] ins1 dsb ib by (auto simp: e1)
      next
        case stay: False
        obtain r2 s2 where pr: "put_refcount b idx s1 = (r2, s2)" by (cases "put_refcount b idx s1")
        have b: "b \<noteq> 0" "tabe (im_refcountOffset s1) (im_file s1) (idx div entriesPerBlock s1) = b"
          using r1(3) Inr bf by (simp_all add: e1)
        have ib1: "idx div entriesPerBlock s1 < maxBlocks s1" using ib by (simp add: e1)
        note pf = put_refcount_full [OF pr h1 r1(1) ib1 b(2,1)]
        have h2: "healthy s2" by (rule healthy_fr [OF h1 frmD [OF frm_host(4) pr]])
        show ?thesis
        proof (cases "r2 = Inr () \<and> ds \<noteq> []")
          case True
          then obtain d ds' where d: "ds = d # ds'" and r2: "r2 = Inr ()" by (cases ds) auto
          have run: "bump_loop d ds' s2 = (r, s')"
            using step False eb Inr bf stay pr r2 d by (simp add: bump_loop.simps [of idx])
          have pw: "host_write (b + (idx mod (im_cs s1 div 2)) * 2) (be_put 2 1) s1 = (r2, s2)"
            using pr by (simp add: put_refcount_def entriesPerBlock_def)
          from pw r2 have ok: "s2 = s1\<lparr>im_ops := Suc (im_ops s1), im_file := write_at (im_file s1) (b + (idx mod (im_cs s1 div 2)) * 2) (be_put 2 1)\<rparr>"
            by (cases rule: host_write_cases) auto
          have k2: "keep s1 s2" "im_fileSize s2 = im_fileSize s1" by (simp_all add: ok keep_def)
          have "img_wf role1 s2"
            using put_count [OF r1(1) k2(1) _ _ b(1) k2(2)] ok ib1 b(2) by (simp add: entriesPerBlock_def)
          then show ?thesis
            using "1.IH"(2) [OF False eb [symmetric] Inr bf [symmetric] stay pr [symmetric] r2 d run h2] ins1 dsb
              keep_cs(1-3) [OF k2(1)] k2(2) by (auto simp: e1 d)
        next
          case False
          then have "isl r \<longrightarrow> isl r2 \<and> s' = s2"
            using step \<open>\<not> maxBlocks s \<le> idx div entriesPerBlock s\<close> eb Inr bf stay pr
            by (auto simp: bump_loop.simps [of idx] split: sum.splits list.splits)
          then show ?thesis using pf by blast
        qed
      qed
    qed
  qed
qed

lemma allocCluster_full:
  assumes "allocCluster s = (r, s')" "healthy s" "img_wf role s"
  shows "isl r \<longrightarrow> full s'"
proof -
  let ?i = "im_fileSize s div im_cs s" and ?s1 = "s\<lparr>im_fileSize := im_fileSize s + im_cs s\<rparr>"
  note geo = wfD(1) [OF assms(3)]
  have al: "im_fileSize s mod im_cs s = 0" using assms(2) by (simp add: healthy_def)
  have p: "0 < im_cs s" by (rule wf_cs(3) [OF geo])
  obtain r1 s1 where b: "bumpRefcount ?i ?s1 = (r1, s1)" by (cases "bumpRefcount ?i ?s1")
  have run: "isl r \<longrightarrow> isl r1 \<and> s' = s1" using assms(1) al b by (auto simp: allocCluster_def qbind_def qret_def split: sum.splits)
  have w1: "img_wf role ?s1" using assms(3) by (auto simp: img_wf_def wf_geom_def wf_size_def intro: le_trans)
  have h1: "healthy ?s1" by (rule healthy_fr [OF assms(2) fr_upd(5)])
  have i: "?i < im_fileSize ?s1 div im_cs ?s1" using p div_add_self2 [of "im_cs s" "im_fileSize s"] by simp
  have "isl r1 \<longrightarrow> full s1"
  proof (cases "maxBlocks s \<noteq> 0 \<and> maxBlocks s \<le> ?i div entriesPerBlock s")
    case True
    then have "maxBlocks s * entriesPerBlock s \<le> ?i"
      by (metis div_times_less_eq_dividend le_trans mult_le_mono1)
    moreover have "s1 = ?s1" using b True by (simp add: bumpRefcount_def)
    ultimately show ?thesis using i by (simp add: full_def)
  next
    case False
    then have "bump_loop ?i [] ?s1 = (r1, s1)" using b by (auto simp: bumpRefcount_def split: if_splits)
    from bump_loop_full [OF this h1 w1] show ?thesis using i by simp
  qed
  then show ?thesis using run by blast
qed


section \<open>Reads\<close>

lemma host_read_io: "host_read off n s = (Inl ''io'', s') \<Longrightarrow> \<not> healthy s"
  by (auto simp: host_read_def host_pread_def raw_ReadAt_def healthy_def Let_def split: if_splits)

lemma l2EntryAt_io: "l2EntryAt t j s = (Inl ''io'', s') \<Longrightarrow> \<not> healthy s"
  using host_read_io
  by (auto simp: l2EntryAt_def qbind_def Let_def split: if_splits option.splits prod.splits sum.splits)

lemma resolve_healthy:
  assumes "resolve guest want s = (r, s')" "img_wf role s" "bk_ok bk s" "guest < l1_span s" "healthy s"
  shows "\<not> isl r"
proof
  assume "isl r"
  then obtain e where e: "r = Inl e" by (cases r) auto
  then have "e = ''io''" using resolve_ok [OF assms(1-4)] by blast
  then have "\<exists>t j s1. l2EntryAt t j s = (Inl ''io'', s1)"
    using assms(1) e by (auto simp: resolve_def qbind_def Let_def split: if_splits prod.splits sum.splits)
  then show False using l2EntryAt_io assms(5) by blast
qed

lemma fill_healthy:
  assumes "fill h guest buf s = ((chunk, err), s')" "host_view bk s h guest (length buf)" "healthy s"
  shows "err = None"
proof (cases h)
  case (RHost x)
  then have "x + length buf \<le> length (im_file s)" using assms(2) by (simp add: host_view_def)
  then show ?thesis using assms(1,3) RHost
    by (auto simp: fill_def host_pread_def raw_ReadAt_def healthy_def Let_def split: if_splits)
next
  case RBacking
  then obtain rd where rd: "im_backing s = Some rd" using assms(2) by (auto simp: host_view_def)
  obtain bs e where q: "rd guest (length buf) = (bs, e)" by (cases "rd guest (length buf)")
  have "e = None \<or> e = Some ''EOF''" using assms(3) rd q unfolding healthy_def by (metis snd_conv)
  then show ?thesis using assms(1) RBacking rd q by (auto simp: fill_def Let_def split: if_splits)
qed (use assms(1) in \<open>simp add: fill_def Let_def\<close>)

lemma read_loop_healthy:
  assumes "read_loop rest guest s = ((buf, t, err), s')" "img_wf role s" "bk_ok bk s" "healthy s"
  shows "err = None \<or> err = Some ''EOF''"
  using assms
proof (induction rest guest s arbitrary: buf t rule: read_loop.induct)
  case (1 rest guest s)
  note step = "1.prems"(1) and w = "1.prems"(2) and bk = "1.prems"(3) and he = "1.prems"(4)
  note geo = wfD(1) [OF w]
  consider "rest = []" | "rest \<noteq> []" "im_size s \<le> guest" | "rest \<noteq> []" "\<not> im_size s \<le> guest" by blast
  then show ?case
  proof cases
    case c3: 3
    obtain r s1 where rs: "resolve guest (length rest) s = (r, s1)" by (cases "resolve guest (length rest) s")
    have sp: "guest < l1_span s" using c3(2) size_span [OF geo] by simp
    note ro = resolve_ok [OF rs w bk sp]
    then have w1: "img_wf role s1" and sm1: "same s s1" by auto
    have h1: "healthy s1" by (rule healthy_fr [OF he same_fr [OF sm1]])
    obtain h n where Inr: "r = Inr (h, n)" using resolve_healthy [OF rs w bk sp he] by (cases r) auto
    have n: "n = min (im_cs s - guest mod im_cs s) (length rest)" "host_view bk s h guest n" using ro Inr by auto
    have nz: "n \<noteq> 0" using n(1) c3(1) mod_less_divisor [OF wf_cs(3) [OF geo], of guest] by simp
    have ln: "length (take n rest) = n" using n(1) by simp
    obtain chunk e s2 where fl: "fill h guest (take n rest) s1 = ((chunk, e), s2)" by (metis surj_pair)
    have hv: "host_view bk s1 h guest (length (take n rest))" using n(2) ln host_view_same [OF sm1] by simp
    have bk1: "bk_ok bk s1" using bk same_eqs(7) [OF sm1] by simp
    have None: "e = None" by (rule fill_healthy [OF fl hv h1])
    have fo: "img_wf role s2" "same s1 s2" using fill_ok [OF fl hv bk1 w1] by auto
    obtain b' t' e' s3 where rl: "read_loop (drop n rest) (guest + n) s2 = ((b', t', e'), s3)" by (metis surj_pair)
    have "e' = err \<and> s3 = s'"
      using step c3 rs Inr nz fl None rl by (simp add: read_loop.simps [of rest])
    then have rl': "read_loop (drop n rest) (guest + n) s2 = ((b', t', err), s')" using rl by simp
    have bk2: "bk_ok bk s2" using bk1 same_eqs(7) [OF fo(2)] by simp
    show ?thesis
      by (rule "1.IH" [OF c3 rs [symmetric] Inr refl nz fl [symmetric] refl None rl' fo(1) bk2 healthy_fr [OF h1 same_fr [OF fo(2)]]])
  qed (use step in \<open>auto simp: read_loop.simps [of rest] read_loop.simps [of "[]"]\<close>)
qed

lemma cow_cluster_healthy:
  assumes "cow_cluster c s = (r, s')" "img_wf role s" "bk_ok bk s" "healthy s"
  shows "\<not> isl r"
proof -
  let ?n = "min (im_cs s) (im_size s - c * im_cs s)"
  obtain b t e s1 where rd: "read_loop (replicate ?n 0) (c * im_cs s) s = ((b, t, e), s1)" by (metis surj_pair)
  then show ?thesis using read_loop_healthy [OF rd assms(2-4)] assms(1) by (auto simp: cow_cluster_def ReadAt_def Let_def)
qed

lemma hostOffset_healthy:
  assumes "hostOffset c s = (r, s')" "img_wf role s" "c div (im_cs s div 8) < length (im_l1 s)" "healthy s"
  shows "\<not> isl r"
proof (cases "e_off (im_l1 s ! (c div (im_cs s div 8))) = 0")
  case True
  then show ?thesis using assms(1,3) by (auto simp: hostOffset_def Let_def)
next
  case False
  let ?i = "c div (im_cs s div 8)" and ?j = "c mod (im_cs s div 8)"
  let ?t = "e_off (im_l1 s ! ?i)"
  note geo = wfD(1) [OF assms(2)]
  have j: "?j < im_cs s div 8" using wf_cs(4) [OF geo] by (rule mod_less_divisor)
  obtain r1 s1 where l: "l2EntryAt ?t ?j s = (r1, s1)" by (cases "l2EntryAt ?t ?j s")
  note lo = l2EntryAt_ok [OF l assms(2,3) refl False j]
  then obtain e where e: "r1 = Inr e" "e = be8 (im_file s) (?t + 8 * ?j)"
    using l l2EntryAt_io assms(4) by (cases r1) auto
  have "e = lookup (im_cs s) (im_l1 s) (im_file s) c" using e(2) False by (simp add: lookup_def Let_def)
  then have "\<not> is_compressed e" using lookup_ok [OF wfD(3) [OF assms(2)] wf_cs(2,3) [OF geo] assms(3)] by (simp add: ent_ok_def)
  then show ?thesis using assms(1,3) False l e(1) by (auto simp: hostOffset_def qbind_def qret_def Let_def split: if_splits)
qed


section \<open>Writes\<close>

lemma file_size: "img_wf role s \<Longrightarrow> length (im_file s) \<le> im_fileSize s"
  using wfD(2) by (simp add: wf_size_def)

lemma ensureL2_full:
  assumes "ensureL2 i s = (r, s')" "healthy s" "img_wf role s" "i < length (im_l1 s)"
  shows "fr s s' \<and> (isl r \<longrightarrow> full s')"
proof (cases "e_off (im_l1 s ! i) = 0")
  case False
  then show ?thesis using assms(1) by (auto simp: ensureL2_def Let_def)
next
  case True
  obtain r1 s1 where al: "allocCluster s = (r1, s1)" by (cases "allocCluster s")
  obtain role1 where q1: "img_wf role1 s1" "grow role s role1 s1"
    "\<And>off. r1 = Inr off \<Longrightarrow> fresh_cluster role1 s1 off \<and> off + im_cs s1 \<le> im_fileSize s1"
    using allocCluster_fresh [OF al assms(3)] by blast
  note f1 = frmD [OF frm_allocCluster al] and a1 = allocCluster_full [OF al assms(2,3)]
  have h1: "healthy s1" by (rule healthy_fr [OF assms(2) f1])
  note k1 = growD(1) [OF q1(2)]
  show ?thesis
  proof (cases r1)
    case (Inl e)
    then have "s' = s1" using assms(1) True al by (simp add: ensureL2_def Let_def qbind_def)
    then show ?thesis using f1 a1 Inl by simp
  next
    case (Inr new)
    obtain r2 s2 where w2: "host_write new (replicate (im_cs s1) 0) s1 = (r2, s2)" by (cases "host_write new (replicate (im_cs s1) 0) s1")
    note e2 = host_write_frame [OF w2]
    have g1: "wf_geom s1" by (rule wfD(1) [OF q1(1)])
    have a2: "isl r2 \<longrightarrow> full s2" using q1(3) [OF Inr] by (intro write_full [OF w2 h1 g1]) simp
    note f2 = frmD [OF frm_host(1) w2]
    have h2: "healthy s2" by (rule healthy_fr [OF h1 f2])
    have g2: "wf_geom s2" using g1 e2 by (simp add: wf_geom_def im_cs_def maxBlocks_def entriesPerBlock_def)
    obtain r3 s3 where w3: "host_write (im_l1Offset s2 + i * 8) (be_put 8 (new OR oflagCopied)) s2 = (r3, s3)"
      by (cases "host_write (im_l1Offset s2 + i * 8) (be_put 8 (new OR oflagCopied)) s2")
    note f3 = frmD [OF frm_host(1) w3]
    have "role1 ((im_l1Offset s1 + i * 8 + 7) div im_cs s1) = RL1"
      using wfD(4) [OF q1(1)] assms(4) k1 by (auto simp: wf_l1_def keep_def)
    then have "im_l1Offset s1 + i * 8 + 8 \<le> im_fileSize s1" using role_in_size(1) [OF q1(1), of "im_l1Offset s1 + i * 8 + 7"] by simp
    then have a3: "isl r3 \<longrightarrow> full s3" using e2 by (intro write_full [OF w3 h2 g2]) simp
    have "(isl r \<longrightarrow> isl r2 \<and> s' = s2 \<or> isl r3 \<and> s' = s3) \<and> (s' = s2 \<or> s' = s3 \<or> (\<exists>l. s' = s3\<lparr>im_l1 := l\<rparr>))"
      using assms(1) True al Inr w2 w3 by (auto simp: ensureL2_def qbind_def Let_def split: sum.splits)
    moreover have "fr s s2" "fr s s3" using f1 f2 f3 fr_trans by blast+
    ultimately show ?thesis using a2 a3 fr_trans fr_upd(2) by metis
  qed
qed

lemma linkL2_full:
  assumes "linkL2 c h s = (r, s')" "healthy s" "img_wf role s" "c div (im_cs s div 8) < length (im_l1 s)"
  shows "fr s s' \<and> (isl r \<longrightarrow> full s')"
proof -
  let ?i = "c div (im_cs s div 8)" and ?j = "c mod (im_cs s div 8)" and ?v = "h OR oflagCopied"
  note geo = wfD(1) [OF assms(3)]
  have j: "?j < im_cs s div 8" using wf_cs(4) [OF geo] by (rule mod_less_divisor)
  obtain r1 s1 where en: "ensureL2 ?i s = (r1, s1)" by (cases "ensureL2 ?i s")
  note f1 = ensureL2_full [OF en assms(2,3,4)]
  obtain role1 where q1: "img_wf role1 s1" "ext role s role1 s1"
    "\<forall>t. r1 = Inr t \<longrightarrow> e_off (im_l1 s1 ! ?i) = t \<and> t \<noteq> 0"
    using ensureL2_ok [OF en assms(3,4)] by blast
  note e1 = ext_eqs [OF q1(2)]
  have h1: "healthy s1" using healthy_fr [OF assms(2)] f1 by blast
  show ?thesis
  proof (cases r1)
    case (Inl e)
    then have "s' = s1 \<and> r = Inl e" using assms(1,4) en by (auto simp: linkL2_def setL2Entry_def Let_def qbind_def)
    then show ?thesis using f1 Inl by simp
  next
    case (Inr t)
    obtain r2 s2 where w: "host_write (t + ?j * 8) (be_put 8 ?v) s1 = (r2, s2)" by (cases "host_write (t + ?j * 8) (be_put 8 ?v) s1")
    have "tbl_ok (im_cs s1) role1 (im_file s1) ?i t" using wfD(3) [OF q1(1)] q1(3) Inr assms(4) e1(8) by (auto simp: wf_map_def)
    then have "t + im_cs s \<le> im_fileSize s1" using file_size [OF q1(1)] by (simp add: tbl_ok_def e1)
    moreover have "?j * 8 + 8 \<le> im_cs s" using entry_in_cluster [OF wf_cs(2) [OF geo] j] by simp
    ultimately have a2: "isl r2 \<longrightarrow> full s2" by (intro write_full [OF w h1 wfD(1) [OF q1(1)]]) simp
    have f2: "fr s s2" using f1 frmD [OF frm_host(1) w] fr_trans by blast
    have run: "(r, s') = (case r2 of Inl e \<Rightarrow> (Inl e, s2) | Inr u \<Rightarrow> (Inr (), updateL2Cache t ?j ?v s2))"
      using assms(1,4) en Inr w by (auto simp: linkL2_def setL2Entry_def Let_def qbind_def split: sum.splits)
    show ?thesis using run a2 f2 fr_trans [OF f2 same_fr [OF updateL2Cache_same]] by (cases r2) auto
  qed
qed

lemma allocDataCluster_full:
  assumes "allocDataCluster (guest div im_cs s) data guest (guest mod im_cs s = 0 \<and> length data = im_cs s) s = (r, s')"
    "healthy s" "img_wf role s" "bk_ok bk s" "guest < im_size s" "guest mod im_cs s + length data \<le> im_cs s"
  shows "fr s s' \<and> (isl r \<longrightarrow> full s')"
proof -
  let ?c = "guest div im_cs s" and ?cs = "im_cs s"
  let ?full = "guest mod ?cs = 0 \<and> length data = ?cs"
  note geo = wfD(1) [OF assms(3)]
  have gi: "?c div (?cs div 8) < length (im_l1 s)" using assms(5) size_span [OF geo] by (intro span_l1) simp
  obtain r1 s1 where al: "allocCluster s = (r1, s1)" by (cases "allocCluster s")
  obtain role1 where q1: "img_wf role1 s1" "grow role s role1 s1"
    "\<And>off. r1 = Inr off \<Longrightarrow> fresh_cluster role1 s1 off \<and> off + im_cs s1 \<le> im_fileSize s1"
    using allocCluster_fresh [OF al assms(3)] by blast
  note f1 = frmD [OF frm_allocCluster al] and x1 = grow_ext [OF assms(3) q1(2)]
  note e1 = ext_eqs [OF x1]
  have h1: "healthy s1" by (rule healthy_fr [OF assms(2) f1])
  show ?thesis
  proof (cases r1)
    case (Inl e)
    then have "s' = s1" using assms(1) al by (simp add: allocDataCluster_def qbind_def)
    then show ?thesis using f1 allocCluster_full [OF al assms(2,3)] Inl by simp
  next
    case (Inr off)
    note fo = q1(3) [OF Inr]
    define fm where "fm = (if ?full then host_write off data
       else qbind (cow_cluster ?c) (\<lambda>buf s1. host_write off (splice buf (guest mod im_cs s1) data) s1))"
    obtain r3 s3 where fl0: "fm s1 = (r3, s3)" by (cases "fm s1")
    note fl = fl0 [unfolded fm_def]
    have bk1: "bk_ok bk s1" using assms(4) e1(5) by simp
    obtain role3 where q3: "img_wf role3 s3" "ext role1 s1 role3 s3"
      using fill_fresh [of guest s1 data off r3 s3 role1 bk, unfolded e1(1,6), OF fl q1(1) bk1 _ _ assms(6)] fo e1(1) by auto
    have x3: "ext role s role3 s3" by (rule ext_trans [OF x1 q3(2)])
    have a3: "fr s1 s3 \<and> (isl r3 \<longrightarrow> full s3)"
    proof (cases ?full)
      case True
      then have w: "host_write off data s1 = (r3, s3)" using fl by simp
      show ?thesis using write_full [OF w h1 wfD(1) [OF q1(1)]] frmD [OF frm_host(1) w] fo True e1(1) by simp
    next
      case False
      obtain r2 s2 where cc: "cow_cluster ?c s1 = (r2, s2)" by (cases "cow_cluster ?c s1")
      note co = cow_cluster_ok [OF cc q1(1) bk1]
      obtain buf where buf: "r2 = Inr buf" using cow_cluster_healthy [OF cc q1(1) bk1 h1] by (cases r2) auto
      have sm: "same s1 s2" and w2: "img_wf role1 s2" using co by auto
      have w: "host_write off (splice buf (guest mod ?cs) data) s2 = (r3, s3)"
        using fl False cc buf same_eqs(1) [OF sm] e1(1) by (auto simp: qbind_def split: if_splits)
      have "length (splice buf (guest mod ?cs) data) = ?cs" using co buf assms(6) e1(1) by simp
      moreover have "im_fileSize s2 = im_fileSize s1" using sm by (simp add: same_def)
      ultimately have "isl r3 \<longrightarrow> full s3"
        using fo same_eqs(1) [OF sm] e1(1) by (intro write_full [OF w healthy_fr [OF h1 same_fr [OF sm]] wfD(1) [OF w2]]) simp
      then show ?thesis using fr_trans [OF same_fr [OF sm] frmD [OF frm_host(1) w]] by blast
    qed
    have f3: "fr s s3" using f1 a3 fr_trans by blast
    show ?thesis
    proof (cases r3)
      case (Inl e)
      then have "s' = s3" using assms(1) al \<open>r1 = Inr off\<close> fl by (simp add: allocDataCluster_def qbind_def)
      then show ?thesis using f3 a3 Inl by simp
    next
      case (Inr u)
      obtain r4 s4 where li: "linkL2 ?c off s3 = (r4, s4)" by (cases "linkL2 ?c off s3")
      have run: "s' = s4" "isl r \<longleftrightarrow> isl r4"
        using assms(1) al \<open>r1 = Inr off\<close> fl Inr li by (auto simp: allocDataCluster_def qbind_def qret_def split: sum.splits)
      have "?c div (im_cs s3 div 8) < length (im_l1 s3)" using gi ext_eqs(1,8) [OF x3] by simp
      from linkL2_full [OF li healthy_fr [OF assms(2) f3] q3(1) this] show ?thesis using run f3 fr_trans by blast
    qed
  qed
qed

lemma write_chunk_full:
  assumes "write_chunk guest data s = (r, s')" "healthy s" "img_wf role s" "bk_ok bk s" "guest < im_size s"
    "guest mod im_cs s + length data \<le> im_cs s"
  shows "fr s s' \<and> (isl r \<longrightarrow> full s')"
proof -
  let ?c = "guest div im_cs s" and ?m = "guest mod im_cs s"
  note geo = wfD(1) [OF assms(3)]
  have gi: "?c div (im_cs s div 8) < length (im_l1 s)" using assms(5) size_span [OF geo] by (intro span_l1) simp
  obtain r1 s1 where ho: "hostOffset ?c s = (r1, s1)" by (cases "hostOffset ?c s")
  note hk = hostOffset_ok [OF ho assms(3) gi]
  obtain h where h: "r1 = Inr h" using hostOffset_healthy [OF ho assms(3) gi assms(2)] by (cases r1) auto
  have sm: "same s s1" and w1: "img_wf role s1" using hk by auto
  note e1 = same_eqs [OF sm]
  have h1: "healthy s1" by (rule healthy_fr [OF assms(2) same_fr [OF sm]])
  show ?thesis
  proof (cases "h = 0")
    case True
    define ad where "ad = allocDataCluster ?c data guest (?m = 0 \<and> length data = im_cs s)"
    obtain r2 s2 where a: "ad s1 = (r2, s2)" by (cases "ad s1")
    have "s' = s2" "isl r \<longleftrightarrow> isl r2"
      using assms(1) ho h True a by (auto simp: write_chunk_def qbind_def qret_def Let_def ad_def split: sum.splits)
    moreover have "fr s1 s2 \<and> (isl r2 \<longrightarrow> full s2)"
      using allocDataCluster_full [OF _ h1 w1, of guest data r2 s2 bk, unfolded e1(1,7)] a assms(4-6) sm
      by (simp add: ad_def same_def)
    ultimately show ?thesis using fr_trans [OF same_fr [OF sm]] by blast
  next
    case False
    then have w: "host_write (h + ?m) data s1 = (r, s')" using assms(1) ho h by (simp add: write_chunk_def qbind_def Let_def)
    let ?e = "lookup (im_cs s) (im_l1 s) (im_file s) ?c"
    have "h = e_off ?e" "\<not> is_zero ?e" using hk h False by auto
    then have "h + im_cs s \<le> length (im_file s)"
      using lookup_ok [OF wfD(3) [OF assms(3)] wf_cs(2,3) [OF geo] gi] False by (simp add: ent_ok_def)
    then have "h + ?m + length data \<le> im_fileSize s1" using file_size [OF assms(3)] assms(6) sm by (simp add: same_def)
    then show ?thesis using write_full [OF w h1 wfD(1) [OF w1]] fr_trans [OF same_fr [OF sm] frmD [OF frm_host(1) w]] by simp
  qed
qed

lemma write_loop_full:
  assumes "write_loop rest guest s = ((n, err), s')" "healthy s" "img_wf role s" "bk_ok bk s"
    "rest \<noteq> [] \<longrightarrow> guest + length rest \<le> im_size s"
  shows "fr s s' \<and> (err \<noteq> None \<longrightarrow> full s')"
  using assms
proof (induction rest guest s arbitrary: n role rule: write_loop.induct)
  case (1 rest guest s)
  note step = "1.prems"(1) and he = "1.prems"(2) and w = "1.prems"(3) and bk = "1.prems"(4) and sz = "1.prems"(5)
  show ?case
  proof (cases "rest = []")
    case True
    then show ?thesis using step by (auto simp: write_loop.simps [of "[]"])
  next
    case False
    define k where "k = min (im_cs s - guest mod im_cs s) (length rest)"
    note geo = wfD(1) [OF w]
    have lt: "guest < im_size s" using sz False by (cases rest) auto
    then have nle: "\<not> im_size s \<le> guest" by simp
    have m: "guest mod im_cs s < im_cs s" by (rule mod_less_divisor [OF wf_cs(3) [OF geo]])
    have fit: "guest mod im_cs s + length (take k rest) \<le> im_cs s" using m by (simp add: k_def)
    obtain r1 s1 where ch: "write_chunk guest (take k rest) s = (r1, s1)" by (cases "write_chunk guest (take k rest) s")
    note cf = write_chunk_full [OF ch he w bk lt fit]
    show ?thesis
    proof (cases r1)
      case (Inl e)
      then have "s' = s1" using step False nle ch by (simp add: write_loop.simps [of rest] Let_def k_def)
      then show ?thesis using cf Inl by simp
    next
      case (Inr u)
      obtain role1 where w1: "img_wf role1 s1" and g1: "geq s s1" using write_chunk_ok [OF ch w bk lt fit] by blast
      obtain t e s2 where rl: "write_loop (drop k rest) (guest + k) s1 = ((t, e), s2)" by (metis surj_pair)
      have eq: "e = err" "s2 = s'" using step False nle ch Inr rl by (simp_all add: write_loop.simps [of rest] Let_def k_def)
      have bk1: "bk_ok bk s1" using bk geq_eqs(5) [OF g1] by simp
      have sz1: "drop k rest \<noteq> [] \<longrightarrow> guest + k + length (drop k rest) \<le> im_size s1"
        using sz False g1 by (auto simp: geq_def k_def)
      have "fr s1 s' \<and> (err \<noteq> None \<longrightarrow> full s')"
        by (rule "1.IH" [OF False nle k_def ch [symmetric] Inr _ healthy_fr [OF he cf [THEN conjunct1]] w1 bk1 sz1])
          (use rl eq in simp)
      then show ?thesis using cf fr_trans by blast
    qed
  qed
qed


section \<open>Properties\<close>

text \<open>
  C6: A write inside the virtual disk of a well-formed image succeeds, completely, on a host whose
  operations succeed and over a backing image that can be read, unless the image file has grown to the
  number of clusters that its refcount table can count.
\<close>

theorem WriteAt_succeeds:
  assumes "img_wf role s" "bk_ok bk s" "healthy s" "off + length p \<le> im_size s" "WriteAt p off s = ((n, err), s')"
  shows "err = None \<and> n = length p \<or> maxBlocks s * entriesPerBlock s \<le> im_fileSize s' div im_cs s"
proof -
  note w = assms(5) [unfolded WriteAt_def]
  have f: "fr s s' \<and> (err \<noteq> None \<longrightarrow> full s')" by (rule write_loop_full [OF w assms(3,1,2)]) (use assms(4) in simp)
  then have "maxBlocks s' = maxBlocks s" "entriesPerBlock s' = entriesPerBlock s" "im_cs s' = im_cs s"
    by (simp_all add: fr_def maxBlocks_def entriesPerBlock_def im_cs_def)
  moreover have "err = None \<longrightarrow> n = length p" using write_loop_ok [OF w assms(1,2)] by blast
  ultimately show ?thesis using f by (auto simp: full_def)
qed

lemma small_healthy: "healthy small_img"
proof -
  have "snd (raw_ReadAt f g n) = None \<or> snd (raw_ReadAt f g n) = Some ''EOF''" for f g n by (simp add: raw_ReadAt_def Let_def)
  then show ?thesis by (simp add: healthy_def small_img_def small_file_def im_cs_def maxBlocks_def)
qed

theorem WriteAt_succeeds_witness:
  "\<exists>n err s'. WriteAt [1, 2, 3] 1000 small_img = ((n, err), s') \<and>
     (err = None \<and> n = 3 \<or> 16384 \<le> im_fileSize s' div 512)"
proof -
  obtain n err s' where r: "WriteAt [1, 2, 3] 1000 small_img = ((n, err), s')" by (metis surj_pair)
  have bk: "bk_ok (fb [7, 8, 9]) small_img" by (rule raw_image.overlay_ok) (simp add: small_img_def)
  have "maxBlocks small_img * entriesPerBlock small_img = 16384" "im_cs small_img = 512" "1000 + length [1::u8, 2, 3] \<le> im_size small_img"
    by (simp_all add: small_img_def maxBlocks_def entriesPerBlock_def im_cs_def)
  then show ?thesis using WriteAt_succeeds [OF small_wf bk small_healthy _ r] r by (simp add: numeral_3_eq_3)
qed

end
