(* ===== verification/VuMem.thy ===== *)
theory VuMem
  imports Bytes
begin

text \<open>
  Guest memory as the vhost-user server sees it, \<^verbatim>\<open>internal/vhost/vu/mem.go\<close>. A Go slice of mapped
  memory is a mapping, an offset, a length and a capacity; \<open>vs_mem\<close> gives the bytes of every mapping and
  \<open>None\<close> once it is unmapped, so that an access through a stale slice is the fault it would be.

  The guest runs concurrently and owns these bytes: \<open>gw k\<close> is what it did to the memory before the
  \<open>k\<close>-th access of the server. It can change bytes and nothing else (\<open>guest_ok\<close>). The reasoning rules
  \<open>vok\<close> are for properties that hold whatever the guest does.
\<close>

type_synonym verr = string
type_synonym memory = "nat \<Rightarrow> u8 list option"
type_synonym guest = "nat \<Rightarrow> memory \<Rightarrow> memory"

section \<open>Slices\<close>

record gslice =
  sl_map :: nat
  sl_off :: nat
  sl_len :: nat
  sl_cap :: nat

text \<open>\<^verbatim>\<open>s[lo:hi]\<close> may reach up to the capacity, \<^verbatim>\<open>s[lo:]\<close> up to the length.\<close>

definition sl_sub :: "gslice \<Rightarrow> nat \<Rightarrow> nat \<Rightarrow> (verr, gslice) go" where
  "sl_sub s lo hi =
     (if lo \<le> hi \<and> hi \<le> sl_cap s
      then Ok (s\<lparr>sl_off := sl_off s + lo, sl_len := hi - lo, sl_cap := sl_cap s - lo\<rparr>) else Panic)"

definition sl_from :: "gslice \<Rightarrow> nat \<Rightarrow> (verr, gslice) go" where
  "sl_from s lo = (if lo \<le> sl_len s then sl_sub s lo (sl_len s) else Panic)"

text \<open>The state of the process: mappings, accesses so far, the next mapping, descriptors closed so far.\<close>

record vst =
  vs_mem :: memory
  vs_tick :: nat
  vs_next :: nat
  vs_closed :: "nat list"

type_synonym 'a vm = "vst \<Rightarrow> (verr, 'a) go \<times> vst"

definition vret :: "'a \<Rightarrow> 'a vm" where
  "vret x s = (Ok x, s)"

definition vgo :: "(verr, 'a) go \<Rightarrow> 'a vm" where
  "vgo r s = (r, s)"

definition vbind :: "'a vm \<Rightarrow> ('a \<Rightarrow> 'b vm) \<Rightarrow> 'b vm" where
  "vbind f g s = (case f s of (Ok x, s1) \<Rightarrow> g x s1 | (Err e, s1) \<Rightarrow> (Err e, s1) | (Panic, s1) \<Rightarrow> (Panic, s1))"

text \<open>\<open>n\<close> bytes at an address of a mapping, with no bounds check but that of the hardware.\<close>

definition peek :: "guest \<Rightarrow> nat \<Rightarrow> nat \<Rightarrow> nat \<Rightarrow> u8 list vm" where
  "peek gw i off n s =
     (let m = gw (vs_tick s) (vs_mem s);
          s1 = s\<lparr>vs_mem := m, vs_tick := Suc (vs_tick s)\<rparr>
      in case m i of
           None \<Rightarrow> (Panic, s1)
         | Some d \<Rightarrow> if off + n \<le> length d then (Ok (take n (drop off d)), s1) else (Panic, s1))"

definition poke :: "guest \<Rightarrow> nat \<Rightarrow> nat \<Rightarrow> u8 list \<Rightarrow> unit vm" where
  "poke gw i off bs s =
     (let m = gw (vs_tick s) (vs_mem s);
          s1 = s\<lparr>vs_mem := m, vs_tick := Suc (vs_tick s)\<rparr>
      in case m i of
           None \<Rightarrow> (Panic, s1)
         | Some d \<Rightarrow>
             if off + length bs \<le> length d then (Ok (), s1\<lparr>vs_mem := m(i \<mapsto> splice d off bs)\<rparr>) else (Panic, s1))"

text \<open>\<^verbatim>\<open>binary.LittleEndian.UintN(s[off:])\<close>, the corresponding store, all bytes of a slice, and \<^verbatim>\<open>copy\<close>.\<close>

definition ldLE :: "guest \<Rightarrow> nat \<Rightarrow> nat \<Rightarrow> gslice \<Rightarrow> nat vm" where
  "ldLE gw w off s =
     vbind (vgo (sl_from s off)) (\<lambda>s1.
     if sl_len s1 < w then vgo Panic else vbind (peek gw (sl_map s1) (sl_off s1) w) (\<lambda>b. vret (le_get b)))"

definition stLE :: "guest \<Rightarrow> nat \<Rightarrow> nat \<Rightarrow> nat \<Rightarrow> gslice \<Rightarrow> unit vm" where
  "stLE gw w v off s =
     vbind (vgo (sl_from s off)) (\<lambda>s1.
     if sl_len s1 < w then vgo Panic else poke gw (sl_map s1) (sl_off s1) (le_put w v))"

definition sl_bytes :: "guest \<Rightarrow> gslice \<Rightarrow> u8 list vm" where
  "sl_bytes gw s = peek gw (sl_map s) (sl_off s) (sl_len s)"

definition sl_copy :: "guest \<Rightarrow> gslice \<Rightarrow> u8 list \<Rightarrow> nat vm" where
  "sl_copy gw s bs =
     (let n = min (sl_len s) (length bs)
      in if n = 0 then vret 0 else vbind (poke gw (sl_map s) (sl_off s) (take n bs)) (\<lambda>_. vret n))"

section \<open>The memory table\<close>

record memRegion =
  mr_gpa :: nat
  mr_size :: nat
  mr_data :: gslice
  mr_fd :: nat

definition closeFds :: "nat list \<Rightarrow> vst \<Rightarrow> vst" where
  "closeFds fds s = s\<lparr>vs_closed := vs_closed s @ fds\<rparr>"

text \<open>\<^verbatim>\<open>memTable.close\<close>\<close>

definition mt_close :: "memRegion list \<Rightarrow> vst \<Rightarrow> vst" where
  "mt_close rs s =
     foldl (\<lambda>s r. closeFds [mr_fd r] (s\<lparr>vs_mem := (vs_mem s)(sl_map (mr_data r) := None)\<rparr>)) s rs"

definition le_fld :: "nat \<Rightarrow> nat \<Rightarrow> u8 list \<Rightarrow> nat" where
  "le_fld w off b = le_get (take w (drop off b))"

text \<open>The regions from index \<open>i\<close> on; \<open>mm fd off size\<close> is the outcome of \<^verbatim>\<open>mmap\<close>.\<close>

primrec map_regions ::
  "(nat \<Rightarrow> nat \<Rightarrow> nat \<Rightarrow> u8 list option) \<Rightarrow> u8 list \<Rightarrow> nat list \<Rightarrow> nat list \<Rightarrow> memRegion list \<Rightarrow> vst \<Rightarrow>
   verr option \<times> memRegion list \<times> vst" where
  "map_regions mm payload fds [] rs s = (None, rs, s)"
| "map_regions mm payload fds (i # is) rs s =
     (let p = drop (8 + i * 32) payload; gpa = le_fld 8 0 p; sz = le_fld 8 8 p in
      if 2 ^ 64 - 1 - gpa < sz then (Some ''region wraps'', [], closeFds (drop i fds) (mt_close rs s))
      else (case mm (fds ! i) (le_fld 8 24 p) sz of
              None \<Rightarrow> (Some ''mmap region'', [], closeFds (drop i fds) (mt_close rs s))
            | Some d \<Rightarrow>
                map_regions mm payload fds is
                  (rs @ [\<lparr>mr_gpa = gpa, mr_size = sz,
                          mr_data = \<lparr>sl_map = vs_next s, sl_off = 0, sl_len = length d, sl_cap = length d\<rparr>, mr_fd = fds ! i\<rparr>])
                  (s\<lparr>vs_mem := (vs_mem s)(vs_next s \<mapsto> d), vs_next := Suc (vs_next s)\<rparr>)))"

definition setMemTable ::
  "(nat \<Rightarrow> nat \<Rightarrow> nat \<Rightarrow> u8 list option) \<Rightarrow> u8 list \<Rightarrow> nat list \<Rightarrow> memRegion list \<Rightarrow> vst \<Rightarrow> verr option \<times> memRegion list \<times> vst" where
  "setMemTable mm payload fds rs s =
     (if length payload < 8 then (Some ''short SET_MEM_TABLE payload'', rs, closeFds fds s)
      else let n = le_fld 4 0 payload in
        if length fds < n then (Some ''more regions than fds'', rs, closeFds fds s)
        else if length payload < 8 + n * 32 then (Some ''payload too small'', rs, closeFds fds s)
        else (case map_regions mm payload fds [0..<n] [] (mt_close rs s) of
                (Some e, rs1, s1) \<Rightarrow> (Some e, rs1, s1)
              | (None, rs1, s1) \<Rightarrow> (None, rs1, closeFds (drop n fds) s1)))"

primrec translate :: "memRegion list \<Rightarrow> nat \<Rightarrow> nat \<Rightarrow> (verr, gslice) go" where
  "translate [] gpa sz = Err (if 2 ^ 64 - 1 - gpa < sz then ''guest range wraps'' else ''outside memory table'')"
| "translate (r # rs) gpa sz =
     (if 2 ^ 64 - 1 - gpa < sz then Err ''guest range wraps''
      else if mr_gpa r \<le> gpa \<and> gpa + sz \<le> mr_gpa r + mr_size r
      then sl_sub (mr_data r) (gpa - mr_gpa r) (gpa - mr_gpa r + sz)
      else translate rs gpa sz)"

section \<open>Reasoning\<close>

text \<open>Which mappings exist and how long they are; no guest changes this.\<close>

definition shape :: "memory \<Rightarrow> nat \<Rightarrow> nat option" where
  "shape m i = map_option length (m i)"

definition guest_ok :: "guest \<Rightarrow> bool" where
  "guest_ok gw \<longleftrightarrow> (\<forall>k m. shape (gw k m) = shape m)"

definition live :: "(nat \<Rightarrow> nat option) \<Rightarrow> gslice \<Rightarrow> bool" where
  "live sh s \<longleftrightarrow> sl_len s \<le> sl_cap s \<and> (\<exists>n. sh (sl_map s) = Some n \<and> sl_off s + sl_cap s \<le> n)"

text \<open>
  \<open>vok sh f Q\<close>: from every state of shape \<open>sh\<close>, \<open>f\<close> does not panic, keeps the shape, and its result
  satisfies \<open>Q\<close>.
\<close>

definition vok :: "(nat \<Rightarrow> nat option) \<Rightarrow> 'a vm \<Rightarrow> ('a \<Rightarrow> bool) \<Rightarrow> bool" where
  "vok sh f Q \<longleftrightarrow>
     (\<forall>s r s1. shape (vs_mem s) = sh \<and> f s = (r, s1) \<longrightarrow>
        r \<noteq> Panic \<and> shape (vs_mem s1) = sh \<and> (\<forall>x. r = Ok x \<longrightarrow> Q x))"

named_theorems vok_rules \<open>how the accesses to guest memory compose\<close>

lemma vok_ret [vok_rules]: "Q x \<Longrightarrow> vok sh (vret x) Q"
  by (simp add: vok_def vret_def)

lemma vok_err [vok_rules]: "vok sh (vgo (Err e)) Q"
  by (simp add: vok_def vgo_def)

lemma vok_go [vok_rules]: "r \<noteq> Panic \<Longrightarrow> (\<And>x. r = Ok x \<Longrightarrow> Q x) \<Longrightarrow> vok sh (vgo r) Q"
  by (cases r) (simp_all add: vok_def vgo_def)

lemma vok_bind [vok_rules]:
  assumes "vok sh f P" "\<And>x. P x \<Longrightarrow> vok sh (g x) Q"
  shows "vok sh (vbind f g) Q"
  unfolding vok_def
proof (intro allI impI)
  fix s :: vst and r s1 assume s: "shape (vs_mem s) = sh \<and> vbind f g s = (r, s1)"
  obtain r0 s0 where f: "f s = (r0, s0)" by (cases "f s")
  have p: "r0 \<noteq> Panic" "shape (vs_mem s0) = sh" "\<And>x. r0 = Ok x \<Longrightarrow> P x" using assms(1) s f unfolding vok_def by blast+
  show "r \<noteq> Panic \<and> shape (vs_mem s1) = sh \<and> (\<forall>x. r = Ok x \<longrightarrow> Q x)"
  proof (cases r0)
    case (Ok x)
    then have "g x s0 = (r, s1)" using s f by (simp add: vbind_def)
    then show ?thesis using assms(2) [OF p(3) [OF Ok]] p(2) unfolding vok_def by blast
  qed (use p s f in \<open>auto simp: vbind_def\<close>)
qed

lemma vok_mono: "vok sh f P \<Longrightarrow> (\<And>x. P x \<Longrightarrow> Q x) \<Longrightarrow> vok sh f Q"
  unfolding vok_def by blast

lemma vok_if [vok_rules]: "(b \<Longrightarrow> vok sh f Q) \<Longrightarrow> (\<not> b \<Longrightarrow> vok sh g Q) \<Longrightarrow> vok sh (if b then f else g) Q"
  by simp

lemma guest_view:
  assumes "guest_ok gw" "shape (vs_mem s) = sh" "sh i = Some n"
  obtains d where "gw (vs_tick s) (vs_mem s) i = Some d" "length d = n" "shape (gw (vs_tick s) (vs_mem s)) = sh"
proof -
  have m: "shape (gw (vs_tick s) (vs_mem s)) = sh" using assms(1,2) by (simp add: guest_ok_def)
  then have "shape (gw (vs_tick s) (vs_mem s)) i = Some n" using assms(3) by simp
  then show ?thesis using m that by (auto simp: shape_def)
qed

lemma peek_ok:
  assumes "guest_ok gw" "sh i = Some n" "off + k \<le> n"
  shows "vok sh (peek gw i off k) (\<lambda>b. length b = k)"
  unfolding vok_def
proof (intro allI impI)
  fix s :: vst and r s1 assume s: "shape (vs_mem s) = sh \<and> peek gw i off k s = (r, s1)"
  obtain d where "gw (vs_tick s) (vs_mem s) i = Some d" "length d = n" "shape (gw (vs_tick s) (vs_mem s)) = sh"
    by (rule guest_view [OF assms(1) conjunct1 [OF s] assms(2)])
  then show "r \<noteq> Panic \<and> shape (vs_mem s1) = sh \<and> (\<forall>x. r = Ok x \<longrightarrow> length x = k)"
    using s assms(3) by (auto simp: peek_def Let_def)
qed

lemma poke_ok:
  assumes "guest_ok gw" "sh i = Some n" "off + length bs \<le> n"
  shows "vok sh (poke gw i off bs) (\<lambda>u. True)"
  unfolding vok_def
proof (intro allI impI)
  fix s :: vst and r s1 assume s: "shape (vs_mem s) = sh \<and> poke gw i off bs s = (r, s1)"
  obtain d where d: "gw (vs_tick s) (vs_mem s) i = Some d" "length d = n" "shape (gw (vs_tick s) (vs_mem s)) = sh"
    by (rule guest_view [OF assms(1) conjunct1 [OF s] assms(2)])
  have "shape ((gw (vs_tick s) (vs_mem s))(i \<mapsto> splice d off bs)) = sh"
    using d assms(2,3) by (auto simp: shape_def fun_eq_iff)
  then show "r \<noteq> Panic \<and> shape (vs_mem s1) = sh \<and> (\<forall>x. r = Ok x \<longrightarrow> True)"
    using s d assms(3) by (auto simp: poke_def Let_def)
qed

lemma live_sub:
  assumes "live sh s" "lo \<le> hi" "hi \<le> sl_cap s"
  shows "\<exists>t. sl_sub s lo hi = Ok t \<and> live sh t \<and> sl_len t = hi - lo \<and> sl_map t = sl_map s \<and> sl_off t = sl_off s + lo"
  using assms by (auto simp: sl_sub_def live_def)

lemma live_from:
  assumes "live sh s" "lo \<le> sl_len s"
  shows "\<exists>t. sl_from s lo = Ok t \<and> live sh t \<and> sl_len t = sl_len s - lo \<and> sl_map t = sl_map s \<and> sl_off t = sl_off s + lo"
  using assms live_sub [OF assms(1), of lo "sl_len s"] by (auto simp: sl_from_def live_def)

lemma liveD: "live sh s \<Longrightarrow> \<exists>n. sh (sl_map s) = Some n \<and> sl_off s + sl_len s \<le> n"
  by (auto simp: live_def)

lemma ldLE_ok:
  assumes "guest_ok gw" "live sh s" "off + w \<le> sl_len s"
  shows "vok sh (ldLE gw w off s) (\<lambda>v. v < 256 ^ w)"
proof -
  obtain t where t: "sl_from s off = Ok t" "live sh t" "sl_len t = sl_len s - off"
    using live_from [OF assms(2), of off] assms(3) by auto
  obtain n where n: "sh (sl_map t) = Some n" "sl_off t + sl_len t \<le> n" using liveD [OF t(2)] by blast
  have "vok sh (peek gw (sl_map t) (sl_off t) w) (\<lambda>b. length b = w)"
    using n t(3) assms(3) by (intro peek_ok [where n = n] assms(1)) linarith+
  then have "vok sh (vbind (peek gw (sl_map t) (sl_off t) w) (\<lambda>b. vret (le_get b))) (\<lambda>v. v < 256 ^ w)"
    by (rule vok_bind) (auto intro!: vok_ret le_get_bound)
  then show ?thesis
    using t(1,3) assms(3) unfolding ldLE_def by (intro vok_bind [OF vok_go [where Q = "\<lambda>x. x = t"]]) auto
qed

lemma stLE_ok:
  assumes "guest_ok gw" "live sh s" "off + w \<le> sl_len s"
  shows "vok sh (stLE gw w v off s) (\<lambda>u. True)"
proof -
  obtain t where t: "sl_from s off = Ok t" "live sh t" "sl_len t = sl_len s - off"
    using live_from [OF assms(2), of off] assms(3) by auto
  obtain n where n: "sh (sl_map t) = Some n" "sl_off t + sl_len t \<le> n" using liveD [OF t(2)] by blast
  have "vok sh (poke gw (sl_map t) (sl_off t) (le_put w v)) (\<lambda>u. True)"
    using n t(3) assms(3) by (intro poke_ok [where n = n] assms(1)) (simp_all del: le_put_numeral)
  then show ?thesis
    using t(1,3) assms(3) unfolding stLE_def by (intro vok_bind [OF vok_go [where Q = "\<lambda>x. x = t"]]) auto
qed

lemma sl_bytes_ok:
  assumes "guest_ok gw" "live sh s"
  shows "vok sh (sl_bytes gw s) (\<lambda>b. length b = sl_len s)"
proof -
  obtain n where n: "sh (sl_map s) = Some n" "sl_off s + sl_len s \<le> n" using liveD [OF assms(2)] by blast
  then show ?thesis unfolding sl_bytes_def by (intro peek_ok [where n = n] assms(1))
qed

lemma sl_copy_ok:
  assumes "guest_ok gw" "live sh s"
  shows "vok sh (sl_copy gw s bs) (\<lambda>n. n = min (sl_len s) (length bs))"
proof -
  obtain n where n: "sh (sl_map s) = Some n" "sl_off s + sl_len s \<le> n" using liveD [OF assms(2)] by blast
  have "vok sh (poke gw (sl_map s) (sl_off s) (take (min (sl_len s) (length bs)) bs)) (\<lambda>u. True)"
    using n by (intro poke_ok [where n = n] assms(1)) simp_all
  then show ?thesis unfolding sl_copy_def Let_def by (intro vok_if vok_ret vok_bind) auto
qed

text \<open>Regions whose mapping has the declared size.\<close>

definition regions_ok :: "(nat \<Rightarrow> nat option) \<Rightarrow> memRegion list \<Rightarrow> bool" where
  "regions_ok sh rs \<longleftrightarrow> (\<forall>r \<in> set rs. live sh (mr_data r) \<and> sl_len (mr_data r) = mr_size r)"

lemma translate_ok:
  assumes "regions_ok sh rs"
  shows "translate rs gpa sz \<noteq> Panic" "translate rs gpa sz = Ok t \<Longrightarrow> live sh t \<and> sl_len t = sz"
proof -
  have "translate rs gpa sz \<noteq> Panic \<and> (translate rs gpa sz = Ok t \<longrightarrow> live sh t \<and> sl_len t = sz)"
    using assms
  proof (induction rs)
    case (Cons r rs)
    have r: "live sh (mr_data r)" "sl_len (mr_data r) = mr_size r" "sl_len (mr_data r) \<le> sl_cap (mr_data r)"
      and rs: "regions_ok sh rs" using Cons.prems by (auto simp: regions_ok_def live_def)
    show ?case
    proof (cases "mr_gpa r \<le> gpa \<and> gpa + sz \<le> mr_gpa r + mr_size r")
      case True
      then have "gpa - mr_gpa r + sz \<le> sl_cap (mr_data r)" using r by linarith
      from live_sub [OF r(1) le_add1 this] obtain u where
        u: "sl_sub (mr_data r) (gpa - mr_gpa r) (gpa - mr_gpa r + sz) = Ok u" "live sh u" "sl_len u = sz" by auto
      show ?thesis unfolding translate.simps if_P [OF True] using u by auto
    qed (use Cons.IH [OF rs] in auto)
  qed simp
  then show "translate rs gpa sz \<noteq> Panic" "translate rs gpa sz = Ok t \<Longrightarrow> live sh t \<and> sl_len t = sz" by simp_all
qed

end
