(* ===== verification/VuRing.thy ===== *)
theory VuRing
  imports VuMem
begin

text \<open>
  Split virtqueues, \<^verbatim>\<open>internal/vhost/vu/vring.go\<close>: binding the tables, taking requests off the avail
  ring, walking descriptor chains and indirect tables, and publishing completions on the used ring. All of
  it reads memory the guest owns and keeps changing.
\<close>

unbundle bit_operations_syntax

section \<open>Definitions\<close>

definition descFlagNext :: nat where "descFlagNext = 1"
definition descFlagWrite :: nat where "descFlagWrite = 2"
definition descFlagIndirect :: nat where "descFlagIndirect = 4"
definition vringAvailFNoInterrupt :: nat where "vringAvailFNoInterrupt = 1"

record rawDesc =
  rd_addr :: nat
  rd_length :: nat
  rd_write :: bool

record elem =
  el_head :: nat
  el_out :: "gslice list"
  el_in :: "gslice list"
  el_raw :: "rawDesc list"

text \<open>The descriptors of the eventfds are numbers; a nil slice or eventfd is \<open>None\<close>.\<close>

record vring =
  vq_num :: nat
  vq_desc :: "gslice option"
  vq_avail :: "gslice option"
  vq_used :: "gslice option"
  vq_lastAvail :: nat
  vq_usedIdx :: nat
  vq_kick :: "nat option"
  vq_call :: "nat option"
  vq_err :: "nat option"
  vq_enabled :: bool

record vringAddr =
  va_index :: nat
  va_desc :: nat
  va_used :: nat
  va_avail :: nat

text \<open>Each table is assigned as soon as it is looked up, and becomes nil when that fails. Mappings start on pages.\<close>

definition vring_setup :: "memRegion list \<Rightarrow> vringAddr \<Rightarrow> vring \<Rightarrow> (verr, unit) go \<times> vring" where
  "vring_setup mt a v =
     (if vq_num v = 0 then (Err ''SET_VRING_ADDR before SET_VRING_NUM'', v)
      else (case translate mt (va_desc a) (vq_num v * 16) of
              Panic \<Rightarrow> (Panic, v)
            | Err e \<Rightarrow> (Err ''desc table'', v\<lparr>vq_desc := None\<rparr>)
            | Ok d \<Rightarrow>
                let v1 = v\<lparr>vq_desc := Some d\<rparr> in
                (case translate mt (va_avail a) (4 + vq_num v * 2) of
                   Panic \<Rightarrow> (Panic, v1)
                 | Err e \<Rightarrow> (Err ''avail ring'', v1\<lparr>vq_avail := None\<rparr>)
                 | Ok av \<Rightarrow>
                     let v2 = v1\<lparr>vq_avail := Some av\<rparr> in
                     (case translate mt (va_used a) (4 + vq_num v * 8) of
                        Panic \<Rightarrow> (Panic, v2)
                      | Err e \<Rightarrow> (Err ''used ring'', v2\<lparr>vq_used := None\<rparr>)
                      | Ok u \<Rightarrow>
                          let v3 = v2\<lparr>vq_used := Some u\<rparr> in
                          if sl_off av mod 4 \<noteq> 0 then (Err ''avail ring is not 4-byte aligned'', v3)
                          else if sl_off u mod 4 \<noteq> 0 then (Err ''used ring is not 4-byte aligned'', v3)
                          else (Ok (), v3)))))"

text \<open>The address of the first byte; \<^verbatim>\<open>&s[0]\<close> panics on an empty slice.\<close>

definition first_byte :: "gslice option \<Rightarrow> (verr, nat \<times> nat) go" where
  "first_byte so = (case so of None \<Rightarrow> Panic | Some s \<Rightarrow> if sl_len s = 0 then Panic else Ok (sl_map s, sl_off s))"

definition availIdx :: "guest \<Rightarrow> vring \<Rightarrow> nat vm" where
  "availIdx gw v =
     vbind (vgo (first_byte (vq_avail v))) (\<lambda>(i, off). vbind (peek gw i off 4) (\<lambda>b. vret (le_get b div 2 ^ 16)))"

text \<open>A nil slice has length 0.\<close>

definition or_nil :: "gslice option \<Rightarrow> gslice" where
  "or_nil so = (case so of None \<Rightarrow> \<lparr>sl_map = 0, sl_off = 0, sl_len = 0, sl_cap = 0\<rparr> | Some s \<Rightarrow> s)"

definition addDesc :: "guest \<Rightarrow> gslice \<Rightarrow> rawDesc vm" where
  "addDesc gw d =
     vbind (ldLE gw 8 0 d) (\<lambda>addr.
     vbind (ldLE gw 4 8 d) (\<lambda>len.
     vbind (ldLE gw 2 12 d) (\<lambda>flags.
     if len = 0 then vgo (Err ''zero-length descriptor'')
     else vret \<lparr>rd_addr = addr, rd_length = len, rd_write = (flags AND descFlagWrite \<noteq> 0)\<rparr>)))"

primrec walkTable :: "guest \<Rightarrow> gslice \<Rightarrow> nat list \<Rightarrow> rawDesc list vm" where
  "walkTable gw tbl [] = vgo (Err ''indirect table ran off end without clearing NEXT'')"
| "walkTable gw tbl (i # is) =
     vbind (vgo (sl_from tbl (i * 16))) (\<lambda>d.
     vbind (addDesc gw d) (\<lambda>r.
     vbind (ldLE gw 2 12 d) (\<lambda>flags.
     if flags AND descFlagNext = 0 then vret [r]
     else vbind (walkTable gw tbl is) (\<lambda>rs. vret (r # rs)))))"

definition descAt :: "vring \<Rightarrow> nat \<Rightarrow> (verr, gslice) go" where
  "descAt v idx =
     (if vq_num v \<le> idx then Err ''descriptor index'' else sl_sub (or_nil (vq_desc v)) (idx * 16) (idx * 16 + 16))"

text \<open>The chain from \<open>idx\<close> with \<open>k\<close> descriptors still allowed.\<close>

primrec chain_loop :: "guest \<Rightarrow> memRegion list \<Rightarrow> vring \<Rightarrow> nat \<Rightarrow> nat \<Rightarrow> rawDesc list vm" where
  "chain_loop gw mt v 0 idx = vgo (Err ''descriptor chain loop'')"
| "chain_loop gw mt v (Suc k) idx =
     vbind (vgo (descAt v idx)) (\<lambda>d.
     vbind (ldLE gw 2 12 d) (\<lambda>flags.
     if flags AND descFlagIndirect \<noteq> 0
     then vbind (ldLE gw 8 0 d) (\<lambda>taddr.
          vbind (ldLE gw 4 8 d) (\<lambda>tlen.
          if flags AND descFlagNext \<noteq> 0 then vgo (Err ''indirect descriptor with NEXT'')
          else if tlen mod 16 \<noteq> 0 then vgo (Err ''indirect table len'')
          else vbind (vgo (translate mt taddr tlen)) (\<lambda>tbl. walkTable gw tbl [0..<tlen div 16])))
     else vbind (addDesc gw d) (\<lambda>r.
          if flags AND descFlagNext = 0 then vret [r]
          else vbind (ldLE gw 2 14 d) (\<lambda>next.
               vbind (chain_loop gw mt v k next) (\<lambda>rs. vret (r # rs))))))"

definition walkChain :: "guest \<Rightarrow> memRegion list \<Rightarrow> vring \<Rightarrow> nat \<Rightarrow> elem vm" where
  "walkChain gw mt v head =
     vbind (chain_loop gw mt v (2 * vq_num v + 1) head) (\<lambda>raw.
     if raw = [] then vgo (Err ''empty descriptor chain'')
     else vret \<lparr>el_head = head, el_out = [], el_in = [], el_raw = raw\<rparr>)"

text \<open>The ring advances before the chain is walked.\<close>

definition pop :: "guest \<Rightarrow> memRegion list \<Rightarrow> vring \<Rightarrow> vst \<Rightarrow> ((verr, elem option) go \<times> vring) \<times> vst" where
  "pop gw mt v s =
     (if vq_desc v = None then ((Err ''pop on unconfigured vring'', v), s)
      else (case vbind (availIdx gw v) (\<lambda>avail.
                   if avail = vq_lastAvail v mod 2 ^ 16 then vret None
                   else if vq_num v = 0 then vgo Panic
                   else vbind (ldLE gw 2 (4 + vq_lastAvail v mod 2 ^ 16 mod vq_num v * 2) (or_nil (vq_avail v))) (\<lambda>head.
                        vret (Some head))) s of
              (Panic, s1) \<Rightarrow> ((Panic, v), s1)
            | (Err e, s1) \<Rightarrow> ((Err e, v), s1)
            | (Ok None, s1) \<Rightarrow> ((Ok None, v), s1)
            | (Ok (Some head), s1) \<Rightarrow>
                let v1 = v\<lparr>vq_lastAvail := (vq_lastAvail v + 1) mod 2 ^ 16\<rparr> in
                (case walkChain gw mt v1 head s1 of
                   (Ok e, s2) \<Rightarrow> ((Ok (Some e), v1), s2)
                 | (Err e, s2) \<Rightarrow> ((Err e, v1), s2)
                 | (Panic, s2) \<Rightarrow> ((Panic, v1), s2))))"

primrec sg_lists :: "memRegion list \<Rightarrow> rawDesc list \<Rightarrow> (verr, gslice list \<times> gslice list) go" where
  "sg_lists mt [] = Ok ([], [])"
| "sg_lists mt (d # ds) =
     go_bind (translate mt (rd_addr d) (rd_length d)) (\<lambda>b.
     go_bind (sg_lists mt ds) (\<lambda>(outs, ins). if rd_write d then Ok (outs, b # ins) else Ok (b # outs, ins)))"

definition translateSG :: "memRegion list \<Rightarrow> elem \<Rightarrow> (verr, elem) go" where
  "translateSG mt e =
     go_bind (sg_lists mt (el_raw e)) (\<lambda>(outs, ins). Ok (e\<lparr>el_out := el_out e @ outs, el_in := el_in e @ ins, el_raw := []\<rparr>))"

definition push :: "guest \<Rightarrow> vring \<Rightarrow> elem \<Rightarrow> nat \<Rightarrow> vst \<Rightarrow> ((verr, unit) go \<times> vring) \<times> vst" where
  "push gw v e usedLen s =
     (if vq_num v = 0 then ((Panic, v), s)
      else let slot = vq_usedIdx v mod vq_num v;
               used = or_nil (vq_used v);
               v1 = v\<lparr>vq_usedIdx := (vq_usedIdx v + 1) mod 2 ^ 32\<rparr>
           in (case vbind (stLE gw 4 (el_head e) (4 + slot * 8) used) (\<lambda>_.
                    vbind (stLE gw 4 usedLen (4 + slot * 8 + 4) used) (\<lambda>_.
                    vbind (vgo (first_byte (vq_used v))) (\<lambda>(i, off).
                    vbind (peek gw i off 4) (\<lambda>old.
                    poke (\<lambda>k m. m) i off (le_put 4 (le_get old mod 2 ^ 16 + vq_usedIdx v1 mod 2 ^ 16 * 2 ^ 16)))))) s of
                 (r, s1) \<Rightarrow> ((r, v1), s1)))"

text \<open>Whether the guest is to be interrupted.\<close>

definition notify :: "guest \<Rightarrow> vring \<Rightarrow> bool vm" where
  "notify gw v =
     vbind (ldLE gw 2 0 (or_nil (vq_avail v))) (\<lambda>flags.
     vret (\<not> (flags AND vringAvailFNoInterrupt \<noteq> 0 \<or> vq_call v = None)))"

section \<open>Walking chains\<close>

text \<open>The tables of a ring that is set up for its current size.\<close>

definition vring_ok :: "(nat \<Rightarrow> nat option) \<Rightarrow> vring \<Rightarrow> bool" where
  "vring_ok sh v \<longleftrightarrow> 0 < vq_num v \<and>
     (\<exists>d a u. vq_desc v = Some d \<and> vq_avail v = Some a \<and> vq_used v = Some u \<and>
        live sh d \<and> live sh a \<and> live sh u \<and>
        vq_num v * 16 \<le> sl_len d \<and> 4 + vq_num v * 2 \<le> sl_len a \<and> 4 + vq_num v * 8 \<le> sl_len u)"

text \<open>What publishing results needs of it: the available and the used ring.\<close>

definition pub_ok :: "(nat \<Rightarrow> nat option) \<Rightarrow> vring \<Rightarrow> bool" where
  "pub_ok sh v \<longleftrightarrow> 0 < vq_num v \<and>
     (\<exists>a u. vq_avail v = Some a \<and> vq_used v = Some u \<and> live sh a \<and> live sh u \<and>
        4 + vq_num v * 2 \<le> sl_len a \<and> 4 + vq_num v * 8 \<le> sl_len u)"

lemma vring_ok_pub: "vring_ok sh v \<Longrightarrow> pub_ok sh v"
  by (auto simp: vring_ok_def pub_ok_def)

lemma addDesc_ok:
  assumes "guest_ok gw" "live sh d" "16 \<le> sl_len d"
  shows "vok sh (addDesc gw d) (\<lambda>r. 0 < rd_length r \<and> rd_length r < 2 ^ 32)"
  unfolding addDesc_def using assms
  by (intro vok_bind [OF ldLE_ok] vok_if vok_ret vok_err) auto

lemma walkTable_ok:
  assumes "guest_ok gw" "live sh tbl" "\<forall>i \<in> set is. i * 16 + 16 \<le> sl_len tbl"
  shows "vok sh (walkTable gw tbl is) (\<lambda>rs. rs \<noteq> [] \<and> length rs \<le> length is \<and> (\<forall>r \<in> set rs. 0 < rd_length r))"
  using assms(3)
proof (induction "is")
  case Nil
  then show ?case by (simp add: vok_err)
next
  case (Cons i "is")
  have i: "i * 16 + 16 \<le> sl_len tbl" using Cons.prems by simp
  obtain d where d: "sl_from tbl (i * 16) = Ok d" "live sh d" "sl_len d = sl_len tbl - i * 16"
    using live_from [OF assms(2), of "i * 16"] i by auto
  have l: "16 \<le> sl_len d" using d(3) i by simp
  have ih: "vok sh (walkTable gw tbl is) (\<lambda>rs. rs \<noteq> [] \<and> length rs \<le> length is \<and> (\<forall>r \<in> set rs. 0 < rd_length r))"
    using Cons by simp
  have "vok sh (vbind (addDesc gw d) (\<lambda>r. vbind (ldLE gw 2 12 d) (\<lambda>flags.
      if flags AND descFlagNext = 0 then vret [r] else vbind (walkTable gw tbl is) (\<lambda>rs. vret (r # rs)))))
    (\<lambda>rs. rs \<noteq> [] \<and> length rs \<le> length (i # is) \<and> (\<forall>r \<in> set rs. 0 < rd_length r))"
    using l by (intro vok_bind [OF addDesc_ok [OF assms(1) d(2) l]] vok_bind [OF ldLE_ok [OF assms(1) d(2)]]
        vok_if vok_ret vok_bind [OF ih]) auto
  then show ?case using d(1) by (auto intro!: vok_bind [OF vok_go [where Q = "\<lambda>x. x = d"]])
qed

lemma descAt_ok:
  assumes "vring_ok sh v"
  shows "descAt v idx \<noteq> Panic" "descAt v idx = Ok d \<Longrightarrow> live sh d \<and> sl_len d = 16"
proof -
  obtain t where t: "vq_desc v = Some t" "live sh t" "vq_num v * 16 \<le> sl_len t" using assms by (auto simp: vring_ok_def)
  have c: "idx * 16 + 16 \<le> sl_cap t" if "idx < vq_num v"
  proof -
    have "idx * 16 + 16 \<le> vq_num v * 16" using that by simp
    then show ?thesis using t(2,3) by (simp add: live_def)
  qed
  have "descAt v idx \<noteq> Panic \<and> (descAt v idx = Ok d \<longrightarrow> live sh d \<and> sl_len d = 16)"
  proof (cases "idx < vq_num v")
    case True
    from live_sub [OF t(2) le_add1 c [OF True]] obtain u where
      "sl_sub t (idx * 16) (idx * 16 + 16) = Ok u" "live sh u" "sl_len u = 16" by auto
    then show ?thesis using True t(1) by (auto simp: descAt_def or_nil_def)
  qed (simp add: descAt_def)
  then show "descAt v idx \<noteq> Panic" "descAt v idx = Ok d \<Longrightarrow> live sh d \<and> sl_len d = 16" by simp_all
qed

lemma table_entries: "i < tlen div 16 \<Longrightarrow> i * 16 + 16 \<le> (tlen::nat)"
proof -
  assume "i < tlen div 16"
  then have "(i + 1) * 16 \<le> tlen div 16 * 16" by (intro mult_le_mono1) simp
  also have "\<dots> \<le> tlen" by simp
  finally show ?thesis by simp
qed

lemma chain_loop_ok:
  assumes "guest_ok gw" "vring_ok sh v" "regions_ok sh mt"
  shows "vok sh (chain_loop gw mt v k idx) (\<lambda>rs. rs \<noteq> [] \<and> (\<forall>r \<in> set rs. 0 < rd_length r))"
proof (induction k arbitrary: idx)
  case 0
  then show ?case by (simp add: vok_err)
next
  case (Suc k)
  have tr: "vok sh (vgo (translate mt a n)) (\<lambda>t. live sh t \<and> sl_len t = n)" for a n
    using translate_ok [OF assms(3)] by (intro vok_go) blast+
  have de: "vok sh (vgo (descAt v idx)) (\<lambda>d. live sh d \<and> sl_len d = 16)"
    using descAt_ok [OF assms(2)] by (intro vok_go) blast+
  have wt: "vok sh (walkTable gw t [0..<tlen div 16]) (\<lambda>rs. rs \<noteq> [] \<and> (\<forall>r \<in> set rs. 0 < rd_length r))"
    if "live sh t \<and> sl_len t = tlen" for t tlen
    using that table_entries by (intro vok_mono [OF walkTable_ok [OF assms(1)]]) auto
  show ?case
    unfolding chain_loop.simps
    by (rule vok_bind [OF de])
      (intro vok_bind [OF ldLE_ok [OF assms(1)]] vok_if vok_err vok_ret vok_bind [OF tr] wt vok_bind [OF addDesc_ok [OF assms(1)]]
        vok_bind [OF Suc.IH], auto)
qed


lemma vring_ok_upd [simp]:
  "vring_ok sh (v\<lparr>vq_lastAvail := n\<rparr>) = vring_ok sh v" "vring_ok sh (v\<lparr>vq_usedIdx := n\<rparr>) = vring_ok sh v"
  "vring_ok sh (v\<lparr>vq_kick := k\<rparr>) = vring_ok sh v" "vring_ok sh (v\<lparr>vq_call := k\<rparr>) = vring_ok sh v"
  "vring_ok sh (v\<lparr>vq_err := k\<rparr>) = vring_ok sh v" "vring_ok sh (v\<lparr>vq_enabled := b\<rparr>) = vring_ok sh v"
  by (simp_all add: vring_ok_def)

lemma walkChain_ok:
  assumes "guest_ok gw" "vring_ok sh v" "regions_ok sh mt"
  shows "vok sh (walkChain gw mt v head) (\<lambda>e. el_out e = [] \<and> el_in e = [] \<and> el_raw e \<noteq> [] \<and> (\<forall>r \<in> set (el_raw e). 0 < rd_length r))"
  unfolding walkChain_def by (intro vok_bind [OF chain_loop_ok [OF assms]] vok_if vok_err vok_ret) simp

lemma first_byte_ok:
  assumes "live sh t" "4 \<le> sl_len t"
  shows "vok sh (vgo (first_byte (Some t))) (\<lambda>(i, off). \<exists>n. sh i = Some n \<and> off + 4 \<le> n)"
  using assms liveD [OF assms(1)] by (intro vok_go) (auto simp: first_byte_def)

text \<open>A ring access that leaves the state of the ring to its caller.\<close>

definition vok2 ::
  "(nat \<Rightarrow> nat option) \<Rightarrow> (vst \<Rightarrow> ((verr, 'a) go \<times> vring) \<times> vst) \<Rightarrow> (vring \<Rightarrow> bool) \<Rightarrow> ('a \<Rightarrow> bool) \<Rightarrow> bool" where
  "vok2 sh f I Q \<longleftrightarrow>
     (\<forall>s r v1 s1. shape (vs_mem s) = sh \<and> f s = ((r, v1), s1) \<longrightarrow>
        r \<noteq> Panic \<and> shape (vs_mem s1) = sh \<and> I v1 \<and> (\<forall>x. r = Ok x \<longrightarrow> Q x))"

lemma pop_ok:
  assumes "guest_ok gw" "vring_ok sh v" "regions_ok sh mt"
  shows "vok2 sh (pop gw mt v) (vring_ok sh) (\<lambda>eo. \<forall>e. eo = Some e \<longrightarrow>
      el_out e = [] \<and> el_in e = [] \<and> el_raw e \<noteq> [] \<and> (\<forall>r \<in> set (el_raw e). 0 < rd_length r))"
proof -
  let ?head = "vbind (availIdx gw v) (\<lambda>avail.
                   if avail = vq_lastAvail v mod 2 ^ 16 then vret None
                   else if vq_num v = 0 then vgo Panic
                   else vbind (ldLE gw 2 (4 + vq_lastAvail v mod 2 ^ 16 mod vq_num v * 2) (or_nil (vq_avail v))) (\<lambda>head.
                        vret (Some head)))"
  obtain d a where a: "0 < vq_num v" "vq_desc v = Some d" "vq_avail v = Some a" "live sh a" "4 + vq_num v * 2 \<le> sl_len a"
    using assms(2) by (auto simp: vring_ok_def)
  have "vok sh (availIdx gw v) (\<lambda>n. True)"
    unfolding availIdx_def a(3) using a(5)
    by (intro vok_bind [OF first_byte_ok [OF a(4)]]) (auto intro!: vok_bind [OF peek_ok [OF assms(1)]] vok_ret)
  moreover have "4 + vq_lastAvail v mod 2 ^ 16 mod vq_num v * 2 + 2 \<le> sl_len a"
  proof -
    have "vq_lastAvail v mod 2 ^ 16 mod vq_num v < vq_num v" using a(1) by simp
    then have "vq_lastAvail v mod 2 ^ 16 mod vq_num v * 2 + 2 \<le> vq_num v * 2" by simp
    then show ?thesis using a(5) by linarith
  qed
  ultimately have hd: "vok sh ?head (\<lambda>h. True)"
    using a(1,3,4) by (intro vok_bind [where P = "\<lambda>n. True"] vok_if vok_ret vok_bind [OF ldLE_ok [OF assms(1)]])
      (simp_all add: or_nil_def)
  show ?thesis
    unfolding vok2_def
  proof (intro allI impI)
    fix s :: vst and r v1 s1 assume s: "shape (vs_mem s) = sh \<and> pop gw mt v s = ((r, v1), s1)"
    obtain h s0 where h: "?head s = (h, s0)" by (cases "?head s")
    have h0: "h \<noteq> Panic" "shape (vs_mem s0) = sh" using hd h s unfolding vok_def by blast+
    note run = conjunct2 [OF s, unfolded pop_def a(2) h prod.case]
    show "r \<noteq> Panic \<and> shape (vs_mem s1) = sh \<and> vring_ok sh v1 \<and> (\<forall>x. r = Ok x \<longrightarrow>
        (\<forall>e. x = Some e \<longrightarrow> el_out e = [] \<and> el_in e = [] \<and> el_raw e \<noteq> [] \<and> (\<forall>r \<in> set (el_raw e). 0 < rd_length r)))"
    proof (cases "\<exists>head. h = Ok (Some head)")
      case True
      then obtain head where hd: "h = Ok (Some head)" by blast
      define v2 where "v2 = v\<lparr>vq_lastAvail := (vq_lastAvail v + 1) mod 2 ^ 16\<rparr>"
      have v2: "vring_ok sh v2" using assms(2) by (simp add: v2_def)
      obtain c s2 where c: "walkChain gw mt v2 head s0 = (c, s2)" by (cases "walkChain gw mt v2 head s0")
      have w: "c \<noteq> Panic" "shape (vs_mem s2) = sh"
        "\<And>e. c = Ok e \<Longrightarrow> el_out e = [] \<and> el_in e = [] \<and> el_raw e \<noteq> [] \<and> (\<forall>r \<in> set (el_raw e). 0 < rd_length r)"
        using walkChain_ok [OF assms(1) v2 assms(3), of head] c h0(2) unfolding vok_def by blast+
      have "((r, v1), s1) = (case c of Ok e \<Rightarrow> ((Ok (Some e), v2), s2) | Err e \<Rightarrow> ((Err e, v2), s2) | Panic \<Rightarrow> ((Panic, v2), s2))"
        using run unfolding hd Let_def go.case option.case v2_def [symmetric] c prod.case by (simp split: go.splits)
      then show ?thesis using w v2 by (cases c) auto
    qed (use run h0 assms(2) in \<open>auto split: go.splits option.splits\<close>)
  qed
qed

lemma push_ok:
  assumes "guest_ok gw" "pub_ok sh v"
  shows "vok2 sh (push gw v e n) (pub_ok sh) (\<lambda>u. True)"
proof -
  obtain u where u: "0 < vq_num v" "vq_used v = Some u" "live sh u" "4 + vq_num v * 8 \<le> sl_len u"
    using assms(2) by (auto simp: pub_ok_def)
  define slot where "slot = vq_usedIdx v mod vq_num v"
  have "slot < vq_num v" using u(1) by (simp add: slot_def)
  then have sl: "4 + slot * 8 + 4 + 4 \<le> sl_len u" using u(4) by linarith
  have idg: "guest_ok (\<lambda>k m. m)" by (simp add: guest_ok_def)
  define v1 where "v1 = v\<lparr>vq_usedIdx := (vq_usedIdx v + 1) mod 2 ^ 32\<rparr>"
  define P where "P = vbind (stLE gw 4 (el_head e) (4 + slot * 8) u) (\<lambda>_.
                    vbind (stLE gw 4 n (4 + slot * 8 + 4) u) (\<lambda>_.
                    vbind (vgo (first_byte (Some u))) (\<lambda>(i, off).
                    vbind (peek gw i off 4) (\<lambda>old.
                    poke (\<lambda>k m. m) i off (le_put 4 (le_get old mod 2 ^ 16 + vq_usedIdx v1 mod 2 ^ 16 * 2 ^ 16))))))"
  have "vok sh P (\<lambda>u. True)"
    unfolding P_def using sl u(3)
    by (intro vok_bind [OF stLE_ok [OF assms(1)]] vok_bind [OF first_byte_ok])
      (auto intro!: vok_bind [OF peek_ok [OF assms(1)]] poke_ok [OF idg] simp del: le_put_numeral)
  moreover have "push gw v e n s = (case P s of (r, s1) \<Rightarrow> ((r, v1), s1))" for s
    using u(1) unfolding push_def Let_def P_def v1_def slot_def u(2) or_nil_def option.case by simp
  moreover have "pub_ok sh v1" using assms(2) by (simp add: v1_def pub_ok_def)
  ultimately show ?thesis unfolding vok2_def vok_def by (auto split: prod.splits)
qed

lemma notify_ok:
  assumes "guest_ok gw" "pub_ok sh v"
  shows "vok sh (notify gw v) (\<lambda>b. True)"
proof -
  obtain a where "vq_avail v = Some a" "live sh a" "4 + vq_num v * 2 \<le> sl_len a" using assms(2) by (auto simp: pub_ok_def)
  then show ?thesis unfolding notify_def
    by (intro vok_bind [OF ldLE_ok [OF assms(1)]] vok_ret) (simp_all add: or_nil_def)
qed

lemma sg_lists_ok:
  assumes "regions_ok sh mt" "\<forall>d \<in> set ds. 0 < rd_length d"
  shows "sg_lists mt ds \<noteq> Panic"
    "sg_lists mt ds = Ok (outs, ins) \<Longrightarrow> length outs + length ins = length ds \<and>
       (\<forall>t \<in> set (outs @ ins). live sh t \<and> 0 < sl_len t)"
proof -
  have "sg_lists mt ds \<noteq> Panic \<and> (\<forall>outs ins. sg_lists mt ds = Ok (outs, ins) \<longrightarrow>
      length outs + length ins = length ds \<and> (\<forall>t \<in> set (outs @ ins). live sh t \<and> 0 < sl_len t))"
    using assms(2)
  proof (induction ds)
    case (Cons d ds)
    note tr = translate_ok [OF assms(1), of "rd_addr d" "rd_length d"]
    have ds: "\<forall>d \<in> set ds. 0 < rd_length d" and d: "0 < rd_length d" using Cons.prems by simp_all
    show ?case using Cons.IH [OF ds] tr d by (fastforce split: if_splits)
  qed simp
  then show "sg_lists mt ds \<noteq> Panic"
    "sg_lists mt ds = Ok (outs, ins) \<Longrightarrow> length outs + length ins = length ds \<and>
       (\<forall>t \<in> set (outs @ ins). live sh t \<and> 0 < sl_len t)" by blast+
qed

definition sg_ok :: "(nat \<Rightarrow> nat option) \<Rightarrow> elem \<Rightarrow> bool" where
  "sg_ok sh e \<longleftrightarrow> (\<forall>t \<in> set (el_out e @ el_in e). live sh t \<and> 0 < sl_len t)"

lemma translateSG_ok:
  assumes "regions_ok sh mt" "\<forall>r \<in> set (el_raw e). 0 < rd_length r" "el_out e = []" "el_in e = []"
  shows "translateSG mt e \<noteq> Panic" "translateSG mt e = Ok e' \<Longrightarrow> sg_ok sh e'"
proof -
  note sg = sg_lists_ok [OF assms(1,2)]
  show "translateSG mt e \<noteq> Panic" using sg(1) by (auto simp: translateSG_def)
  show "sg_ok sh e'" if "translateSG mt e = Ok e'"
    using that sg(2) assms(3,4) by (auto simp: translateSG_def sg_ok_def)
qed

lemma vring_setup_ok:
  assumes "regions_ok sh mt" "vring_setup mt a v = (Ok (), v')"
  shows "vring_ok sh v'"
proof -
  note tr = translate_ok(2) [OF assms(1)]
  obtain d av u where t: "translate mt (va_desc a) (vq_num v * 16) = Ok d" "translate mt (va_avail a) (4 + vq_num v * 2) = Ok av"
    "translate mt (va_used a) (4 + vq_num v * 8) = Ok u" "0 < vq_num v"
    "v' = v\<lparr>vq_desc := Some d, vq_avail := Some av, vq_used := Some u\<rparr>"
    using assms(2) by (auto simp: vring_setup_def Let_def split: if_splits go.splits)
  show ?thesis using tr [OF t(1)] tr [OF t(2)] tr [OF t(3)] t(4,5) by (auto simp: vring_ok_def)
qed

end
