(* ===== verification/VuBlk.thy ===== *)
theory VuBlk
  imports VuRing Qcow2Convert
begin

text \<open>
  The virtio-blk device, \<^verbatim>\<open>internal/vhost/vu/blk.go\<close>: executing one request against the storage
  behind the device. What the device relies on is the locale \<open>blk_store\<close>, interpreted for qcow2 images
  and for raw files opened for writing and for images opened read-only. The pooled bounce buffers are
  fresh lists: only bytes that were read into them are used.
\<close>

unbundle bit_operations_syntax

section \<open>Definitions\<close>

definition blkTIn :: nat where "blkTIn = 0"
definition blkTOut :: nat where "blkTOut = 1"
definition blkTFlush :: nat where "blkTFlush = 4"
definition blkTGetID :: nat where "blkTGetID = 8"
definition blkSOK :: nat where "blkSOK = 0"
definition blkSIOErr :: nat where "blkSIOErr = 1"
definition blkSUnsupp :: nat where "blkSUnsupp = 2"
definition blkConfigSize :: nat where "blkConfigSize = 60"
definition blkID :: string where "blkID = ''pvm-vublk''"

text \<open>The methods of the interface; \<open>'b\<close> is the state behind it.\<close>

record 'b Backend =
  be_ReadAt :: "nat \<Rightarrow> nat \<Rightarrow> 'b \<Rightarrow> (u8 list \<times> qerr option) \<times> 'b"
  be_WriteAt :: "u8 list \<Rightarrow> nat \<Rightarrow> 'b \<Rightarrow> (nat \<times> qerr option) \<times> 'b"
  be_Sync :: "'b \<Rightarrow> bool \<times> 'b"
  be_Size :: "'b \<Rightarrow> nat"

definition NewBlkDev :: "nat \<Rightarrow> u8 list" where
  "NewBlkDev sz =
     (let c0 = replicate blkConfigSize 0;
          c1 = splice c0 0 (le_put 8 (sz div 512));
          c2 = splice c1 8 (le_put 4 65536);
          c3 = splice c2 12 (le_put 4 126);
          c4 = splice c3 20 (le_put 4 512);
          c5 = splice c4 26 (le_put 2 1);
          c6 = splice c5 28 (le_put 4 1)
      in splice c6 34 (le_put 2 1))"

definition blk_features :: "bool \<Rightarrow> nat" where
  "blk_features ro = (2 ^ 1 OR 2 ^ 2 OR 2 ^ 6 OR 2 ^ 9 OR 2 ^ 30 OR 2 ^ 32) OR (if ro then 2 ^ 5 else 0)"

definition blk_config :: "u8 list \<Rightarrow> nat \<Rightarrow> nat \<Rightarrow> (verr, u8 list) go" where
  "blk_config cfg off sz = (if blkConfigSize < off + sz then Err ''config read out of range'' else slice cfg off (off + sz))"

definition inRange :: "nat \<Rightarrow> nat \<Rightarrow> nat \<Rightarrow> bool" where
  "inRange sz sector len =
     (if (2 ^ 64 - 1) div 512 < sector then False
      else let off = sector * 512 in
        if 2 ^ 64 - 1 - off < len then False else off + len \<le> sz)"

definition sgLen :: "gslice list \<Rightarrow> nat" where
  "sgLen sg = sum_list (map sl_len sg)"

primrec sgGather :: "guest \<Rightarrow> gslice list \<Rightarrow> u8 list vm" where
  "sgGather gw [] = vret []"
| "sgGather gw (t # ts) = vbind (sl_bytes gw t) (\<lambda>b. vbind (sgGather gw ts) (\<lambda>bs. vret (b @ bs)))"

primrec sgCopy :: "guest \<Rightarrow> gslice list \<Rightarrow> u8 list \<Rightarrow> unit vm" where
  "sgCopy gw [] data = vret ()"
| "sgCopy gw (t # ts) data =
     (if data = [] then vret () else vbind (sl_copy gw t data) (\<lambda>n. sgCopy gw ts (drop n data)))"

text \<open>One case of \<^verbatim>\<open>process\<close> each: status, bytes written to the guest, and the storage.\<close>

definition blk_in :: "guest \<Rightarrow> 'b Backend \<Rightarrow> nat \<Rightarrow> gslice list \<Rightarrow> 'b \<Rightarrow> (nat \<times> nat \<times> 'b) vm" where
  "blk_in gw be sector dataIn b =
     (if \<not> inRange (be_Size be b) sector (sgLen dataIn) then vret (blkSIOErr, 1, b)
      else (case be_ReadAt be (sgLen dataIn) (sector * 512) b of
              ((bs, err), b1) \<Rightarrow>
                if err \<noteq> None \<and> err \<noteq> Some ''EOF'' then vret (blkSIOErr, length bs + 1, b1)
                else vbind (sgCopy gw dataIn bs) (\<lambda>_. vret (blkSOK, length bs + 1, b1))))"

definition blk_out :: "guest \<Rightarrow> 'b Backend \<Rightarrow> bool \<Rightarrow> nat \<Rightarrow> gslice list \<Rightarrow> 'b \<Rightarrow> (nat \<times> nat \<times> 'b) vm" where
  "blk_out gw be ro sector dataOut b =
     (if ro \<or> \<not> inRange (be_Size be b) sector (sgLen dataOut) then vret (blkSIOErr, 1, b)
      else vbind (sgGather gw dataOut) (\<lambda>buf.
           case be_WriteAt be buf (sector * 512) b of
             ((n, err), b1) \<Rightarrow> vret (if err \<noteq> None then blkSIOErr else blkSOK, 1, b1)))"

definition blk_flush :: "'b Backend \<Rightarrow> 'b \<Rightarrow> (nat \<times> nat \<times> 'b) vm" where
  "blk_flush be b = (case be_Sync be b of (ok, b1) \<Rightarrow> vret (if ok then blkSOK else blkSIOErr, 1, b1))"

definition blk_getid :: "guest \<Rightarrow> gslice list \<Rightarrow> 'b \<Rightarrow> (nat \<times> nat \<times> 'b) vm" where
  "blk_getid gw dataIn b =
     (let n = min 20 (sgLen dataIn)
      in vbind (sgCopy gw dataIn (take n (bytes_of blkID))) (\<lambda>_. vret (blkSOK, n + 1, b)))"

text \<open>The request type without the barrier bit.\<close>

definition blk_request :: "guest \<Rightarrow> 'b Backend \<Rightarrow> bool \<Rightarrow> nat \<Rightarrow> nat \<Rightarrow> gslice list \<Rightarrow> gslice list \<Rightarrow> 'b \<Rightarrow> (nat \<times> nat \<times> 'b) vm" where
  "blk_request gw be ro typ sector dataIn dataOut b =
     (let t = typ mod 2 ^ 31 in
      if t = blkTIn then blk_in gw be sector dataIn b
      else if t = blkTOut then blk_out gw be ro sector dataOut b
      else if t = blkTFlush then blk_flush be b
      else if t = blkTGetID then blk_getid gw dataIn b
      else vret (blkSUnsupp, 1, b))"

definition process :: "guest \<Rightarrow> 'b Backend \<Rightarrow> bool \<Rightarrow> elem \<Rightarrow> 'b \<Rightarrow> (nat \<times> 'b) vm" where
  "process gw be ro e b =
     (if el_out e = [] \<or> el_in e = [] then vgo (Err ''missing headers'')
      else let out = hd (el_out e); statusBuf = last (el_in e) in
        if sl_len out < 16 then vgo (Err ''outhdr too small'')
        else vbind (ldLE gw 4 0 out) (\<lambda>typ.
             vbind (ldLE gw 4 4 out) (\<lambda>ioprio.
             vbind (ldLE gw 8 8 out) (\<lambda>sector.
             if sl_len statusBuf < 1 then vgo (Err ''inhdr too small'')
             else vbind (blk_request gw be ro typ sector (butlast (el_in e)) (tl (el_out e)) b) (\<lambda>(status, usedLen, b1).
                  vbind (poke gw (sl_map statusBuf) (sl_off statusBuf) [word_of_nat status]) (\<lambda>_.
                  vret (usedLen mod 2 ^ 32, b1)))))))"

section \<open>No panics\<close>

lemma sgGather_ok:
  assumes "guest_ok gw" "\<forall>t \<in> set ts. live sh t"
  shows "vok sh (sgGather gw ts) (\<lambda>b. length b = sgLen ts)"
  using assms(2)
proof (induction ts)
  case (Cons t ts)
  then have ih: "vok sh (sgGather gw ts) (\<lambda>b. length b = sgLen ts)" and t: "live sh t" by simp_all
  show ?case unfolding sgGather.simps
    by (intro vok_bind [OF sl_bytes_ok [OF assms(1) t]] vok_bind [OF ih] vok_ret) (simp add: sgLen_def)
qed (simp add: sgLen_def vok_ret)

lemma sgCopy_ok:
  assumes "guest_ok gw" "\<forall>t \<in> set ts. live sh t"
  shows "vok sh (sgCopy gw ts bs) (\<lambda>u. True)"
  using assms(2)
proof (induction ts arbitrary: bs)
  case (Cons t ts)
  then have ih: "vok sh (sgCopy gw ts bs) (\<lambda>u. True)" and t: "live sh t" for bs by simp_all
  show ?case unfolding sgCopy.simps by (intro vok_if vok_ret vok_bind [OF sl_copy_ok [OF assms(1) t]] ih) simp
qed (simp add: vok_ret)

lemma blk_request_ok:
  assumes "guest_ok gw" "\<forall>t \<in> set dataIn. live sh t" "\<forall>t \<in> set dataOut. live sh t"
  shows "vok sh (blk_request gw be ro typ sector dataIn dataOut b) (\<lambda>r. True)"
proof -
  note cp = sgCopy_ok [OF assms(1,2)] and ga = sgGather_ok [OF assms(1,3)]
  have "vok sh (blk_in gw be sector dataIn b) (\<lambda>r. True)"
    unfolding blk_in_def by (auto split: prod.splits intro!: vok_if vok_ret vok_bind [OF cp])
  moreover have "vok sh (blk_out gw be ro sector dataOut b) (\<lambda>r. True)"
    unfolding blk_out_def by (auto split: prod.splits intro!: vok_if vok_ret vok_bind [OF ga])
  moreover have "vok sh (blk_flush be b) (\<lambda>r. True)"
    unfolding blk_flush_def by (auto split: prod.splits intro!: vok_ret)
  moreover have "vok sh (blk_getid gw dataIn b) (\<lambda>r. True)"
    unfolding blk_getid_def Let_def by (auto intro!: vok_ret vok_bind [OF cp])
  ultimately show ?thesis unfolding blk_request_def Let_def by (intro vok_if vok_ret) auto
qed

lemma process_ok:
  assumes "guest_ok gw" "sg_ok sh e"
  shows "vok sh (process gw be ro e b) (\<lambda>r. True)"
proof (cases "el_out e = [] \<or> el_in e = []")
  case True
  then show ?thesis by (simp add: process_def vok_err)
next
  case False
  then have l: "live sh (hd (el_out e))" "live sh (last (el_in e))" "0 < sl_len (last (el_in e))"
    and m: "\<forall>t \<in> set (butlast (el_in e)). live sh t" "\<forall>t \<in> set (tl (el_out e)). live sh t"
    using assms(2) by (auto simp: sg_ok_def dest: in_set_butlastD list.set_sel(2))
  obtain n where n: "sh (sl_map (last (el_in e))) = Some n" "sl_off (last (el_in e)) + sl_len (last (el_in e)) \<le> n"
    using liveD [OF l(2)] by blast
  have st: "vok sh (poke gw (sl_map (last (el_in e))) (sl_off (last (el_in e))) [x]) (\<lambda>u. True)" for x
    using n l(3) by (intro poke_ok [where n = n] assms(1)) simp_all
  show ?thesis
    unfolding process_def Let_def if_not_P [OF False]
    by (intro vok_if vok_err vok_bind [OF ldLE_ok [OF assms(1) l(1)]] vok_bind [OF blk_request_ok [OF assms(1) m]])
      (auto intro!: vok_bind [OF st] vok_ret)
qed


section \<open>Isolation\<close>

text \<open>A guest that does nothing while a request is executed.\<close>

definition quiet :: guest where
  "quiet k m = m"

definition covers :: "gslice \<Rightarrow> nat \<Rightarrow> nat \<Rightarrow> bool" where
  "covers t i x \<longleftrightarrow> i = sl_map t \<and> sl_off t \<le> x \<and> x < sl_off t + sl_len t"

definition mbyte :: "memory \<Rightarrow> nat \<Rightarrow> nat \<Rightarrow> u8 option" where
  "mbyte m i x = (case m i of None \<Rightarrow> None | Some d \<Rightarrow> if x < length d then Some (d ! x) else None)"

text \<open>\<open>only W f\<close>: \<open>f\<close> changes no byte outside \<open>W\<close>.\<close>

definition only :: "(nat \<Rightarrow> nat \<Rightarrow> bool) \<Rightarrow> 'a vm \<Rightarrow> bool" where
  "only W f \<longleftrightarrow> (\<forall>s r s1 i x. f s = (r, s1) \<and> \<not> W i x \<longrightarrow> mbyte (vs_mem s1) i x = mbyte (vs_mem s) i x)"

lemma only_ret: "only W (vret x)" "only W (vgo r)"
  by (simp_all add: only_def vret_def vgo_def)

lemma only_bind:
  assumes "only W f" "\<And>x. only W (g x)"
  shows "only W (vbind f g)"
  unfolding only_def
proof (intro allI impI)
  fix s r s1 i x assume a: "vbind f g s = (r, s1) \<and> \<not> W i x"
  obtain r0 s0 where f: "f s = (r0, s0)" by (cases "f s")
  then have 1: "mbyte (vs_mem s0) i x = mbyte (vs_mem s) i x" using assms(1) a by (simp add: only_def)
  show "mbyte (vs_mem s1) i x = mbyte (vs_mem s) i x"
  proof (cases r0)
    case (Ok y)
    then have "g y s0 = (r, s1)" using a f by (simp add: vbind_def)
    then show ?thesis using assms(2) [of y] a 1 unfolding only_def by metis
  qed (use a f 1 in \<open>auto simp: vbind_def\<close>)
qed

lemma only_if: "only W f \<Longrightarrow> only W g \<Longrightarrow> only W (if b then f else g)"
  by simp

lemma only_peek: "only W (peek quiet i off n)"
  by (auto simp: only_def peek_def quiet_def Let_def split: option.splits if_splits)

lemma only_poke:
  assumes "\<And>x. off \<le> x \<Longrightarrow> x < off + length bs \<Longrightarrow> W i x"
  shows "only W (poke quiet i off bs)"
proof -
  have "mbyte (m(i \<mapsto> splice d off bs)) j x = mbyte m j x"
    if "m i = Some d" "off + length bs \<le> length d" "\<not> W j x" for m d j x
    using that assms [of x] by (auto simp: mbyte_def nth_splice)
  then show ?thesis by (auto simp: only_def poke_def quiet_def Let_def split: option.splits if_splits)
qed

lemma only_ldLE: "only W (ldLE quiet w off t)"
  unfolding ldLE_def by (intro only_bind only_ret only_if only_peek)

lemma only_sl_copy:
  assumes "\<And>i x. covers t i x \<Longrightarrow> W i x"
  shows "only W (sl_copy quiet t bs)"
  unfolding sl_copy_def Let_def
  by (intro only_if only_ret only_bind only_poke) (auto intro!: assms simp: covers_def)

lemma only_sgCopy:
  assumes "\<And>t i x. t \<in> set ts \<Longrightarrow> covers t i x \<Longrightarrow> W i x"
  shows "only W (sgCopy quiet ts bs)"
  using assms
proof (induction ts arbitrary: bs)
  case (Cons t ts)
  have ih: "only W (sgCopy quiet ts bs)" for bs by (rule Cons.IH) (use Cons.prems in auto)
  show ?case unfolding sgCopy.simps by (intro only_if only_ret only_bind only_sl_copy ih) (use Cons.prems in auto)
qed (simp add: only_ret)

lemma only_sgGather: "only W (sgGather quiet ts)"
  by (induction ts) (auto simp: sl_bytes_def intro!: only_ret only_bind only_peek)

lemma only_blk_request:
  assumes "\<And>t i x. t \<in> set dataIn \<Longrightarrow> covers t i x \<Longrightarrow> W i x"
  shows "only W (blk_request quiet be ro typ sector dataIn dataOut b)"
proof -
  note cp = only_sgCopy [OF assms]
  have "only W (blk_in quiet be sector dataIn b)"
    unfolding blk_in_def by (auto split: prod.splits intro!: only_if only_ret only_bind cp)
  moreover have "only W (blk_out quiet be ro sector dataOut b)"
    unfolding blk_out_def by (auto split: prod.splits intro!: only_if only_ret only_bind only_sgGather)
  moreover have "only W (blk_flush be b)" unfolding blk_flush_def by (auto split: prod.splits intro!: only_ret)
  moreover have "only W (blk_getid quiet dataIn b)" unfolding blk_getid_def Let_def by (auto intro!: only_ret only_bind cp)
  ultimately show ?thesis unfolding blk_request_def Let_def by (intro only_if only_ret)
qed

lemma process_only:
  assumes "sg_ok sh e"
  shows "only (\<lambda>i x. \<exists>t \<in> set (el_in e). covers t i x) (process quiet be ro e b)"
proof (cases "el_out e = [] \<or> el_in e = []")
  case True
  then show ?thesis by (simp add: process_def only_ret)
next
  case False
  then have "last (el_in e) \<in> set (el_in e)" "0 < sl_len (last (el_in e))" using assms by (auto simp: sg_ok_def)
  then have st: "only (\<lambda>i x. \<exists>t \<in> set (el_in e). covers t i x)
      (poke quiet (sl_map (last (el_in e))) (sl_off (last (el_in e))) [y])" for y
    by (intro only_poke) (auto simp: covers_def intro!: bexI [of _ "last (el_in e)"])
  show ?thesis
    unfolding process_def Let_def if_not_P [OF False]
    by (intro only_if only_ret only_bind only_ldLE only_blk_request) (auto dest: in_set_butlastD intro!: only_bind only_ret st)
qed

section \<open>Bytes of a request\<close>

definition sl_data :: "memory \<Rightarrow> gslice \<Rightarrow> u8 list" where
  "sl_data m t = (case m (sl_map t) of None \<Rightarrow> [] | Some d \<Rightarrow> take (sl_len t) (drop (sl_off t) d))"

definition sg_data :: "memory \<Rightarrow> gslice list \<Rightarrow> u8 list" where
  "sg_data m ts = concat (map (sl_data m) ts)"

text \<open>No byte belongs to two buffers.\<close>

definition apart :: "gslice list \<Rightarrow> bool" where
  "apart ts \<longleftrightarrow> sorted_wrt (\<lambda>t u. \<forall>i x. \<not> (covers t i x \<and> covers u i x)) ts"

lemma sl_data_length: "live (shape m) t \<Longrightarrow> length (sl_data m t) = sl_len t"
  by (auto simp: live_def shape_def sl_data_def)

lemma sl_data_cong:
  assumes "live (shape m) t" "shape m' = shape m" "\<And>i x. covers t i x \<Longrightarrow> mbyte m' i x = mbyte m i x"
  shows "sl_data m' t = sl_data m t"
proof (rule nth_equalityI)
  show l: "length (sl_data m' t) = length (sl_data m t)" using sl_data_length [of _ t] assms(1,2) by simp
  fix k assume "k < length (sl_data m' t)"
  then have k: "k < sl_len t" using l sl_data_length [OF assms(1)] by simp
  obtain d where d: "m (sl_map t) = Some d" "sl_off t + sl_len t \<le> length d" using assms(1) by (auto simp: live_def shape_def)
  have "shape m' (sl_map t) = Some (length d)" using assms(2) d(1) by (simp add: shape_def)
  then obtain d' where d': "m' (sl_map t) = Some d'" "length d' = length d" by (auto simp: shape_def)
  have "mbyte m' (sl_map t) (sl_off t + k) = mbyte m (sl_map t) (sl_off t + k)"
    using k by (intro assms(3)) (simp add: covers_def)
  then show "sl_data m' t ! k = sl_data m t ! k" using d d' k by (simp add: sl_data_def mbyte_def)
qed

lemma ldLE_quiet:
  assumes "live (shape (vs_mem s)) t" "off + w \<le> sl_len t"
  shows "ldLE quiet w off t s = (Ok (le_fld w off (sl_data (vs_mem s) t)), s\<lparr>vs_tick := Suc (vs_tick s)\<rparr>)"
proof -
  obtain d where d: "vs_mem s (sl_map t) = Some d" "sl_off t + sl_len t \<le> length d" using assms(1) by (auto simp: live_def shape_def)
  obtain u where u: "sl_from t off = Ok u" "sl_len u = sl_len t - off" "sl_map u = sl_map t" "sl_off u = sl_off t + off"
    using live_from [OF assms(1), of off] assms(2) by auto
  have "take w (drop off (take (sl_len t) (drop (sl_off t) d))) = take w (drop (sl_off t + off) d)"
    using assms(2) by (simp add: drop_take add.commute min_def)
  then show ?thesis
    using u d assms(2) by (simp add: ldLE_def vbind_def vgo_def vret_def peek_def quiet_def Let_def le_fld_def sl_data_def)
qed

lemma sl_bytes_quiet:
  assumes "live (shape (vs_mem s)) t"
  shows "sl_bytes quiet t s = (Ok (sl_data (vs_mem s) t), s\<lparr>vs_tick := Suc (vs_tick s)\<rparr>)"
  using assms by (auto simp: sl_bytes_def peek_def quiet_def Let_def live_def shape_def sl_data_def)

lemma sgGather_quiet:
  assumes "\<forall>t \<in> set ts. live (shape (vs_mem s)) t"
  shows "sgGather quiet ts s = (Ok (sg_data (vs_mem s) ts), s\<lparr>vs_tick := vs_tick s + length ts\<rparr>)"
  using assms
proof (induction ts arbitrary: s)
  case (Cons t ts)
  have "sgGather quiet ts (s\<lparr>vs_tick := Suc (vs_tick s)\<rparr>) =
      (Ok (sg_data (vs_mem s) ts), s\<lparr>vs_tick := Suc (vs_tick s) + length ts\<rparr>)"
    using Cons.IH [of "s\<lparr>vs_tick := Suc (vs_tick s)\<rparr>"] Cons.prems by simp
  then show ?case using Cons.prems by (simp add: vbind_def sl_bytes_quiet vret_def sg_data_def)
qed (simp add: vret_def sg_data_def)

lemma sl_copy_quiet:
  assumes "live (shape (vs_mem s)) t" "sl_len t \<le> length bs" "0 < sl_len t"
  shows "\<exists>s1. sl_copy quiet t bs s = (Ok (sl_len t), s1) \<and> sl_data (vs_mem s1) t = take (sl_len t) bs \<and>
    shape (vs_mem s1) = shape (vs_mem s)"
proof -
  obtain d where d: "vs_mem s (sl_map t) = Some d" "sl_off t + sl_len t \<le> length d" using assms(1) by (auto simp: live_def shape_def)
  define d1 where "d1 = splice d (sl_off t) (take (sl_len t) bs)"
  have l: "length d1 = length d" using d(2) assms(2) by (simp add: d1_def)
  have dt: "take (sl_len t) (drop (sl_off t) d1) = take (sl_len t) bs"
    using d(2) assms(2) by (simp add: d1_def splice_def)
  let ?s1 = "s\<lparr>vs_tick := Suc (vs_tick s), vs_mem := (vs_mem s)(sl_map t \<mapsto> d1)\<rparr>"
  have "sl_copy quiet t bs s = (Ok (sl_len t), ?s1)"
    using d assms(2,3) by (simp add: sl_copy_def Let_def min_def vbind_def vret_def poke_def quiet_def d1_def)
  moreover have "shape (vs_mem ?s1) = shape (vs_mem s)" using d(1) l by (auto simp: shape_def fun_eq_iff)
  ultimately show ?thesis using dt by (intro exI [of _ ?s1]) (simp add: sl_data_def)
qed

lemma sgCopy_quiet:
  assumes "\<forall>t \<in> set ts. live (shape (vs_mem s)) t \<and> 0 < sl_len t" "length bs = sgLen ts" "apart ts"
  shows "\<exists>s1. sgCopy quiet ts bs s = (Ok (), s1) \<and> sg_data (vs_mem s1) ts = bs \<and> shape (vs_mem s1) = shape (vs_mem s)"
  using assms
proof (induction ts arbitrary: bs s)
  case Nil
  then show ?case by (simp add: vret_def sg_data_def sgLen_def)
next
  case (Cons t ts)
  have t: "live (shape (vs_mem s)) t" "0 < sl_len t" "sl_len t \<le> length bs" "bs \<noteq> []" using Cons.prems(1,2) by (auto simp: sgLen_def)
  obtain s1 where s1: "sl_copy quiet t bs s = (Ok (sl_len t), s1)" "sl_data (vs_mem s1) t = take (sl_len t) bs"
    "shape (vs_mem s1) = shape (vs_mem s)" using sl_copy_quiet [OF t(1,3,2)] by blast
  obtain s2 where s2: "sgCopy quiet ts (drop (sl_len t) bs) s1 = (Ok (), s2)" "sg_data (vs_mem s2) ts = drop (sl_len t) bs"
    "shape (vs_mem s2) = shape (vs_mem s1)"
    using Cons.IH [of s1 "drop (sl_len t) bs"] Cons.prems s1(3) by (auto simp: sgLen_def apart_def)
  have on: "only (\<lambda>i x. \<exists>u \<in> set ts. covers u i x) (sgCopy quiet ts (drop (sl_len t) bs))" by (rule only_sgCopy) blast
  have "mbyte (vs_mem s2) i x = mbyte (vs_mem s1) i x" if c: "covers t i x" for i x
  proof -
    have "\<not> (\<exists>u \<in> set ts. covers u i x)" using c Cons.prems(3) by (auto simp: apart_def)
    then show ?thesis using on [unfolded only_def, rule_format, OF conjI [OF s2(1)]] by blast
  qed
  then have "sl_data (vs_mem s2) t = take (sl_len t) bs"
    using sl_data_cong [of "vs_mem s1" t "vs_mem s2"] t(1) s1(2,3) s2(3) by simp
  then show ?case using s1 s2 t(4) by (simp add: vbind_def sg_data_def)
qed


section \<open>The storage behind the device\<close>

text \<open>What a request of type \<open>t\<close> may do to the disk, and what it must do when its status is OK.\<close>

definition served :: "('b \<Rightarrow> bool) \<Rightarrow> ('b \<Rightarrow> nat \<Rightarrow> u8) \<Rightarrow> nat \<Rightarrow> bool \<Rightarrow> nat \<Rightarrow> nat \<Rightarrow> u8 list \<Rightarrow> nat \<Rightarrow> 'b \<Rightarrow> 'b \<Rightarrow> nat \<Rightarrow> u8 list \<Rightarrow> bool" where
  "served ok disk sz ro t off p n b b1 status got \<longleftrightarrow>
     ok b1 \<and>
     (\<forall>g < sz. \<not> (t = blkTOut \<and> \<not> ro \<and> off \<le> g \<and> g < off + length p) \<longrightarrow> disk b1 g = disk b g) \<and>
     (status = blkSOK \<and> t = blkTOut \<longrightarrow>
        \<not> ro \<and> off + length p \<le> sz \<and> (\<forall>g. off \<le> g \<and> g < off + length p \<longrightarrow> disk b1 g = p ! (g - off))) \<and>
     (status = blkSOK \<and> t = blkTIn \<longrightarrow> off + n \<le> sz \<and> got = map (disk b) [off..<off + n])"

text \<open>
  A flat disk of \<open>sz\<close> bytes: reads in range return its bytes or fail, writes in range change nothing else,
  and put all their bytes when they succeed.
\<close>

locale blk_store =
  fixes be :: "'b Backend" and inv :: "'b \<Rightarrow> bool" and disk :: "'b \<Rightarrow> nat \<Rightarrow> u8" and sz :: nat
  assumes store_size: "inv b \<Longrightarrow> be_Size be b = sz"
    and store_read: "inv b \<Longrightarrow> off + n \<le> sz \<Longrightarrow> be_ReadAt be n off b = ((bs, err), b1) \<Longrightarrow>
      inv b1 \<and> (\<forall>g < sz. disk b1 g = disk b g) \<and> err \<noteq> Some ''EOF'' \<and> (err = None \<longrightarrow> bs = map (disk b) [off..<off + n])"
    and store_write: "inv b \<Longrightarrow> off + length p \<le> sz \<Longrightarrow> be_WriteAt be p off b = ((m, err), b1) \<Longrightarrow>
      inv b1 \<and> (\<forall>g < sz. g < off \<or> off + length p \<le> g \<longrightarrow> disk b1 g = disk b g) \<and>
      (err = None \<longrightarrow> (\<forall>g. off \<le> g \<and> g < off + length p \<longrightarrow> disk b1 g = p ! (g - off)))"
    and store_sync: "inv b \<Longrightarrow> be_Sync be b = (ok, b1) \<Longrightarrow> inv b1 \<and> (\<forall>g < sz. disk b1 g = disk b g)"
begin

lemma inRange_bound: "inRange sz sector len \<Longrightarrow> sector * 512 + len \<le> sz"
  by (simp add: inRange_def Let_def split: if_splits)

lemma request_served:
  assumes "inv b" "\<forall>t \<in> set ins. live (shape (vs_mem s)) t \<and> 0 < sl_len t" "\<forall>t \<in> set outs. live (shape (vs_mem s)) t" "apart ins"
    "blk_request quiet be ro typ sector ins outs b s = (Ok (st, u, b1), s1)"
  shows "served inv disk sz ro (typ mod 2 ^ 31) (sector * 512) (sg_data (vs_mem s) outs) (sgLen ins) b b1 st (sg_data (vs_mem s1) ins) \<and> st < 256"
proof -
  have tags: "blkTIn \<noteq> blkTOut" "blkTFlush \<noteq> blkTIn" "blkTFlush \<noteq> blkTOut" "blkTGetID \<noteq> blkTIn" "blkTGetID \<noteq> blkTOut"
    "blkSIOErr \<noteq> blkSOK" "blkSUnsupp \<noteq> blkSOK" "blkSOK < 256" "blkSIOErr < 256" "blkSUnsupp < 256"
    by (simp_all add: blkTIn_def blkTOut_def blkTFlush_def blkTGetID_def blkSIOErr_def blkSOK_def blkSUnsupp_def)
  have len: "length (sg_data (vs_mem s) outs) = sgLen outs"
    using assms(3) by (induction outs) (auto simp: sg_data_def sgLen_def sl_data_length)
  define t where "t = typ mod 2 ^ 31"
  consider (i) "t = blkTIn" | (out) "t = blkTOut" | (other) "t \<noteq> blkTIn" "t \<noteq> blkTOut" by blast
  then have "served inv disk sz ro t (sector * 512) (sg_data (vs_mem s) outs) (sgLen ins) b b1 st (sg_data (vs_mem s1) ins) \<and> st < 256"
    (is ?goal)
  proof cases
    case i
    note run = assms(5) [unfolded blk_request_def Let_def t_def [symmetric] if_P [OF i] blk_in_def store_size [OF assms(1)]]
    show ?goal
    proof (cases "inRange sz sector (sgLen ins)")
      case False
      then show ?goal using run i tags assms(1) by (auto simp: served_def vret_def)
    next
      case True
      note bd = inRange_bound [OF True]
      obtain bs err b2 where r: "be_ReadAt be (sgLen ins) (sector * 512) b = ((bs, err), b2)" by (metis surj_pair)
      note sr = store_read [OF assms(1) bd r]
      show ?goal
      proof (cases "err = None")
        case False
        then have "err \<noteq> Some ''EOF''" "st = blkSIOErr" "b1 = b2" using sr run r True by (auto simp: vret_def)
        then show ?goal using sr i tags by (simp add: served_def)
      next
        case none: True
        then have bs: "bs = map (disk b) [sector * 512..<sector * 512 + sgLen ins]" using sr by simp
        then have "length bs = sgLen ins" by simp
        from sgCopy_quiet [OF assms(2) this assms(4)] obtain s2 where s2: "sgCopy quiet ins bs s = (Ok (), s2)"
          "sg_data (vs_mem s2) ins = bs" by blast
        then have "st = blkSOK" "b1 = b2" "s1 = s2" using run r True none by (auto simp: vbind_def vret_def)
        then show ?goal using sr s2(2) bs i tags bd by (simp add: served_def)
      qed
    qed
  next
    case out
    then have nin: "\<not> t = blkTIn" using tags by simp
    note run = assms(5) [unfolded blk_request_def Let_def t_def [symmetric] if_not_P [OF nin] if_P [OF out] blk_out_def store_size [OF assms(1)]]
    show ?goal
    proof (cases "ro \<or> \<not> inRange sz sector (sgLen outs)")
      case True
      then show ?goal using run out tags assms(1) by (auto simp: served_def vret_def)
    next
      case False
      then have bd: "sector * 512 + length (sg_data (vs_mem s) outs) \<le> sz" using inRange_bound len by simp
      obtain m err b2 where r: "be_WriteAt be (sg_data (vs_mem s) outs) (sector * 512) b = ((m, err), b2)" by (metis surj_pair)
      have "st = (if err \<noteq> None then blkSIOErr else blkSOK)" "b1 = b2"
        using run r sgGather_quiet [OF assms(3)] False by (auto simp: vbind_def vret_def)
      then have st: "st < 256" "st = blkSOK \<longleftrightarrow> err = None" "b1 = b2" using tags by simp_all
      note w = store_write [OF assms(1) bd r]
      have "disk b2 g = disk b g" if "g < sz" "\<not> (sector * 512 \<le> g \<and> g < sector * 512 + length (sg_data (vs_mem s) outs))" for g
        using w that by (meson not_le_imp_less)
      then show ?goal using w st out nin bd False unfolding served_def by blast
    qed
  next
    case other
    note run = assms(5) [unfolded blk_request_def Let_def t_def [symmetric] if_not_P [OF other(1)] if_not_P [OF other(2)]]
    obtain ok b2 where y: "be_Sync be b = (ok, b2)" by (cases "be_Sync be b")
    have gid: "blk_getid quiet ins b s = (Ok (st, u, b1), s1) \<Longrightarrow> b1 = b \<and> st = blkSOK"
      by (cases "sgCopy quiet ins (take (min 20 (sgLen ins)) (bytes_of blkID)) s")
        (auto simp: blk_getid_def Let_def vbind_def vret_def split: go.splits)
    have "inv b1 \<and> (\<forall>g < sz. disk b1 g = disk b g) \<and> st < 256"
    proof (cases "t = blkTFlush")
      case True
      then have "b1 = b2" "st = (if ok then blkSOK else blkSIOErr)" using run y by (auto simp: blk_flush_def vret_def)
      then show ?thesis using store_sync [OF assms(1) y] tags by simp
    next
      case False
      then have "b1 = b \<and> st < 256" using run gid tags by (cases "t = blkTGetID") (auto simp: vret_def)
      then show ?thesis using assms(1) by simp
    qed
    then show ?goal using other by (simp add: served_def)
  qed
  then show ?thesis by (simp add: t_def)
qed

lemma process_served:
  assumes "inv b" "sg_ok (shape (vs_mem s)) e" "apart (el_in e)" "process quiet be ro e b s = (Ok (used, b1), s1)"
    "hdr = sl_data (vs_mem s) (hd (el_out e))"
  shows "\<exists>status. sl_data (vs_mem s1) (last (el_in e)) ! 0 = word_of_nat status \<and> status < 256 \<and>
    served inv disk sz ro (le_fld 4 0 hdr mod 2 ^ 31) (le_fld 8 8 hdr * 512) (sg_data (vs_mem s) (tl (el_out e)))
      (sgLen (butlast (el_in e))) b b1 status (sg_data (vs_mem s1) (butlast (el_in e)))"
proof -
  have ne: "\<not> (el_out e = [] \<or> el_in e = [])" and big: "\<not> sl_len (hd (el_out e)) < 16"
    using assms(4) by (auto simp: process_def vgo_def Let_def split: if_splits)
  define o0 l ins where "o0 = hd (el_out e)" and "l = last (el_in e)" and "ins = butlast (el_in e)"
  have el: "el_in e = ins @ [l]" using ne by (simp add: ins_def l_def)
  have o: "live (shape (vs_mem s)) o0" "16 \<le> sl_len o0" and l: "live (shape (vs_mem s)) l" "0 < sl_len l"
    and ins: "\<forall>t \<in> set ins. live (shape (vs_mem s)) t \<and> 0 < sl_len t" and outs: "\<forall>t \<in> set (tl (el_out e)). live (shape (vs_mem s)) t"
    using assms(2) ne big by (auto simp: sg_ok_def o0_def el dest: list.set_sel(2))
  have ap: "apart ins" "\<And>t i x. t \<in> set ins \<Longrightarrow> covers t i x \<Longrightarrow> \<not> covers l i x"
    using assms(3) by (auto simp: apart_def el sorted_wrt_append)
  have sizes: "\<not> sl_len o0 < 16" "\<not> sl_len l < 1" using o(2) l(2) by simp_all
  define s3 where "s3 = s\<lparr>vs_tick := Suc (Suc (Suc (vs_tick s)))\<rparr>"
  have m3: "vs_mem s3 = vs_mem s" by (simp add: s3_def)
  obtain r s4 where r: "blk_request quiet be ro (le_fld 4 0 hdr) (le_fld 8 8 hdr) ins (tl (el_out e)) b s3 = (r, s4)"
    by (cases "blk_request quiet be ro (le_fld 4 0 hdr) (le_fld 8 8 hdr) ins (tl (el_out e)) b s3")
  have h: "vbind (ldLE quiet 4 0 o0) (\<lambda>typ. vbind (ldLE quiet 4 4 o0) (\<lambda>ioprio. vbind (ldLE quiet 8 8 o0) (\<lambda>sector. f typ sector))) s =
      f (le_fld 4 0 hdr) (le_fld 8 8 hdr) s3" for f :: "nat \<Rightarrow> nat \<Rightarrow> 'c vm"
    using o ldLE_quiet [of _ o0] by (simp add: vbind_def assms(5) o0_def [symmetric] s3_def)
  have run: "vbind (\<lambda>s. (r, s4)) (\<lambda>(status, usedLen, b1).
      vbind (poke quiet (sl_map l) (sl_off l) [word_of_nat status]) (\<lambda>_. vret (usedLen mod 2 ^ 32, b1))) s3 = (Ok (used, b1), s1)"
    using assms(4) unfolding process_def Let_def if_not_P [OF ne] o0_def [symmetric] l_def [symmetric] ins_def [symmetric]
      if_not_P [OF sizes(1)] if_not_P [OF sizes(2)] h by (simp only: vbind_def r)
  then obtain st u b2 where r1: "r = Ok (st, u, b2)" by (cases r) (auto simp: vbind_def)
  have sv: "served inv disk sz ro (le_fld 4 0 hdr mod 2 ^ 31) (le_fld 8 8 hdr * 512) (sg_data (vs_mem s) (tl (el_out e)))
      (sgLen ins) b b2 st (sg_data (vs_mem s4) ins)" and st: "st < 256"
    using request_served [OF assms(1) _ _ ap(1) r [unfolded r1]] ins outs by (simp_all add: m3)
  have sh4: "shape (vs_mem s4) = shape (vs_mem s)"
  proof -
    have "guest_ok quiet" by (simp add: guest_ok_def quiet_def)
    from blk_request_ok [OF this, of ins "shape (vs_mem s)" "tl (el_out e)" be ro "le_fld 4 0 hdr" "le_fld 8 8 hdr" b] ins outs
    show ?thesis using r m3 unfolding vok_def by metis
  qed
  obtain d where d: "vs_mem s4 (sl_map l) = Some d" "sl_off l + sl_len l \<le> length d"
    using l(1) unfolding sh4 [symmetric] by (auto simp: live_def shape_def)
  have b: "b1 = b2" and s1: "vs_mem s1 = (vs_mem s4)(sl_map l \<mapsto> splice d (sl_off l) [word_of_nat st])"
    using run d l(2) by (auto simp: r1 vbind_def vret_def poke_def quiet_def Let_def)
  have sh1: "shape (vs_mem s1) = shape (vs_mem s4)" using d l(2) by (auto simp: s1 shape_def fun_eq_iff)
  have byte: "sl_data (vs_mem s1) l ! 0 = word_of_nat st"
    using d l(2) by (simp add: s1 sl_data_def nth_splice)
  have "mbyte (vs_mem s1) i x = mbyte (vs_mem s4) i x" if "\<not> covers l i x" for i x
    using that d l(2) by (auto simp: s1 mbyte_def covers_def nth_splice)
  then have "sl_data (vs_mem s1) t = sl_data (vs_mem s4) t" if "t \<in> set ins" for t
    using that ap(2) ins sh4 sh1 by (intro sl_data_cong) auto
  then have "sg_data (vs_mem s1) ins = sg_data (vs_mem s4) ins" by (simp add: sg_data_def cong: map_cong)
  then show ?thesis using byte sv st b by (auto simp: l_def ins_def)
qed

end


section \<open>The storages of the code\<close>

text \<open>A qcow2 image opened for writing.\<close>

definition qcow2_Sync :: "Img \<Rightarrow> bool \<times> Img" where
  "qcow2_Sync s = (im_io s (im_ops s), s\<lparr>im_ops := Suc (im_ops s)\<rparr>)"

definition qcow2Writable :: "Img Backend" where
  "qcow2Writable = \<lparr>be_ReadAt = q_rd, be_WriteAt = WriteAt, be_Sync = qcow2_Sync, be_Size = im_size\<rparr>"

definition image_inv :: "(nat \<Rightarrow> u8) \<Rightarrow> nat \<Rightarrow> Img \<Rightarrow> bool" where
  "image_inv bk sz s \<longleftrightarrow> (\<exists>role. img_wf role s) \<and> bk_ok bk s \<and> im_size s = sz"

lemma q_rd_store:
  assumes "image_inv bk sz s" "off + n \<le> sz" "q_rd n off s = ((bs, err), s1)"
  shows "image_inv bk sz s1 \<and> content bk s1 = content bk s \<and> err \<noteq> Some ''EOF'' \<and>
    (err = None \<longrightarrow> bs = map (content bk s) [off..<off + n])"
proof -
  obtain role where w: "img_wf role s" and bk: "bk_ok bk s" and sz: "im_size s = sz" using assms(1) by (auto simp: image_inv_def)
  obtain buf t where rd: "read_loop (replicate n 0) off s = ((buf, t, err), s1)" and bs: "bs = take t buf"
    using assms(3) by (auto simp: q_rd_def ReadAt_def split: prod.splits)
  have r: "img_wf role s1" "same s s1" "length buf = n" "t \<le> n" "\<And>k. k < t \<Longrightarrow> buf ! k = content bk s (off + k)"
    "err = None \<Longrightarrow> t = n" "err \<noteq> Some ''EOF''"
    using read_loop_ok [OF rd w bk] assms(2) sz by auto
  have "bs = map (content bk s) [off..<off + n]" if "err = None"
    using r(3,5) r(6) [OF that] bs by (auto intro!: nth_equalityI)
  then show ?thesis
    using r(1,7) same_eqs(6,7) [OF r(2)] r(2) bk sz by (auto simp: image_inv_def same_def)
qed

lemma WriteAt_store:
  assumes "image_inv bk sz s" "off + length p \<le> sz" "WriteAt p off s = ((m, err), s1)"
  shows "image_inv bk sz s1 \<and> (\<forall>g < sz. g < off \<or> off + length p \<le> g \<longrightarrow> content bk s1 g = content bk s g) \<and>
      (err = None \<longrightarrow> (\<forall>g. off \<le> g \<and> g < off + length p \<longrightarrow> content bk s1 g = p ! (g - off)))"
proof -
  obtain role where w: "img_wf role s" and bk: "bk_ok bk s" and sz: "im_size s = sz" using assms(1) by (auto simp: image_inv_def)
  from write_loop_ok [OF assms(3) [unfolded WriteAt_def] w bk] obtain role' where q: "img_wf role' s1" "geq s s1" "m \<le> length p"
    "err = None \<Longrightarrow> m = length p"
    "\<And>g. g < im_size s \<or> off \<le> g \<and> g < off + m \<Longrightarrow> content bk s1 g =
       (if off \<le> g \<and> g < off + m then p ! (g - off) else content bk s g)" by blast
  note ge = geq_eqs [OF q(2)]
  have "content bk s1 g = content bk s g" if "g < sz" "g < off \<or> off + length p \<le> g" for g
    using q(5) [of g] that q(3) sz by auto
  moreover have "content bk s1 g = p ! (g - off)" if "err = None" "off \<le> g" "g < off + length p" for g
    using q(5) [of g] that q(4) by auto
  moreover have "image_inv bk sz s1" using q(1) ge(5,6) bk sz by (auto simp: image_inv_def)
  ultimately show ?thesis by blast
qed

interpretation q_store: blk_store qcow2Writable "image_inv bk sz" "content bk" sz for bk sz
proof unfold_locales
  fix b :: Img and ok b1 assume a: "image_inv bk sz b" "be_Sync qcow2Writable b = (ok, b1)"
  have b1: "b1 = b\<lparr>im_ops := Suc (im_ops b)\<rparr>" using a(2) by (auto simp: qcow2Writable_def qcow2_Sync_def)
  have sm: "same b b1" unfolding b1 by simp
  obtain role where "img_wf role b" "bk_ok bk b" "im_size b = sz" using a(1) by (auto simp: image_inv_def)
  then have "img_wf role b1" "bk_ok bk b1" "im_size b1 = sz"
    using img_wf_ops [of role b] same_eqs(7) [OF sm] by (simp_all add: b1)
  then show "image_inv bk sz b1 \<and> (\<forall>g < sz. content bk b1 g = content bk b g)"
    using same_eqs(6) [OF sm] by (auto simp: image_inv_def)
next
  fix b :: Img and off n bs err b1
  assume a: "image_inv bk sz b" "off + n \<le> sz" "be_ReadAt qcow2Writable n off b = ((bs, err), b1)"
  then have "q_rd n off b = ((bs, err), b1)" by (simp add: qcow2Writable_def)
  from q_rd_store [OF a(1,2) this]
  show "image_inv bk sz b1 \<and> (\<forall>g < sz. content bk b1 g = content bk b g) \<and> err \<noteq> Some ''EOF'' \<and>
      (err = None \<longrightarrow> bs = map (content bk b) [off..<off + n])" by simp
next
  fix b :: Img and off p m err b1
  assume a: "image_inv bk sz b" "off + length p \<le> sz" "be_WriteAt qcow2Writable p off b = ((m, err), b1)"
  then have "WriteAt p off b = ((m, err), b1)" by (simp add: qcow2Writable_def)
  from WriteAt_store [OF a(1,2) this]
  show "image_inv bk sz b1 \<and> (\<forall>g < sz. g < off \<or> off + length p \<le> g \<longrightarrow> content bk b1 g = content bk b g) \<and>
      (err = None \<longrightarrow> (\<forall>g. off \<le> g \<and> g < off + length p \<longrightarrow> content bk b1 g = p ! (g - off)))" .
qed (simp add: qcow2Writable_def image_inv_def)

text \<open>A raw file opened for writing: \<open>r_io\<close> says which of its operations succeed.\<close>

record rawfile =
  r_data :: "u8 list"
  r_ops :: nat
  r_io :: "nat \<Rightarrow> bool"

definition raw_op :: "rawfile \<Rightarrow> bool \<times> rawfile" where
  "raw_op r = (r_io r (r_ops r), r\<lparr>r_ops := Suc (r_ops r)\<rparr>)"

definition rawWritable :: "nat \<Rightarrow> rawfile Backend" where
  "rawWritable size0 =
     \<lparr>be_ReadAt = (\<lambda>n off r. case raw_op r of (ok, r1) \<Rightarrow> (if ok then raw_ReadAt (r_data r) off n else ([], Some ''io''), r1)),
      be_WriteAt = (\<lambda>p off r. case raw_op r of (ok, r1) \<Rightarrow>
        if ok then ((length p, None), r1\<lparr>r_data := write_at (r_data r) off p\<rparr>) else ((0, Some ''io''), r1)),
      be_Sync = raw_op, be_Size = (\<lambda>r. size0)\<rparr>"

interpretation raw_store: blk_store "rawWritable sz" "\<lambda>r. length (r_data r) = sz" "\<lambda>r. fb (r_data r)" sz for sz
proof unfold_locales
  fix b off n bs err b1
  assume a: "length (r_data b) = sz" "off + n \<le> sz" "be_ReadAt (rawWritable sz) n off b = ((bs, err), b1)"
  show "length (r_data b1) = sz \<and> (\<forall>g < sz. fb (r_data b1) g = fb (r_data b) g) \<and> err \<noteq> Some ''EOF'' \<and>
      (err = None \<longrightarrow> bs = map (fb (r_data b)) [off..<off + n])"
    using a take_drop_fb [of off n "r_data b"]
    by (auto simp: rawWritable_def raw_op_def raw_ReadAt_def Let_def split: if_splits)
next
  fix b off p m err b1
  assume a: "length (r_data b) = sz" "off + length p \<le> sz" "be_WriteAt (rawWritable sz) p off b = ((m, err), b1)"
  show "length (r_data b1) = sz \<and> (\<forall>g < sz. g < off \<or> off + length p \<le> g \<longrightarrow> fb (r_data b1) g = fb (r_data b) g) \<and>
      (err = None \<longrightarrow> (\<forall>g. off \<le> g \<and> g < off + length p \<longrightarrow> fb (r_data b1) g = p ! (g - off)))"
    using a by (auto simp: rawWritable_def raw_op_def fb_write_at split: if_splits)
qed (auto simp: rawWritable_def raw_op_def)

text \<open>An image opened read-only: every write fails.\<close>

definition readOnlyBackend :: "Img Backend" where
  "readOnlyBackend = \<lparr>be_ReadAt = q_rd, be_WriteAt = (\<lambda>p off s. ((0, Some ''read-only backend''), s)),
     be_Sync = (\<lambda>s. (True, s)), be_Size = im_size\<rparr>"

interpretation ro_store: blk_store readOnlyBackend "image_inv bk sz" "content bk" sz for bk sz
proof unfold_locales
  fix b :: Img and off n bs err b1
  assume a: "image_inv bk sz b" "off + n \<le> sz" "be_ReadAt readOnlyBackend n off b = ((bs, err), b1)"
  then have "q_rd n off b = ((bs, err), b1)" by (simp add: readOnlyBackend_def)
  from q_rd_store [OF a(1,2) this]
  show "image_inv bk sz b1 \<and> (\<forall>g < sz. content bk b1 g = content bk b g) \<and> err \<noteq> Some ''EOF'' \<and>
      (err = None \<longrightarrow> bs = map (content bk b) [off..<off + n])" by simp
qed (auto simp: readOnlyBackend_def image_inv_def)


section \<open>Every well-formed request is answered\<close>

definition noerr :: "'a vm \<Rightarrow> bool" where
  "noerr f \<longleftrightarrow> (\<forall>s e. fst (f s) \<noteq> Err e)"

named_theorems noerr_rules \<open>accesses to guest memory that do not return an error\<close>

lemma noerr_ret [noerr_rules]: "noerr (vret x)" "noerr (vgo Panic)" "noerr (vgo (sl_from t i))"
  by (simp_all add: noerr_def vret_def vgo_def sl_from_def sl_sub_def)

lemma noerr_bind [noerr_rules]:
  assumes "noerr f" "\<And>x. noerr (g x)"
  shows "noerr (vbind f g)"
  using assms by (auto simp: noerr_def vbind_def split: go.splits prod.splits) (metis fst_conv)+

lemma noerr_if [noerr_rules]: "noerr f \<Longrightarrow> noerr g \<Longrightarrow> noerr (if b then f else g)"
  by simp

lemma noerr_peek [noerr_rules]: "noerr (peek gw i off n)" "noerr (poke gw i off bs)"
  by (auto simp: noerr_def peek_def poke_def Let_def split: option.splits)

lemma noerr_access [noerr_rules]: "noerr (ldLE gw w off t)" "noerr (sl_bytes gw t)" "noerr (sl_copy gw t bs)"
  unfolding ldLE_def sl_bytes_def sl_copy_def Let_def by (intro noerr_rules)+

lemma noerr_sg [noerr_rules]: "noerr (sgGather gw ts)" "noerr (sgCopy gw ts bs)"
proof -
  show "noerr (sgGather gw ts)" by (induction ts) (auto intro!: noerr_rules)
  show "noerr (sgCopy gw ts bs)" by (induction ts arbitrary: bs) (auto intro!: noerr_rules)
qed

lemma noerr_request [noerr_rules]: "noerr (blk_request gw be ro typ sector dataIn dataOut b)"
proof -
  have "noerr (blk_in gw be sector dataIn b)" "noerr (blk_out gw be ro sector dataOut b)" "noerr (blk_flush be b)"
    "noerr (blk_getid gw dataIn b)"
    unfolding blk_in_def blk_out_def blk_flush_def blk_getid_def Let_def
    by (auto intro!: noerr_rules split: prod.splits)
  then show ?thesis unfolding blk_request_def Let_def by (intro noerr_rules)
qed

lemma process_returns:
  assumes "guest_ok gw" "sg_ok (shape (vs_mem s)) e" "el_out e \<noteq> []" "el_in e \<noteq> []" "16 \<le> sl_len (hd (el_out e))"
  shows "\<exists>used b1 s1. process gw be ro e b s = (Ok (used, b1), s1)"
proof -
  have st: "\<not> sl_len (last (el_in e)) < 1" using assms(2,4) by (auto simp: sg_ok_def Suc_le_eq)
  have hd: "\<not> sl_len (hd (el_out e)) < 16" and ne: "\<not> (el_out e = [] \<or> el_in e = [])" using assms(3-5) by simp_all
  have "noerr (process gw be ro e b)"
    unfolding process_def Let_def if_not_P [OF ne] if_not_P [OF hd] if_not_P [OF st]
    by (auto intro!: noerr_rules split: prod.splits)
  then have "fst (process gw be ro e b s) \<noteq> Err x" for x by (simp add: noerr_def)
  moreover have "fst (process gw be ro e b s) \<noteq> Panic"
    using process_ok [OF assms(1,2), of be ro b] unfolding vok_def by (metis prod.collapse)
  ultimately show ?thesis by (cases "process gw be ro e b s"; cases "fst (process gw be ro e b s)") auto
qed

lemma quiet_ok: "guest_ok quiet"
  by (simp add: guest_ok_def quiet_def)

section \<open>Properties\<close>

text \<open>
  C10: A virtio-blk request against a qcow2 image opened for writing is served as by a flat disk. If the
  chain has a header of 16 bytes and a status byte and its device-writable buffers do not overlap, the
  device answers: a status of 0 for a read means the guest's buffers hold the bytes of the disk at the
  sector asked for, in range; a status of 0 for a write means these bytes of the disk are now the
  request's and the device is writable; every other byte of the disk is as before, whatever the status;
  and the image stays well formed.
\<close>

theorem blk_serves_qcow2:
  assumes "image_inv bk sz b" "sg_ok (shape (vs_mem s)) e" "apart (el_in e)"
    "el_out e \<noteq> []" "el_in e \<noteq> []" "16 \<le> sl_len (hd (el_out e))"
    "hdr = sl_data (vs_mem s) (hd (el_out e))"
  shows "\<exists>used b1 s1 status. process quiet qcow2Writable ro e b s = (Ok (used, b1), s1) \<and>
    sl_data (vs_mem s1) (last (el_in e)) ! 0 = word_of_nat status \<and> status < 256 \<and>
    served (image_inv bk sz) (content bk) sz ro (le_fld 4 0 hdr mod 2 ^ 31) (le_fld 8 8 hdr * 512)
      (sg_data (vs_mem s) (tl (el_out e))) (sgLen (butlast (el_in e))) b b1 status (sg_data (vs_mem s1) (butlast (el_in e)))"
proof -
  obtain used b1 s1 where p: "process quiet qcow2Writable ro e b s = (Ok (used, b1), s1)"
    using process_returns [OF quiet_ok assms(2,4-6), of qcow2Writable ro b] by blast
  show ?thesis using q_store.process_served [OF assms(1-3) p assms(7)] p by blast
qed

text \<open>A read of sector 0: header, a buffer of 4 bytes and the status byte, in one mapping of 32 bytes.\<close>

definition demo_slice :: "nat \<Rightarrow> nat \<Rightarrow> gslice" where
  "demo_slice off n = \<lparr>sl_map = 0, sl_off = off, sl_len = n, sl_cap = 32 - off\<rparr>"

definition demo_elem :: elem where
  "demo_elem = \<lparr>el_head = 0, el_out = [demo_slice 0 16], el_in = [demo_slice 16 4, demo_slice 20 1], el_raw = []\<rparr>"

definition demo_vst :: vst where
  "demo_vst = \<lparr>vs_mem = (\<lambda>i. if i = 0 then Some (replicate 32 0) else None), vs_tick = 0, vs_next = 1, vs_closed = []\<rparr>"

lemma demo_facts:
  "sg_ok (shape (vs_mem demo_vst)) demo_elem" "apart (el_in demo_elem)" "el_out demo_elem \<noteq> []" "el_in demo_elem \<noteq> []"
  "16 \<le> sl_len (hd (el_out demo_elem))" "sl_data (vs_mem demo_vst) (hd (el_out demo_elem)) = replicate 16 0"
  by (auto simp: sg_ok_def live_def shape_def demo_elem_def demo_slice_def demo_vst_def apart_def covers_def sl_data_def)

theorem blk_serves_qcow2_witness:
  "\<exists>used b1 s1 status. process quiet qcow2Writable False demo_elem small_img demo_vst = (Ok (used, b1), s1) \<and>
     served (image_inv (fb [7, 8, 9]) 32768) (content (fb [7, 8, 9])) 32768 False 0 0 [] 4 small_img b1 status
       (sg_data (vs_mem s1) [demo_slice 16 4])"
proof -
  have "bk_ok (fb [7, 8, 9]) small_img" by (rule raw_image.overlay_ok) (simp add: small_img_def)
  then have i: "image_inv (fb [7, 8, 9]) 32768 small_img" using small_wf by (auto simp: image_inv_def small_img_def)
  have z: "le_get (replicate n 0) = 0" for n by (induction n) simp_all
  have h: "le_fld 4 0 (replicate 16 0) mod 2 ^ 31 = 0" "le_fld 8 8 (replicate 16 0) * 512 = 0"
    unfolding le_fld_def drop_replicate take_replicate z by simp_all
  have e: "sg_data (vs_mem demo_vst) (tl (el_out demo_elem)) = []" "sgLen [demo_slice 16 4] = 4"
    "butlast (el_in demo_elem) = [demo_slice 16 4]"
    by (simp_all add: demo_elem_def sg_data_def sgLen_def demo_slice_def)
  from blk_serves_qcow2 [OF i demo_facts(1-5) demo_facts(6) [symmetric], of False]
  show ?thesis unfolding h e by blast
qed

text \<open>
  C38: The device executes a request without a fault whatever the guest writes into its memory meanwhile,
  keeps the mappings, and, when the guest is quiet, changes no byte of guest memory outside the
  device-writable buffers of the request.
\<close>

theorem blk_isolated:
  assumes "sg_ok (shape (vs_mem s)) e" "guest_ok gw"
  shows "fst (process gw be ro e b s) \<noteq> Panic \<and> shape (vs_mem (snd (process gw be ro e b s))) = shape (vs_mem s) \<and>
    (\<forall>i x. (\<forall>t \<in> set (el_in e). \<not> covers t i x) \<longrightarrow>
       mbyte (vs_mem (snd (process quiet be ro e b s))) i x = mbyte (vs_mem s) i x)"
proof -
  have "fst (process gw be ro e b s) \<noteq> Panic" "shape (vs_mem (snd (process gw be ro e b s))) = shape (vs_mem s)"
    using process_ok [OF assms(2,1), of be ro b] unfolding vok_def by (metis prod.collapse)+
  moreover have "mbyte (vs_mem (snd (process quiet be ro e b s))) i x = mbyte (vs_mem s) i x"
    if "\<forall>t \<in> set (el_in e). \<not> covers t i x" for i x
    using process_only [OF assms(1), of be ro b] that unfolding only_def by (metis prod.collapse)
  ultimately show ?thesis by blast
qed

theorem blk_isolated_witness:
  "fst (process quiet readOnlyBackend True demo_elem small_img demo_vst) \<noteq> Panic \<and>
   mbyte (vs_mem (snd (process quiet readOnlyBackend True demo_elem small_img demo_vst))) 0 21 = mbyte (vs_mem demo_vst) 0 21"
proof -
  have "\<forall>t \<in> set (el_in demo_elem). \<not> covers t 0 21" by (simp add: demo_elem_def demo_slice_def covers_def)
  then show ?thesis using blk_isolated [OF demo_facts(1) quiet_ok, of readOnlyBackend True small_img] by blast
qed

end
