(* ===== verification/VuServer.thy ===== *)
theory VuServer
  imports VuBlk
begin

text \<open>
  One frontend connection of the vhost-user server, \<^verbatim>\<open>internal/vhost/vu/proto.go\<close> and
  \<^verbatim>\<open>server.go\<close>: messages, the control thread that handles them, and the pump thread that takes
  requests off the ring. The pump holds the lock while it takes a batch and while it publishes, and not
  while the device executes the requests; \<open>vu_step\<close> interleaves the two threads at exactly these points.
\<close>

unbundle bit_operations_syntax

section \<open>Messages\<close>

record msg =
  mg_request :: nat
  mg_flags :: nat
  mg_payload :: "u8 list"
  mg_fds :: "nat list"

definition msg_u64 :: "msg \<Rightarrow> nat" where
  "msg_u64 m = (if length (mg_payload m) < 8 then 0 else le_fld 8 0 (mg_payload m))"

definition msg_vringState :: "msg \<Rightarrow> nat \<times> nat" where
  "msg_vringState m = (if length (mg_payload m) < 8 then (0, 0) else (le_fld 4 0 (mg_payload m), le_fld 4 4 (mg_payload m)))"

definition msg_vringAddr :: "msg \<Rightarrow> vringAddr" where
  "msg_vringAddr m =
     (let p = mg_payload m in
      if length p < 40 then \<lparr>va_index = 0, va_desc = 0, va_used = 0, va_avail = 0\<rparr>
      else \<lparr>va_index = le_fld 4 0 p, va_desc = le_fld 8 8 p, va_used = le_fld 8 16 p, va_avail = le_fld 8 24 p\<rparr>)"

text \<open>One message off a stream that carries the descriptors \<open>fds\<close> with it; the rest of the stream.\<close>

definition recv :: "u8 list \<Rightarrow> nat list \<Rightarrow> (verr, msg \<times> u8 list) go" where
  "recv bs fds =
     (if length bs < 12 then Err ''EOF''
      else let flags = le_fld 4 4 bs; sz = le_fld 4 8 bs in
        if flags mod 4 \<noteq> 1 then Err ''unsupported protocol version''
        else if 8192 < sz then Err ''implausible payload size''
        else if length bs < 12 + sz then Err ''unexpected EOF''
        else Ok (\<lparr>mg_request = le_fld 4 0 bs, mg_flags = flags, mg_payload = take sz (drop 12 bs), mg_fds = fds\<rparr>, drop (12 + sz) bs))"

text \<open>The version bits are replaced by version 1.\<close>

definition send :: "nat \<Rightarrow> nat \<Rightarrow> u8 list \<Rightarrow> u8 list" where
  "send request flags payload =
     le_put 4 request @ le_put 4 (flags div 4 * 4 + 1) @ le_put 4 (length payload) @ payload"

text \<open>\<^verbatim>\<open>(m.flags|flagReply)&^flagNeedReply\<close>\<close>

definition reply_flags :: "nat \<Rightarrow> nat" where
  "reply_flags f = (let g = f OR 4 in if bit g 3 then g - 8 else g)"

definition reply :: "msg \<Rightarrow> u8 list \<Rightarrow> u8 list" where
  "reply m payload = send (mg_request m) (reply_flags (mg_flags m)) payload"

section \<open>The control thread\<close>

record dev =
  dv_ro :: bool
  dv_cfg :: "u8 list"

record session =
  ss_mem :: "memRegion list"
  ss_vq :: vring
  ss_proto :: nat
  ss_status :: nat
  ss_closed :: bool
  ss_started :: bool

definition protoFReplyAck :: nat where "protoFReplyAck = 3"
definition ourProtocolFeatures :: nat where "ourProtocolFeatures = 2 ^ 9 OR 2 ^ 3"

definition newSession :: session where
  "newSession =
     \<lparr>ss_mem = [],
      ss_vq = \<lparr>vq_num = 0, vq_desc = None, vq_avail = None, vq_used = None, vq_lastAvail = 0, vq_usedIdx = 0,
               vq_kick = None, vq_call = None, vq_err = None, vq_enabled = False\<rparr>,
      ss_proto = 0, ss_status = 0, ss_closed = False, ss_started = False\<rparr>"

definition maybeStartPump :: "session \<Rightarrow> session" where
  "maybeStartPump ss =
     (if ss_closed ss \<or> \<not> vq_enabled (ss_vq ss) \<or> vq_kick (ss_vq ss) = None then ss else ss\<lparr>ss_started := True\<rparr>)"

datatype vfile = FKick | FCall | FErr

fun get_file :: "vfile \<Rightarrow> vring \<Rightarrow> nat option" where
  "get_file FKick v = vq_kick v"
| "get_file FCall v = vq_call v"
| "get_file FErr v = vq_err v"

fun put_file :: "vfile \<Rightarrow> nat option \<Rightarrow> vring \<Rightarrow> vring" where
  "put_file FKick x v = v\<lparr>vq_kick := x\<rparr>"
| "put_file FCall x v = v\<lparr>vq_call := x\<rparr>"
| "put_file FErr x v = v\<lparr>vq_err := x\<rparr>"

text \<open>\<open>dup\<close> is the descriptor \<^verbatim>\<open>unix.Dup\<close> returns; all descriptors of the message are closed at the end.\<close>

definition setVringFile :: "(nat \<Rightarrow> nat option) \<Rightarrow> msg \<Rightarrow> vfile \<Rightarrow> session \<Rightarrow> vst \<Rightarrow> (verr option \<times> session) \<times> vst" where
  "setVringFile dup m k ss s =
     (let old = (case get_file k (ss_vq ss) of None \<Rightarrow> [] | Some f \<Rightarrow> [f]); fds = mg_fds m in
      if bit (msg_u64 m) 8
      then ((None, ss\<lparr>ss_vq := put_file k None (ss_vq ss)\<rparr>), closeFds fds (closeFds old s))
      else if fds = [] then ((Some ''vring file message without fd'', ss), s)
      else (case dup (hd fds) of
              None \<Rightarrow> ((Some ''dup'', ss), closeFds fds s)
            | Some nfd \<Rightarrow>
                let ss1 = ss\<lparr>ss_vq := put_file k (Some nfd) (ss_vq ss)\<rparr>
                in ((None, if k = FKick then maybeStartPump ss1 else ss1), closeFds fds (closeFds old s))))"

text \<open>The reply if one was sent, the session, and the descriptors nobody took over.\<close>

type_synonym hres = "((verr, u8 list option) go \<times> session \<times> nat list) \<times> vst"

definition of_err :: "verr option \<Rightarrow> (verr, u8 list option) go" where
  "of_err e = (case e of None \<Rightarrow> Ok None | Some x \<Rightarrow> Err x)"

definition handle ::
  "(nat \<Rightarrow> nat \<Rightarrow> nat \<Rightarrow> u8 list option) \<Rightarrow> (nat \<Rightarrow> nat option) \<Rightarrow> dev \<Rightarrow> msg \<Rightarrow> session \<Rightarrow> vst \<Rightarrow> hres" where
  "handle mm dup dv m ss s =
     (let r = mg_request m; vq = ss_vq ss; fds = mg_fds m;
          answer = (\<lambda>p. ((Ok (Some p), ss, fds), s));
          quietly = (\<lambda>ss1. ((Ok None, ss1, fds), s));
          fail = (\<lambda>e. ((Err e, ss, fds), s));
          vfile = (\<lambda>k. case setVringFile dup m k ss s of ((e, ss1), s1) \<Rightarrow> ((of_err e, ss1, []), s1))
      in
      if r = 1 then answer (le_put 8 (blk_features (dv_ro dv)))
      else if r = 2 \<or> r = 3 \<or> r = 4 \<or> r = 7 then quietly ss
      else if r = 15 then answer (le_put 8 ourProtocolFeatures)
      else if r = 16 then quietly (ss\<lparr>ss_proto := msg_u64 m AND ourProtocolFeatures\<rparr>)
      else if r = 17 then answer (le_put 8 1)
      else if r = 5
      then (case setMemTable mm (mg_payload m) fds (ss_mem ss) s of
              (e, rs, s1) \<Rightarrow> ((of_err e, ss\<lparr>ss_mem := rs\<rparr>, []), s1))
      else if r = 8
      then (let (idx, num) = msg_vringState m in
            if idx \<noteq> 0 then fail ''only queue 0 supported''
            else if num = 0 \<or> 32768 < num \<or> num AND (num - 1) \<noteq> 0 then fail ''invalid vring num''
            else quietly (ss\<lparr>ss_vq := vq\<lparr>vq_num := num\<rparr>\<rparr>))
      else if r = 9
      then (if va_index (msg_vringAddr m) \<noteq> 0 then fail ''only queue 0 supported''
            else case vring_setup (ss_mem ss) (msg_vringAddr m) vq of
                   (Ok _, v1) \<Rightarrow> ((Ok None, ss\<lparr>ss_vq := v1\<rparr>, fds), s)
                 | (Err e, v1) \<Rightarrow> ((Err e, ss\<lparr>ss_vq := v1\<rparr>, fds), s)
                 | (Panic, v1) \<Rightarrow> ((Panic, ss\<lparr>ss_vq := v1\<rparr>, fds), s))
      else if r = 10
      then (let (idx, base) = msg_vringState m in
            if idx \<noteq> 0 then fail ''only queue 0 supported''
            else quietly (ss\<lparr>ss_vq := vq\<lparr>vq_lastAvail := base mod 2 ^ 16\<rparr>\<rparr>))
      else if r = 11 then answer (le_put 4 0 @ le_put 4 (vq_lastAvail vq mod 2 ^ 16))
      else if r = 12 then vfile FKick
      else if r = 13 then vfile FCall
      else if r = 14 then vfile FErr
      else if r = 18
      then (let (idx, num) = msg_vringState m in
            if idx \<noteq> 0 then fail ''only queue 0 supported''
            else let ss1 = ss\<lparr>ss_vq := vq\<lparr>vq_enabled := (num \<noteq> 0)\<rparr>\<rparr>
                 in quietly (if num \<noteq> 0 then maybeStartPump ss1 else ss1))
      else if r = 23 \<or> r = 25 then quietly ss
      else if r = 24
      then (if length (mg_payload m) < 12 then fail ''short GET_CONFIG payload''
            else case blk_config (dv_cfg dv) (le_fld 4 0 (mg_payload m)) (le_fld 4 4 (mg_payload m)) of
                   Ok d \<Rightarrow> answer (take 12 (mg_payload m) @ d)
                 | Err e \<Rightarrow> fail e
                 | Panic \<Rightarrow> ((Panic, ss, fds), s))
      else if r = 39 then answer (le_put 8 (ss_status ss))
      else if r = 40 then quietly (ss\<lparr>ss_status := msg_u64 m\<rparr>)
      else if r = 41 then fail ''shared object lookup unsupported''
      else fail ''unknown request'')"

text \<open>One turn of \<^verbatim>\<open>run\<close>: what is sent, and whether the loop goes on.\<close>

definition run_turn ::
  "(nat \<Rightarrow> nat \<Rightarrow> nat \<Rightarrow> u8 list option) \<Rightarrow> (nat \<Rightarrow> nat option) \<Rightarrow> dev \<Rightarrow> msg \<Rightarrow> session \<Rightarrow> vst \<Rightarrow>
   ((verr, u8 list option \<times> bool) go \<times> session) \<times> vst" where
  "run_turn mm dup dv m ss s =
     (case handle mm dup dv m ss s of
        ((Panic, ss1, rest), s1) \<Rightarrow> ((Panic, ss1), s1)
      | ((r, ss1, rest), s1) \<Rightarrow>
          let needReply = bit (ss_proto ss1) protoFReplyAck \<and> bit (mg_flags m) 3;
              out = (case r of
                       Ok (Some p) \<Rightarrow> Some (reply m p)
                     | Ok None \<Rightarrow> if needReply then Some (reply m (le_put 8 0)) else None
                     | _ \<Rightarrow> if needReply then Some (reply m (le_put 8 1)) else None)
          in ((Ok (out, \<not> ((\<exists>e. r = Err e) \<and> mg_request m = 5)), ss1), closeFds rest s1))"

section \<open>The pump\<close>

definition pumpMaxBatch :: nat where "pumpMaxBatch = 128"

text \<open>At most \<open>k\<close> more requests; a queue error or an untranslatable chain ends the batch.\<close>

primrec pop_loop :: "guest \<Rightarrow> nat \<Rightarrow> session \<Rightarrow> vst \<Rightarrow> ((verr, elem list) go \<times> session) \<times> vst" where
  "pop_loop gw 0 ss s = ((Ok [], ss), s)"
| "pop_loop gw (Suc k) ss s =
     (case pop gw (ss_mem ss) (ss_vq ss) s of
        ((Panic, v1), s1) \<Rightarrow> ((Panic, ss\<lparr>ss_vq := v1\<rparr>), s1)
      | ((Err e, v1), s1) \<Rightarrow> ((Ok [], ss\<lparr>ss_vq := v1\<rparr>), s1)
      | ((Ok None, v1), s1) \<Rightarrow> ((Ok [], ss\<lparr>ss_vq := v1\<rparr>), s1)
      | ((Ok (Some e), v1), s1) \<Rightarrow>
          (case translateSG (ss_mem ss) e of
             Panic \<Rightarrow> ((Panic, ss\<lparr>ss_vq := v1\<rparr>), s1)
           | Err x \<Rightarrow> ((Ok [], ss\<lparr>ss_vq := v1\<rparr>), s1)
           | Ok e1 \<Rightarrow>
               (case pop_loop gw k (ss\<lparr>ss_vq := v1\<rparr>) s1 of
                  ((Ok es, ss2), s2) \<Rightarrow> ((Ok (e1 # es), ss2), s2)
                | r \<Rightarrow> r)))"

definition popBatch :: "guest \<Rightarrow> session \<Rightarrow> vst \<Rightarrow> ((verr, elem list) go \<times> session) \<times> vst" where
  "popBatch gw ss s = (if ss_closed ss then ((Ok [], ss), s) else pop_loop gw pumpMaxBatch ss s)"

text \<open>Publishing the results of a batch; a failing push ends it.\<close>

primrec push_all :: "guest \<Rightarrow> (elem \<times> nat) list \<Rightarrow> vring \<Rightarrow> vst \<Rightarrow> ((verr, unit) go \<times> vring) \<times> vst" where
  "push_all gw [] v s = ((Ok (), v), s)"
| "push_all gw (r # rs) v s =
     (case push gw v (fst r) (snd r) s of
        ((Ok _, v1), s1) \<Rightarrow> push_all gw rs v1 s1
      | ((Err e, v1), s1) \<Rightarrow> ((Ok (), v1), s1)
      | ((Panic, v1), s1) \<Rightarrow> ((Panic, v1), s1))"

definition publish :: "guest \<Rightarrow> (elem \<times> nat) list \<Rightarrow> session \<Rightarrow> vst \<Rightarrow> ((verr, bool) go \<times> session) \<times> vst" where
  "publish gw rs ss s =
     (if ss_closed ss then ((Ok True, ss), s)
      else (case push_all gw rs (ss_vq ss) s of
              ((Panic, v1), s1) \<Rightarrow> ((Panic, ss\<lparr>ss_vq := v1\<rparr>), s1)
            | ((r, v1), s1) \<Rightarrow>
                (case notify gw v1 s1 of
                   (Panic, s2) \<Rightarrow> ((Panic, ss\<lparr>ss_vq := v1\<rparr>), s2)
                 | (_, s2) \<Rightarrow> ((Ok False, ss\<lparr>ss_vq := v1\<rparr>), s2))))"

text \<open>
  Where the pump is: not running, between batches, executing a batch with the requests still to do and
  the results so far, or finished. \<^verbatim>\<open>pumpBusy\<close> is 1 exactly in the third case.
\<close>

datatype pump = PNone | PIdle | PRun "elem list" "(elem \<times> nat) list" | PExit

record 'b vu =
  vu_ss :: session
  vu_st :: vst
  vu_pump :: pump
  vu_be :: 'b
  vu_down :: bool
  vu_crashed :: bool

definition pumpBusy :: "'b vu \<Rightarrow> nat" where
  "pumpBusy c = (case vu_pump c of PRun todo res \<Rightarrow> 1 | _ \<Rightarrow> 0)"

text \<open>A message; SET_MEM_TABLE waits for the pump to be idle.\<close>

definition vu_message :: "(nat \<Rightarrow> nat \<Rightarrow> nat \<Rightarrow> u8 list option) \<Rightarrow> (nat \<Rightarrow> nat option) \<Rightarrow> dev \<Rightarrow> msg \<Rightarrow> 'b vu \<Rightarrow> 'b vu" where
  "vu_message mm dup dv m c =
     (case run_turn mm dup dv m (vu_ss c) (vu_st c) of
        ((Panic, ss1), s1) \<Rightarrow> c\<lparr>vu_crashed := True\<rparr>
      | ((_, ss1), s1) \<Rightarrow>
          c\<lparr>vu_ss := ss1, vu_st := s1, vu_pump := (if ss_started ss1 \<and> vu_pump c = PNone then PIdle else vu_pump c)\<rparr>)"

definition vu_take :: "guest \<Rightarrow> 'b vu \<Rightarrow> 'b vu" where
  "vu_take gw c =
     (case popBatch gw (vu_ss c) (vu_st c) of
        ((Ok es, ss1), s1) \<Rightarrow> c\<lparr>vu_ss := ss1, vu_st := s1, vu_pump := (if es = [] then PIdle else PRun es [])\<rparr>
      | ((_, ss1), s1) \<Rightarrow> c\<lparr>vu_crashed := True\<rparr>)"

definition vu_exec :: "guest \<Rightarrow> 'b Backend \<Rightarrow> bool \<Rightarrow> elem \<Rightarrow> elem list \<Rightarrow> (elem \<times> nat) list \<Rightarrow> 'b vu \<Rightarrow> 'b vu" where
  "vu_exec gw be ro e es res c =
     (case process gw be ro e (vu_be c) (vu_st c) of
        (Ok (n, b1), s1) \<Rightarrow> c\<lparr>vu_st := s1, vu_be := b1, vu_pump := PRun es (res @ [(e, n)])\<rparr>
      | (Err x, s1) \<Rightarrow> c\<lparr>vu_st := s1, vu_pump := PRun es res\<rparr>
      | (Panic, s1) \<Rightarrow> c\<lparr>vu_crashed := True\<rparr>)"

definition vu_publish :: "guest \<Rightarrow> (elem \<times> nat) list \<Rightarrow> 'b vu \<Rightarrow> 'b vu" where
  "vu_publish gw res c =
     (case publish gw res (vu_ss c) (vu_st c) of
        ((Ok closed, ss1), s1) \<Rightarrow> c\<lparr>vu_ss := ss1, vu_st := s1, vu_pump := (if closed then PExit else PIdle)\<rparr>
      | ((_, ss1), s1) \<Rightarrow> c\<lparr>vu_crashed := True\<rparr>)"

text \<open>\<^verbatim>\<open>session.close\<close>: the mark, and the unmapping once the pump has ended.\<close>

definition vu_unmap :: "'b vu \<Rightarrow> 'b vu" where
  "vu_unmap c =
     (let ss = vu_ss c; vq = ss_vq ss;
          fds = List.map_filter id [vq_kick vq, vq_call vq, vq_err vq]
      in c\<lparr>vu_ss := ss\<lparr>ss_mem := []\<rparr>, vu_st := closeFds fds (mt_close (ss_mem ss) (vu_st c)), vu_down := True\<rparr>)"


text \<open>
  The interleavings of the two threads, of \<open>close\<close> and of the guest; \<open>may m c\<close> says which messages the
  frontend sends. The pump leaves its loop when the session is closed, the kick descriptor is gone or
  waiting for it fails.
\<close>

inductive vu_step ::
  "(nat \<Rightarrow> nat \<Rightarrow> nat \<Rightarrow> u8 list option) \<Rightarrow> (nat \<Rightarrow> nat option) \<Rightarrow> dev \<Rightarrow> 'b Backend \<Rightarrow> (msg \<Rightarrow> 'b vu \<Rightarrow> bool) \<Rightarrow>
   'b vu \<Rightarrow> 'b vu \<Rightarrow> bool"
  for mm dup dv be may where
  message: "\<not> vu_down c \<Longrightarrow> may m c \<Longrightarrow> mg_request m = 5 \<longrightarrow> pumpBusy c = 0 \<Longrightarrow>
     vu_step mm dup dv be may c (vu_message mm dup dv m c)"
| take: "vu_pump c = PIdle \<Longrightarrow> guest_ok gw \<Longrightarrow> vu_step mm dup dv be may c (vu_take gw c)"
| leave: "vu_pump c = PIdle \<Longrightarrow> vu_step mm dup dv be may c (c\<lparr>vu_pump := PExit\<rparr>)"
| exec: "vu_pump c = PRun (e # es) res \<Longrightarrow> guest_ok gw \<Longrightarrow>
     vu_step mm dup dv be may c (vu_exec gw be (dv_ro dv) e es res c)"
| publish: "vu_pump c = PRun [] res \<Longrightarrow> guest_ok gw \<Longrightarrow> vu_step mm dup dv be may c (vu_publish gw res c)"
| guest: "shape m = shape (vs_mem (vu_st c)) \<Longrightarrow> vu_step mm dup dv be may c (c\<lparr>vu_st := (vu_st c)\<lparr>vs_mem := m\<rparr>\<rparr>)"
| mark: "vu_step mm dup dv be may c (c\<lparr>vu_ss := (vu_ss c)\<lparr>ss_closed := True\<rparr>\<rparr>)"
| unmap: "ss_closed (vu_ss c) \<Longrightarrow> vu_pump c = PNone \<or> vu_pump c = PExit \<Longrightarrow> vu_step mm dup dv be may c (vu_unmap c)"

definition vu_init :: "'b \<Rightarrow> vst \<Rightarrow> 'b vu" where
  "vu_init b s = \<lparr>vu_ss = newSession, vu_st = s, vu_pump = PNone, vu_be = b, vu_down = False, vu_crashed = False\<rparr>"

text \<open>
  A frontend that keeps the ring consistent: it replaces the memory table only while no ring is set up, it
  does not grow a ring that is set up or whose requests are being executed, and the available and used
  rings it gives with a good descriptor table are good and aligned.
\<close>

definition tame :: "msg \<Rightarrow> 'b vu \<Rightarrow> bool" where
  "tame m c \<longleftrightarrow>
     (let vq = ss_vq (vu_ss c) in
      (mg_request m = 5 \<longrightarrow> vq_desc vq = None) \<and>
      (mg_request m = 8 \<longrightarrow> vq_desc vq = None \<and> pumpBusy c = 0 \<or> snd (msg_vringState m) \<le> vq_num vq) \<and>
      (mg_request m = 9 \<longrightarrow> fst (vring_setup (ss_mem (vu_ss c)) (msg_vringAddr m) vq)
         \<in> {Ok (), Err ''SET_VRING_ADDR before SET_VRING_NUM'', Err ''desc table''}))"

section \<open>Messages and the memory table\<close>

text \<open>\<^verbatim>\<open>mmap\<close> returns as many bytes as asked for.\<close>

definition mm_ok :: "(nat \<Rightarrow> nat \<Rightarrow> nat \<Rightarrow> u8 list option) \<Rightarrow> bool" where
  "mm_ok mm \<longleftrightarrow> (\<forall>fd off n d. mm fd off n = Some d \<longrightarrow> length d = n)"

lemma closeFds_mem [simp]: "vs_mem (closeFds fds s) = vs_mem s" "vs_next (closeFds fds s) = vs_next s"
  by (simp_all add: closeFds_def)

lemma map_regions_ok:
  assumes "map_regions mm payload fds is rs s = (e, rs1, s1)" "mm_ok mm" "regions_ok (shape (vs_mem s)) rs"
    "\<forall>r \<in> set rs. sl_map (mr_data r) < vs_next s"
  shows "regions_ok (shape (vs_mem s1)) rs1"
  using assms(1,3,4)
proof (induction "is" arbitrary: rs s)
  case Nil
  then show ?case by simp
next
  case (Cons i "is")
  define p gpa n where "p = drop (8 + i * 32) payload" and "gpa = le_fld 8 0 p" and "n = le_fld 8 8 p"
  note run = Cons.prems(1) [unfolded map_regions.simps Let_def p_def [symmetric] gpa_def [symmetric] n_def [symmetric]]
  show ?case
  proof (cases "2 ^ 64 - 1 - gpa < n \<or> mm (fds ! i) (le_fld 8 24 p) n = None")
    case True
    then have "rs1 = []" using run by (auto split: if_splits)
    then show ?thesis by (simp add: regions_ok_def)
  next
    case False
    then obtain d where d: "mm (fds ! i) (le_fld 8 24 p) n = Some d" and nw: "\<not> 2 ^ 64 - 1 - gpa < n" by auto
    define r where "r = \<lparr>mr_gpa = gpa, mr_size = n,
        mr_data = \<lparr>sl_map = vs_next s, sl_off = 0, sl_len = length d, sl_cap = length d\<rparr>, mr_fd = fds ! i\<rparr>"
    define s2 where "s2 = s\<lparr>vs_mem := (vs_mem s)(vs_next s \<mapsto> d), vs_next := Suc (vs_next s)\<rparr>"
    have run2: "map_regions mm payload fds is (rs @ [r]) s2 = (e, rs1, s1)"
      using run d nw by (simp add: r_def s2_def)
    have len: "length d = n" using d assms(2) by (auto simp: mm_ok_def)
    have "live (shape (vs_mem s2)) (mr_data u)" if "u \<in> set rs" for u
      using that Cons.prems(2,3) by (auto simp: regions_ok_def live_def shape_def s2_def)
    then have "regions_ok (shape (vs_mem s2)) (rs @ [r])"
      using Cons.prems(2) len by (auto simp: regions_ok_def live_def shape_def s2_def r_def)
    moreover have "\<forall>u \<in> set (rs @ [r]). sl_map (mr_data u) < vs_next s2"
      using Cons.prems(3) by (auto simp: s2_def r_def less_Suc_eq)
    ultimately show ?thesis by (rule Cons.IH [OF run2])
  qed
qed

lemma setMemTable_ok:
  assumes "setMemTable mm payload fds rs s = (e, rs1, s1)" "mm_ok mm" "regions_ok (shape (vs_mem s)) rs"
  shows "regions_ok (shape (vs_mem s1)) rs1"
proof (cases "rs1 = rs \<and> vs_mem s1 = vs_mem s")
  case False
  then obtain s2 where m: "map_regions mm payload fds [0..<le_fld 4 0 payload] [] (mt_close rs s) = (e, rs1, s2)"
    and v: "vs_mem s1 = vs_mem s2"
    using assms(1) by (auto simp: setMemTable_def Let_def split: if_splits prod.splits option.splits)
  show ?thesis unfolding v by (rule map_regions_ok [OF m assms(2)]) (simp_all add: regions_ok_def)
qed (use assms(3) in simp)

lemma setVringFile_frame:
  assumes "setVringFile dup m k ss s = ((e, ss1), s1)"
  shows "vs_mem s1 = vs_mem s" "ss_mem ss1 = ss_mem ss" "vq_desc (ss_vq ss1) = vq_desc (ss_vq ss)"
    "vring_ok sh (ss_vq ss1) = vring_ok sh (ss_vq ss)" "pub_ok sh (ss_vq ss1) = pub_ok sh (ss_vq ss)"
  using assms by (cases k; auto simp: setVringFile_def maybeStartPump_def pub_ok_def Let_def split: if_splits option.splits)+

lemma vring_ok_shrink:
  assumes "vring_ok sh v" "0 < n" "n \<le> vq_num v"
  shows "vring_ok sh (v\<lparr>vq_num := n\<rparr>)"
  using assms by (fastforce simp: vring_ok_def)

lemma pub_ok_shrink:
  assumes "pub_ok sh v" "0 < n" "n \<le> vq_num v"
  shows "pub_ok sh (v\<lparr>vq_num := n\<rparr>)"
  using assms by (fastforce simp: pub_ok_def)

text \<open>A SET_VRING_ADDR without effect on the available and used rings.\<close>

lemma vring_setup_harmless:
  assumes "regions_ok sh mt" "vring_setup mt a v = (r, v1)"
    "r \<in> {Ok (), Err ''SET_VRING_ADDR before SET_VRING_NUM'', Err ''desc table''}"
  shows "v1 = v \<or> vring_ok sh v1 \<or> v1 = v\<lparr>vq_desc := None\<rparr>"
proof (cases "r = Ok ()")
  case True
  then show ?thesis using vring_setup_ok [OF assms(1)] assms(2) by blast
next
  case False
  then show ?thesis using assms(2,3) by (auto simp: vring_setup_def Let_def split: if_splits go.splits)
qed


definition sess_ok :: "(nat \<Rightarrow> nat option) \<Rightarrow> session \<Rightarrow> bool" where
  "sess_ok sh ss \<longleftrightarrow> regions_ok sh (ss_mem ss) \<and> (vq_desc (ss_vq ss) = None \<or> vring_ok sh (ss_vq ss))"

lemma started_frame [simp]:
  "ss_mem (maybeStartPump ss) = ss_mem ss" "ss_vq (maybeStartPump ss) = ss_vq ss" "ss_closed (maybeStartPump ss) = ss_closed ss"
  by (simp_all add: maybeStartPump_def)

lemma config_ok: "length cfg = blkConfigSize \<Longrightarrow> blk_config cfg off n \<noteq> Panic"
  by (auto simp: blk_config_def slice_def)

text \<open>The messages that touch neither the memory table nor the tables of the ring.\<close>

lemma handle_other:
  assumes "handle mm dup dv m ss s = ((r, ss1, rest), s1)" "mg_request m \<noteq> 5" "mg_request m \<noteq> 8" "mg_request m \<noteq> 9"
    "length (dv_cfg dv) = blkConfigSize"
  shows "r \<noteq> Panic \<and> vs_mem s1 = vs_mem s \<and> ss_mem ss1 = ss_mem ss \<and> vq_desc (ss_vq ss1) = vq_desc (ss_vq ss) \<and>
    vring_ok sh (ss_vq ss1) = vring_ok sh (ss_vq ss) \<and> pub_ok sh (ss_vq ss1) = pub_ok sh (ss_vq ss)"
proof -
  have vf: "(case setVringFile dup m k ss s of ((e, ss1), s1) \<Rightarrow> ((of_err e, ss1, []), s1)) = ((r, ss1, rest), s1) \<Longrightarrow> ?thesis" for k
    by (cases "setVringFile dup m k ss s") (auto simp: of_err_def dest: setVringFile_frame split: option.splits)
  note run = assms(1) [unfolded handle_def Let_def if_not_P [OF assms(2)] if_not_P [OF assms(3)] if_not_P [OF assms(4)]]
  consider "mg_request m = 12" | "mg_request m = 13" | "mg_request m = 14" | "mg_request m \<notin> {12, 13, 14}" by blast
  then show ?thesis
  proof cases
    case 4
    then have "mg_request m \<noteq> 12" "mg_request m \<noteq> 13" "mg_request m \<noteq> 14" by simp_all
    note run2 = run [unfolded if_not_P [OF this(1)] if_not_P [OF this(2)] if_not_P [OF this(3)]]
    show ?thesis using run2 config_ok [OF assms(5)]
      by (auto simp: pub_ok_def simp del: le_put_numeral split: if_splits prod.splits go.splits)
  qed (use run vf in \<open>simp_all del: le_put_numeral\<close>)
qed

lemma handle_ok:
  assumes "handle mm dup dv m ss s = ((r, ss1, rest), s1)" "mm_ok mm" "length (dv_cfg dv) = blkConfigSize"
    "sess_ok (shape (vs_mem s)) ss" "mg_request m = 5 \<longrightarrow> vq_desc (ss_vq ss) = None"
    "mg_request m = 8 \<longrightarrow> vq_desc (ss_vq ss) = None \<or> snd (msg_vringState m) \<le> vq_num (ss_vq ss)"
    "mg_request m = 9 \<longrightarrow> fst (vring_setup (ss_mem ss) (msg_vringAddr m) (ss_vq ss))
       \<in> {Ok (), Err ''SET_VRING_ADDR before SET_VRING_NUM'', Err ''desc table''}"
  shows "r \<noteq> Panic \<and> sess_ok (shape (vs_mem s1)) ss1 \<and>
    (mg_request m \<noteq> 5 \<longrightarrow> vs_mem s1 = vs_mem s \<and>
       ((mg_request m = 8 \<longrightarrow> snd (msg_vringState m) \<le> vq_num (ss_vq ss)) \<and> pub_ok (shape (vs_mem s)) (ss_vq ss) \<longrightarrow>
        pub_ok (shape (vs_mem s)) (ss_vq ss1)))"
proof -
  have so: "regions_ok (shape (vs_mem s)) (ss_mem ss)" "vq_desc (ss_vq ss) = None \<or> vring_ok (shape (vs_mem s)) (ss_vq ss)"
    using assms(4) by (simp_all add: sess_ok_def)
  consider (five) "mg_request m = 5" | (eight) "mg_request m = 8" | (nine) "mg_request m = 9"
    | (other) "mg_request m \<noteq> 5" "mg_request m \<noteq> 8" "mg_request m \<noteq> 9" by blast
  then show ?thesis
  proof cases
    case five
    obtain e rs s2 where t: "setMemTable mm (mg_payload m) (mg_fds m) (ss_mem ss) s = (e, rs, s2)" by (metis surj_pair)
    have "r = of_err e" "ss1 = ss\<lparr>ss_mem := rs\<rparr>" "s1 = s2" using assms(1) t five by (simp_all add: handle_def Let_def)
    then show ?thesis using setMemTable_ok [OF t assms(2) so(1)] assms(5) five
      by (auto simp: sess_ok_def of_err_def split: option.splits)
  next
    case eight
    obtain idx num where n: "msg_vringState m = (idx, num)" by (cases "msg_vringState m")
    have run: "s1 = s \<and> r \<noteq> Panic \<and> (ss1 = ss \<or> 0 < num \<and> ss1 = ss\<lparr>ss_vq := (ss_vq ss)\<lparr>vq_num := num\<rparr>\<rparr>)"
      using assms(1) eight by (auto simp: handle_def Let_def n split: if_splits)
    have "vring_ok (shape (vs_mem s)) ((ss_vq ss)\<lparr>vq_num := num\<rparr>)" if "0 < num" "vq_desc (ss_vq ss) \<noteq> None"
      using that so(2) assms(6) eight n by (intro vring_ok_shrink) auto
    then have "sess_ok (shape (vs_mem s1)) ss1" using run so by (cases "vq_desc (ss_vq ss)") (auto simp: sess_ok_def)
    moreover have "pub_ok (shape (vs_mem s)) (ss_vq ss1)" if "num \<le> vq_num (ss_vq ss)" "pub_ok (shape (vs_mem s)) (ss_vq ss)"
      using run that pub_ok_shrink [OF that(2)] by auto
    ultimately show ?thesis using run n eight by auto
  next
    case nine
    obtain q v where v: "vring_setup (ss_mem ss) (msg_vringAddr m) (ss_vq ss) = (q, v)" by (metis surj_pair)
    have q: "q \<in> {Ok (), Err ''SET_VRING_ADDR before SET_VRING_NUM'', Err ''desc table''}" using assms(7) nine v by simp
    have run: "s1 = s \<and> r \<noteq> Panic \<and> (ss1 = ss \<or> ss1 = ss\<lparr>ss_vq := v\<rparr>)"
      using assms(1) nine q by (auto simp: handle_def Let_def v split: if_splits)
    consider "v = ss_vq ss" | "vring_ok (shape (vs_mem s)) v" | "v = (ss_vq ss)\<lparr>vq_desc := None\<rparr>"
      using vring_setup_harmless [OF so(1) v q] by blast
    then have "sess_ok (shape (vs_mem s)) (ss\<lparr>ss_vq := v\<rparr>) \<and>
        (pub_ok (shape (vs_mem s)) (ss_vq ss) \<longrightarrow> pub_ok (shape (vs_mem s)) v)"
      by cases (use so vring_ok_pub in \<open>auto simp: sess_ok_def pub_ok_def\<close>)
    then show ?thesis using run assms(4) nine by auto
  next
    case other
    then show ?thesis using handle_other [OF assms(1) other assms(3), of "shape (vs_mem s)"] so by (auto simp: sess_ok_def)
  qed
qed

section \<open>The pump\<close>

lemma pop_desc:
  assumes "pop gw mt v s = ((r, v1), s1)"
  shows "vq_desc v1 = vq_desc v"
  using assms by (auto simp: pop_def Let_def split: if_splits prod.splits go.splits option.splits)

lemma pop_loop_desc:
  assumes "pop_loop gw k ss s = ((r, ss1), s1)"
  shows "vq_desc (ss_vq ss1) = vq_desc (ss_vq ss)"
  using assms
proof (induction k arbitrary: ss s r ss1 s1)
  case (Suc k)
  obtain q v1 s2 where p: "pop gw (ss_mem ss) (ss_vq ss) s = ((q, v1), s2)" by (metis surj_pair)
  obtain r3 ss3 s3 where l: "pop_loop gw k (ss\<lparr>ss_vq := v1\<rparr>) s2 = ((r3, ss3), s3)" by (metis surj_pair)
  have "ss1 = ss\<lparr>ss_vq := v1\<rparr> \<or> ss1 = ss3"
    using Suc.prems p l by (auto split: go.splits option.splits)
  then show ?case using Suc.IH [OF l] pop_desc [OF p] by auto
qed simp

lemma pop_loop_ok:
  assumes "guest_ok gw" "sess_ok (shape (vs_mem s)) ss" "pop_loop gw k ss s = ((r, ss1), s1)"
  shows "r \<noteq> Panic \<and> shape (vs_mem s1) = shape (vs_mem s) \<and> sess_ok (shape (vs_mem s)) ss1 \<and> ss_mem ss1 = ss_mem ss \<and>
    (\<forall>es. r = Ok es \<longrightarrow> (\<forall>e \<in> set es. sg_ok (shape (vs_mem s)) e) \<and> (es \<noteq> [] \<longrightarrow> vring_ok (shape (vs_mem s)) (ss_vq ss1)))"
  using assms(2,3)
proof (induction k arbitrary: ss s r ss1 s1)
  case 0
  then show ?case by auto
next
  case (Suc k)
  let ?sh = "shape (vs_mem s)"
  note run = Suc.prems(2) [unfolded pop_loop.simps]
  show ?case
  proof (cases "vq_desc (ss_vq ss) = None")
    case True
    then have "pop gw (ss_mem ss) (ss_vq ss) s = ((Err ''pop on unconfigured vring'', ss_vq ss), s)" by (simp add: pop_def)
    then show ?thesis using run Suc.prems(1) by (auto simp: sess_ok_def)
  next
    case False
    have vr: "vring_ok ?sh (ss_vq ss)" and rg: "regions_ok ?sh (ss_mem ss)"
      using Suc.prems(1) False unfolding sess_ok_def by blast+
    obtain q v1 s2 where p: "pop gw (ss_mem ss) (ss_vq ss) s = ((q, v1), s2)" by (metis surj_pair)
    have q: "q \<noteq> Panic" "shape (vs_mem s2) = ?sh" "vring_ok ?sh v1"
      "\<And>e. q = Ok (Some e) \<Longrightarrow> el_out e = [] \<and> el_in e = [] \<and> (\<forall>r \<in> set (el_raw e). 0 < rd_length r)"
      using pop_ok [OF assms(1) vr rg] p unfolding vok2_def by blast+
    define ss2 where "ss2 = ss\<lparr>ss_vq := v1\<rparr>"
    have s2: "sess_ok ?sh ss2" "vring_ok ?sh (ss_vq ss2)" "ss_mem ss2 = ss_mem ss" using rg q(3) by (simp_all add: sess_ok_def ss2_def)
    show ?thesis
    proof (cases "\<exists>e. q = Ok (Some e)")
      case False
      then have "r = Ok [] \<and> ss1 = ss2 \<and> s1 = s2"
        using run p q(1) by (cases q) (auto simp: ss2_def split: option.splits)
      then show ?thesis using q s2 by simp
    next
      case True
      then obtain e where e: "q = Ok (Some e)" by blast
      have e0: "\<forall>r \<in> set (el_raw e). 0 < rd_length r" "el_out e = []" "el_in e = []" using q(4) [OF e] by simp_all
      note tr = translateSG_ok [OF rg e0]
      note run2 = run [unfolded p prod.case e go.case option.case ss2_def [symmetric]]
      show ?thesis
      proof (cases "translateSG (ss_mem ss) e")
        case (Ok e1)
        obtain r3 ss3 s3 where l: "pop_loop gw k ss2 s2 = ((r3, ss3), s3)" by (metis surj_pair)
        have ih: "r3 \<noteq> Panic \<and> shape (vs_mem s3) = shape (vs_mem s2) \<and> sess_ok (shape (vs_mem s2)) ss3 \<and> ss_mem ss3 = ss_mem ss2 \<and>
            (\<forall>es. r3 = Ok es \<longrightarrow> (\<forall>e \<in> set es. sg_ok (shape (vs_mem s2)) e) \<and> (es \<noteq> [] \<longrightarrow> vring_ok (shape (vs_mem s2)) (ss_vq ss3)))"
          by (rule Suc.IH) (use s2 q(2) l in simp_all)
        have ring: "vring_ok ?sh (ss_vq ss3)"
        proof -
          have "vq_desc (ss_vq ss3) \<noteq> None" using pop_loop_desc [OF l] s2(2) by (auto simp: vring_ok_def)
          then show ?thesis using ih q(2) unfolding sess_ok_def by metis
        qed
        have "((r, ss1), s1) = (case r3 of Ok es \<Rightarrow> ((Ok (e1 # es), ss3), s3) | Err x \<Rightarrow> ((Err x, ss3), s3) | Panic \<Rightarrow> ((Panic, ss3), s3))"
          using run2 Ok l by (auto split: go.splits)
        then show ?thesis using ih ring q(2) tr(2) [OF Ok] s2(3) by (cases r3) auto
      qed (use run2 tr q s2 in auto)
    qed
  qed
qed


lemma pop_loop_noerr:
  assumes "pop_loop gw k ss s = ((r, ss1), s1)"
  shows "r \<noteq> Err x"
  using assms
proof (induction k arbitrary: ss s r ss1 s1)
  case (Suc k)
  then show ?case by (auto split: go.splits option.splits prod.splits)
qed auto

lemma push_all_ok:
  assumes "guest_ok gw" "pub_ok sh v"
  shows "vok2 sh (push_all gw rs v) (pub_ok sh) (\<lambda>u. True)"
  using assms(2)
proof (induction rs arbitrary: v)
  case Nil
  then show ?case by (simp add: vok2_def)
next
  case (Cons r rs)
  have p: "q \<noteq> Panic \<and> shape (vs_mem s2) = sh \<and> pub_ok sh v2"
    if "push gw v (fst r) (snd r) s = ((q, v2), s2)" "shape (vs_mem s) = sh" for s q v2 s2
    using push_ok [OF assms(1) Cons.prems] that unfolding vok2_def by blast
  show ?case unfolding vok2_def
  proof (intro allI impI)
    fix s q v1 s1 assume a: "shape (vs_mem s) = sh \<and> push_all gw (r # rs) v s = ((q, v1), s1)"
    obtain q2 v2 s2 where u: "push gw v (fst r) (snd r) s = ((q2, v2), s2)" by (metis surj_pair)
    note k = p [OF u a [THEN conjunct1]]
    show "q \<noteq> Panic \<and> shape (vs_mem s1) = sh \<and> pub_ok sh v1 \<and> (\<forall>x. q = Ok x \<longrightarrow> True)"
      using a u k Cons.IH [of v2, unfolded vok2_def] by (cases q2) auto
  qed
qed

lemma push_frame:
  assumes "push gw v e n s = ((r, v1), s1)"
  shows "vq_desc v1 = vq_desc v \<and> vring_ok sh v1 = vring_ok sh v"
  using assms by (auto simp: push_def Let_def vring_ok_def split: if_splits prod.splits)

lemma push_all_frame:
  assumes "push_all gw rs v s = ((r, v1), s1)"
  shows "vq_desc v1 = vq_desc v \<and> vring_ok sh v1 = vring_ok sh v"
  using assms
proof (induction rs arbitrary: v s)
  case (Cons x rs)
  obtain q2 v2 s2 where u: "push gw v (fst x) (snd x) s = ((q2, v2), s2)" by (metis surj_pair)
  show ?case using Cons.prems Cons.IH [of v2 s2] push_frame [OF u, of sh] u by (cases q2) auto
qed simp

lemma publish_ok:
  assumes "guest_ok gw" "pub_ok (shape (vs_mem s)) (ss_vq ss)" "sess_ok (shape (vs_mem s)) ss"
    "publish gw rs ss s = ((r, ss1), s1)"
  shows "(\<exists>b. r = Ok b) \<and> shape (vs_mem s1) = shape (vs_mem s) \<and> sess_ok (shape (vs_mem s)) ss1"
proof (cases "ss_closed ss")
  case True
  then show ?thesis using assms(3,4) by (auto simp: publish_def)
next
  case False
  let ?sh = "shape (vs_mem s)"
  obtain q v2 s2 where u: "push_all gw rs (ss_vq ss) s = ((q, v2), s2)" by (metis surj_pair)
  have k: "q \<noteq> Panic" "shape (vs_mem s2) = ?sh" "pub_ok ?sh v2"
    using push_all_ok [OF assms(1,2)] u unfolding vok2_def by blast+
  obtain q3 s3 where w: "notify gw v2 s2 = (q3, s3)" by (metis surj_pair)
  have n: "q3 \<noteq> Panic" "shape (vs_mem s3) = ?sh"
    using notify_ok [OF assms(1) k(3)] w k(2) unfolding vok_def by blast+
  have "r = Ok False \<and> ss1 = ss\<lparr>ss_vq := v2\<rparr> \<and> s1 = s3"
    using assms(4) False u w k(1) n(1) by (cases q; cases q3) (auto simp: publish_def)
  then show ?thesis using n(2) push_all_frame [OF u, of ?sh] assms(3) by (auto simp: sess_ok_def)
qed

section \<open>No interleaving panics\<close>

definition vu_ok :: "'b vu \<Rightarrow> bool" where
  "vu_ok c \<longleftrightarrow>
     (let sh = shape (vs_mem (vu_st c)); ss = vu_ss c in
      \<not> vu_crashed c \<and>
      (if vu_down c then vu_pump c = PNone \<or> vu_pump c = PExit
       else sess_ok sh ss \<and>
         (case vu_pump c of PRun todo res \<Rightarrow> pub_ok sh (ss_vq ss) \<and> (\<forall>e \<in> set todo. sg_ok sh e) | _ \<Rightarrow> True)))"

lemma message_ok:
  assumes "vu_ok c" "\<not> vu_down c" "tame m c" "mg_request m = 5 \<longrightarrow> pumpBusy c = 0" "mm_ok mm" "length (dv_cfg dv) = blkConfigSize"
  shows "vu_ok (vu_message mm dup dv m c)"
proof -
  define ss and s :: vst where "ss = vu_ss c" and "s = vu_st c"
  let ?sh = "shape (vs_mem s)"
  have inv: "sess_ok ?sh ss" "\<not> vu_crashed c"
    "\<And>todo res. vu_pump c = PRun todo res \<Longrightarrow> pub_ok ?sh (ss_vq ss) \<and> (\<forall>e \<in> set todo. sg_ok ?sh e)"
    using assms(1,2) by (auto simp: vu_ok_def Let_def ss_def s_def)
  obtain r ss1 rest s1 where h: "handle mm dup dv m ss s = ((r, ss1, rest), s1)" by (metis surj_pair)
  have k: "r \<noteq> Panic" "sess_ok (shape (vs_mem s1)) ss1"
    "mg_request m \<noteq> 5 \<Longrightarrow> vs_mem s1 = vs_mem s"
    "mg_request m \<noteq> 5 \<Longrightarrow> mg_request m = 8 \<longrightarrow> snd (msg_vringState m) \<le> vq_num (ss_vq ss) \<Longrightarrow>
       pub_ok ?sh (ss_vq ss) \<Longrightarrow> pub_ok ?sh (ss_vq ss1)"
    using handle_ok [OF h assms(5,6) inv(1)] assms(3) unfolding tame_def Let_def ss_def [symmetric] by blast+
  define p where "p = (if ss_started ss1 \<and> vu_pump c = PNone then PIdle else vu_pump c)"
  have run: "vu_message mm dup dv m c = c\<lparr>vu_ss := ss1, vu_st := closeFds rest s1, vu_pump := p\<rparr>"
    using h k(1) by (cases r) (simp_all add: vu_message_def run_turn_def Let_def p_def ss_def s_def)
  have "pub_ok (shape (vs_mem s1)) (ss_vq ss1) \<and> (\<forall>e \<in> set todo. sg_ok (shape (vs_mem s1)) e)" if "p = PRun todo res" for todo res
  proof -
    have pr: "vu_pump c = PRun todo res" using that by (auto simp: p_def split: if_splits)
    then have n5: "mg_request m \<noteq> 5" using assms(4) by (auto simp: pumpBusy_def)
    note i = inv(3) [OF pr]
    have "mg_request m = 8 \<longrightarrow> snd (msg_vringState m) \<le> vq_num (ss_vq ss)"
      using assms(3) pr by (auto simp: tame_def Let_def pumpBusy_def ss_def)
    then have "pub_ok ?sh (ss_vq ss1)" using i k(4) [OF n5] by blast
    then show ?thesis using i k(3) [OF n5] by simp
  qed
  then show ?thesis using k(2) inv(2) assms(2) unfolding run by (auto simp: vu_ok_def Let_def split: pump.split)
qed

lemma take_ok:
  assumes "vu_ok c" "vu_pump c = PIdle" "guest_ok gw"
  shows "vu_ok (vu_take gw c)"
proof -
  define ss and s :: vst where "ss = vu_ss c" and "s = vu_st c"
  have inv: "sess_ok (shape (vs_mem s)) ss" "\<not> vu_crashed c" "\<not> vu_down c"
    using assms(1,2) by (auto simp: vu_ok_def Let_def ss_def s_def split: if_splits)
  obtain r ss1 s1 where p: "popBatch gw ss s = ((r, ss1), s1)" by (metis surj_pair)
  have k: "r \<noteq> Panic \<and> shape (vs_mem s1) = shape (vs_mem s) \<and> sess_ok (shape (vs_mem s)) ss1 \<and>
    (\<forall>es. r = Ok es \<longrightarrow> (\<forall>e \<in> set es. sg_ok (shape (vs_mem s)) e) \<and> (es \<noteq> [] \<longrightarrow> pub_ok (shape (vs_mem s)) (ss_vq ss1)))"
    using p pop_loop_ok [OF assms(3) inv(1)] inv(1) vring_ok_pub unfolding popBatch_def by (cases "ss_closed ss") auto
  have "r \<noteq> Err x" for x using p pop_loop_noerr by (auto simp: popBatch_def split: if_splits)
  then obtain es where es: "r = Ok es" using k by (cases r) auto
  show ?thesis using p es k inv
    by (auto simp: vu_take_def vu_ok_def Let_def ss_def s_def)
qed

lemma exec_ok:
  assumes "vu_ok c" "vu_pump c = PRun (e # es) res" "guest_ok gw"
  shows "vu_ok (vu_exec gw be ro e es res c)"
proof -
  let ?sh = "shape (vs_mem (vu_st c))"
  have inv: "sess_ok ?sh (vu_ss c)" "\<not> vu_crashed c" "\<not> vu_down c" "pub_ok ?sh (ss_vq (vu_ss c))"
    "sg_ok ?sh e" "\<forall>x \<in> set es. sg_ok ?sh x"
    using assms(1,2) by (auto simp: vu_ok_def Let_def split: if_splits)
  obtain r and s1 :: vst where p: "process gw be ro e (vu_be c) (vu_st c) = (r, s1)" by (metis surj_pair)
  have "r \<noteq> Panic" "shape (vs_mem s1) = ?sh"
    using process_ok [OF assms(3) inv(5), of be ro "vu_be c"] p unfolding vok_def by blast+
  then show ?thesis using p inv by (cases r) (auto simp: vu_exec_def vu_ok_def Let_def)
qed

lemma publish_step_ok:
  assumes "vu_ok c" "vu_pump c = PRun [] res" "guest_ok gw"
  shows "vu_ok (vu_publish gw res c)"
proof -
  let ?sh = "shape (vs_mem (vu_st c))"
  have inv: "sess_ok ?sh (vu_ss c)" "\<not> vu_crashed c" "\<not> vu_down c" "pub_ok ?sh (ss_vq (vu_ss c))"
    using assms(1,2) by (auto simp: vu_ok_def Let_def split: if_splits)
  obtain r ss1 and s1 :: vst where p: "publish gw res (vu_ss c) (vu_st c) = ((r, ss1), s1)" by (metis surj_pair)
  show ?thesis using publish_ok [OF assms(3) inv(4,1) p] p inv
    by (auto simp: vu_publish_def vu_ok_def Let_def)
qed

lemma vu_step_ok:
  assumes "vu_step mm dup dv be tame c c1" "mm_ok mm" "length (dv_cfg dv) = blkConfigSize" "vu_ok c"
  shows "vu_ok c1"
  using assms(1,4)
proof cases
  case (message m)
  then show ?thesis using message_ok [OF assms(4)] assms(2,3) by simp
next
  case (take gw)
  then show ?thesis using take_ok [OF assms(4)] by simp
next
  case (exec e es res gw)
  then show ?thesis using exec_ok [OF assms(4)] by simp
next
  case (publish res gw)
  then show ?thesis using publish_step_ok [OF assms(4)] by simp
next
  case leave
  then show ?thesis using assms(4) by (auto simp: vu_ok_def Let_def split: if_splits)
next
  case (guest m)
  then show ?thesis using assms(4) by (simp add: vu_ok_def Let_def)
next
  case mark
  then show ?thesis using assms(4) by (cases "vu_pump c") (auto simp: vu_ok_def Let_def sess_ok_def)
next
  case unmap
  then show ?thesis using assms(4) by (auto simp: vu_ok_def vu_unmap_def Let_def split: if_splits)
qed

lemma vu_reach_ok:
  assumes "(vu_step mm dup dv be tame)\<^sup>*\<^sup>* (vu_init b s) c" "mm_ok mm" "length (dv_cfg dv) = blkConfigSize"
  shows "vu_ok c"
  using assms(1)
proof induction
  case base
  show ?case by (simp add: vu_ok_def vu_init_def sess_ok_def newSession_def regions_ok_def)
next
  case (step y z)
  then show ?case using vu_step_ok assms(2,3) by blast
qed


section \<open>Frontends that break the ring\<close>

lemma mt_close_mem: "vs_mem (mt_close rs s) i = (if i \<in> (\<lambda>r. sl_map (mr_data r)) ` set rs then None else vs_mem s i)"
  unfolding mt_close_def by (induction rs arbitrary: s) auto

lemma mt_close_next [simp]: "vs_next (mt_close rs s) = vs_next s"
  unfolding mt_close_def by (induction rs arbitrary: s) auto

lemma map_regions_stays_unmapped:
  assumes "map_regions mm payload fds is rs s = (e, rs1, s1)" "vs_mem s i = None" "i < vs_next s"
  shows "vs_mem s1 i = None"
  using assms
proof (induction "is" arbitrary: rs s)
  case (Cons k "is")
  show ?case
  proof (cases "vs_mem s1 = vs_mem (mt_close rs s)")
    case True
    then show ?thesis using Cons.prems(2) by (simp add: mt_close_mem)
  next
    case False
    then obtain d rs2 where "map_regions mm payload fds is rs2 (s\<lparr>vs_mem := (vs_mem s)(vs_next s \<mapsto> d), vs_next := Suc (vs_next s)\<rparr>) = (e, rs1, s1)"
      using Cons.prems(1) by (auto simp: Let_def split: if_splits option.splits)
    then show ?thesis by (rule Cons.IH) (use Cons.prems(2,3) in simp_all)
  qed
qed simp

lemma setMemTable_unmaps:
  assumes "setMemTable mm payload fds rs s = (e, rs1, s1)" "8 + le_fld 4 0 payload * 32 \<le> length payload"
    "le_fld 4 0 payload \<le> length fds" "i \<in> (\<lambda>r. sl_map (mr_data r)) ` set rs" "i < vs_next s"
  shows "vs_mem s1 i = None"
proof -
  obtain s2 where m: "map_regions mm payload fds [0..<le_fld 4 0 payload] [] (mt_close rs s) = (e, rs1, s2)"
    and v: "vs_mem s1 = vs_mem s2"
    using assms(1-3) by (auto simp: setMemTable_def Let_def split: if_splits prod.splits option.splits)
  show ?thesis unfolding v by (rule map_regions_stays_unmapped [OF m]) (use assms(4,5) in \<open>simp_all add: mt_close_mem\<close>)
qed

text \<open>A pop on a ring whose available ring is gone faults.\<close>

lemma pop_unmapped:
  assumes "vq_desc v = Some d" "vq_avail v = Some a" "vs_mem s (sl_map a) = None" "guest_ok gw"
  shows "fst (fst (pop gw mt v s)) = Panic"
proof -
  have "shape (gw (vs_tick s) (vs_mem s)) (sl_map a) = shape (vs_mem s) (sl_map a)" using assms(4) by (simp add: guest_ok_def)
  then have "gw (vs_tick s) (vs_mem s) (sl_map a) = None" using assms(3) by (simp add: shape_def)
  then show ?thesis using assms(1,2)
    by (auto simp: pop_def availIdx_def first_byte_def vbind_def vgo_def peek_def Let_def split: if_splits)
qed

lemma pop_no_avail:
  assumes "vq_desc v = Some d" "vq_avail v = None"
  shows "fst (fst (pop gw mt v s)) = Panic"
  using assms by (simp add: pop_def availIdx_def first_byte_def vbind_def vgo_def)

lemma popBatch_panics:
  assumes "fst (fst (pop gw (ss_mem ss) (ss_vq ss) s)) = Panic" "\<not> ss_closed ss"
  shows "fst (fst (popBatch gw ss s)) = Panic"
proof -
  have k: "pumpMaxBatch = Suc 127" by (simp add: pumpMaxBatch_def)
  obtain v1 s1 where "pop gw (ss_mem ss) (ss_vq ss) s = ((Panic, v1), s1)" using assms(1) by (metis prod.collapse)
  then have "fst (fst (pop_loop gw (Suc k) ss s)) = Panic" for k by simp
  then show ?thesis using assms(2) unfolding popBatch_def k by (metis (full_types))
qed

text \<open>
  A SET_VRING_ADDR whose descriptor table is good and whose available ring is not leaves the ring half
  set up: \<^verbatim>\<open>setup\<close> returns an error, but the next batch takes the address of the first byte of a nil slice.
\<close>

theorem failed_setVringAddr_crashes:
  assumes "mg_request m = 9" "va_index (msg_vringAddr m) = 0" "\<not> ss_closed ss"
    "vring_setup (ss_mem ss) (msg_vringAddr m) (ss_vq ss) = (Err ''avail ring'', v1)"
  shows "\<exists>ss1 rest. handle mm dup dv m ss s = ((Err ''avail ring'', ss1, rest), s) \<and> fst (fst (popBatch gw ss1 s1)) = Panic"
proof -
  have "handle mm dup dv m ss s = ((Err ''avail ring'', ss\<lparr>ss_vq := v1\<rparr>, mg_fds m), s)"
    using assms by (simp add: handle_def Let_def)
  moreover have "(\<exists>d. vq_desc v1 = Some d) \<and> vq_avail v1 = None"
    using assms(4) by (auto simp: vring_setup_def Let_def split: if_splits go.splits)
  then have "fst (fst (popBatch gw (ss\<lparr>ss_vq := v1\<rparr>) s1)) = Panic"
    using assms(3) by (auto intro!: popBatch_panics pop_no_avail)
  ultimately show ?thesis by blast
qed

section \<open>Messages on the wire\<close>

lemma le_fld_append: "off + w \<le> length a \<Longrightarrow> le_fld w off (a @ b) = le_fld w off a"
  by (simp add: le_fld_def)

lemma recv_send:
  assumes "request < 2 ^ 32" "flags < 2 ^ 32" "length payload \<le> 8192"
  shows "recv (send request flags payload @ rest) fds =
    Ok (\<lparr>mg_request = request, mg_flags = flags div 4 * 4 + 1, mg_payload = payload, mg_fds = fds\<rparr>, rest)"
proof -
  define bs where "bs = send request flags payload @ rest"
  have t: "256 ^ 4 = (2 ^ 32 :: nat)" by simp
  have "flags div 4 < 2 ^ 30" using assms(2) by (simp add: less_mult_imp_div_less)
  then have f: "flags div 4 * 4 + 1 < 2 ^ 32" by simp
  have d: "drop 4 bs = le_put 4 (flags div 4 * 4 + 1) @ le_put 4 (length payload) @ payload @ rest"
    "drop 8 bs = le_put 4 (length payload) @ payload @ rest" "drop 12 bs = payload @ rest"
    "drop (12 + length payload) bs = rest" "length bs = 12 + length payload + length rest"
    by (simp_all add: bs_def send_def del: le_put_numeral)
  have e: "le_fld 4 0 bs = request" "le_fld 4 4 bs = flags div 4 * 4 + 1" "le_fld 4 8 bs = length payload"
    using assms(1,3) f unfolding le_fld_def d
    by (simp_all add: bs_def send_def le_get_put t del: le_put_numeral)
  have "(flags div 4 * 4 + 1) mod 4 = 1" by presburger
  then show ?thesis unfolding bs_def [symmetric] recv_def e d Let_def using assms(3) by simp
qed

section \<open>Properties\<close>

lemma NewBlkDev_length: "length (NewBlkDev n) = blkConfigSize"
  by (simp add: NewBlkDev_def Let_def blkConfigSize_def length_splice del: le_put_numeral)

text \<open>
  C5: No interleaving of the control thread, the pump, the closing of the session and a guest that rewrites
  its memory at any moment makes the server panic or touch unmapped memory, as long as the frontend
  replaces the memory table only while no ring is set up, does not grow a ring that is set up or in use,
  and sends available and used rings inside the table along with a good descriptor table. Every buffer of
  the requests still to be executed stays mapped, since SET_MEM_TABLE waits for the batch and \<open>close\<close> for
  the end of the pump.
\<close>

theorem vu_no_panic:
  assumes "(vu_step mm dup dv be tame)\<^sup>*\<^sup>* (vu_init b s) c" "mm_ok mm" "dv_cfg dv = NewBlkDev n"
  shows "\<not> vu_crashed c \<and> (vu_down c \<longrightarrow> vu_pump c = PNone \<or> vu_pump c = PExit) \<and>
    (\<forall>todo res. vu_pump c = PRun todo res \<longrightarrow>
       (\<forall>e \<in> set todo. \<forall>t \<in> set (el_out e @ el_in e). live (shape (vs_mem (vu_st c))) t))"
proof -
  have "vu_ok c" by (rule vu_reach_ok [OF assms(1,2)]) (simp add: assms(3) NewBlkDev_length)
  then show ?thesis by (auto simp: vu_ok_def Let_def sg_ok_def split: if_splits)
qed


text \<open>
  A session of a frontend: one region of 64 bytes, a ring of two entries with its tables at 0, 32 and 40.
\<close>

definition demo_mm :: "nat \<Rightarrow> nat \<Rightarrow> nat \<Rightarrow> u8 list option" where
  "demo_mm fd off n = Some (replicate n 0)"

definition demo_dev :: dev where
  "demo_dev = \<lparr>dv_ro = False, dv_cfg = NewBlkDev 512\<rparr>"

definition demo_st :: vst where
  "demo_st = \<lparr>vs_mem = Map.empty, vs_tick = 0, vs_next = 0, vs_closed = []\<rparr>"

definition demo_msg :: "nat \<Rightarrow> u8 list \<Rightarrow> nat list \<Rightarrow> msg" where
  "demo_msg r p fds = \<lparr>mg_request = r, mg_flags = 1, mg_payload = p, mg_fds = fds\<rparr>"

definition demo_table :: msg where
  "demo_table = demo_msg 5 [1,0,0,0, 0,0,0,0, 0,0,0,0,0,0,0,0, 64,0,0,0,0,0,0,0, 0,0,0,0,0,0,0,0, 0,0,0,0,0,0,0,0] [7]"

definition demo_num :: msg where
  "demo_num = demo_msg 8 [0,0,0,0, 2,0,0,0] []"

definition demo_addr :: msg where
  "demo_addr = demo_msg 9 [0,0,0,0, 0,0,0,0, 0,0,0,0,0,0,0,0, 40,0,0,0,0,0,0,0, 32,0,0,0,0,0,0,0, 0,0,0,0,0,0,0,0] []"

definition demo_region :: memRegion where
  "demo_region = \<lparr>mr_gpa = 0, mr_size = 64, mr_data = \<lparr>sl_map = 0, sl_off = 0, sl_len = 64, sl_cap = 64\<rparr>, mr_fd = 7\<rparr>"

definition demo_vq :: "nat \<Rightarrow> bool \<Rightarrow> vring" where
  "demo_vq num on = (ss_vq newSession)\<lparr>vq_num := num,
     vq_desc := (if on then Some \<lparr>sl_map = 0, sl_off = 0, sl_len = 32, sl_cap = 64\<rparr> else None),
     vq_avail := (if on then Some \<lparr>sl_map = 0, sl_off = 32, sl_len = 8, sl_cap = 32\<rparr> else None),
     vq_used := (if on then Some \<lparr>sl_map = 0, sl_off = 40, sl_len = 20, sl_cap = 24\<rparr> else None)\<rparr>"

definition demo_ss :: "nat \<Rightarrow> bool \<Rightarrow> session" where
  "demo_ss num on = newSession\<lparr>ss_mem := [demo_region], ss_vq := demo_vq num on\<rparr>"

definition demo_mapped :: vst where
  "demo_mapped = demo_st\<lparr>vs_mem := [0 \<mapsto> replicate 64 0], vs_next := 1\<rparr>"

lemmas demo_defs = demo_mm_def demo_dev_def demo_st_def demo_msg_def demo_table_def demo_num_def demo_addr_def demo_region_def
  demo_vq_def demo_ss_def demo_mapped_def newSession_def

lemma demo_handle:
  "handle demo_mm dup demo_dev demo_table newSession demo_st = ((Ok None, demo_ss 0 False, []), demo_mapped)"
  "handle demo_mm dup demo_dev demo_num (demo_ss 0 False) demo_mapped = ((Ok None, demo_ss 2 False, []), demo_mapped)"
  "handle demo_mm dup demo_dev demo_addr (demo_ss 2 False) demo_mapped = ((Ok None, demo_ss 2 True, []), demo_mapped)"
proof -
  show "handle demo_mm dup demo_dev demo_table newSession demo_st = ((Ok None, demo_ss 0 False, []), demo_mapped)"
    by (simp add: handle_def setMemTable_def demo_defs le_fld_def mt_close_def closeFds_def of_err_def)
  show "handle demo_mm dup demo_dev demo_num (demo_ss 0 False) demo_mapped = ((Ok None, demo_ss 2 False, []), demo_mapped)"
    by (simp add: handle_def demo_defs le_fld_def msg_vringState_def)
  show "handle demo_mm dup demo_dev demo_addr (demo_ss 2 False) demo_mapped = ((Ok None, demo_ss 2 True, []), demo_mapped)"
    by (simp add: handle_def demo_defs le_fld_def msg_vringAddr_def vring_setup_def sl_sub_def)
qed

definition demo_run :: "nat \<Rightarrow> bool \<Rightarrow> unit vu" where
  "demo_run num on = (vu_init () demo_mapped)\<lparr>vu_ss := demo_ss num on\<rparr>"

lemma demo_message:
  "vu_message demo_mm dup demo_dev demo_table (vu_init () demo_st) = demo_run 0 False"
  "vu_message demo_mm dup demo_dev demo_num (demo_run 0 False) = demo_run 2 False"
  "vu_message demo_mm dup demo_dev demo_addr (demo_run 2 False) = demo_run 2 True"
  by (simp_all add: vu_message_def run_turn_def demo_handle demo_run_def vu_init_def Let_def closeFds_def)
    (simp_all add: demo_defs)


lemma demo_tame:
  "tame demo_table (vu_init () demo_st)" "tame demo_num (demo_run 0 False)" "tame demo_addr (demo_run 2 False)"
proof -
  show "tame demo_table (vu_init () demo_st)" "tame demo_num (demo_run 0 False)"
    by (simp_all add: tame_def demo_run_def vu_init_def Let_def demo_defs pumpBusy_def)
  have "fst (vring_setup (ss_mem (demo_ss 2 False)) (msg_vringAddr demo_addr) (ss_vq (demo_ss 2 False))) = Ok ()"
    by (simp add: demo_defs le_fld_def msg_vringAddr_def vring_setup_def sl_sub_def)
  then show "tame demo_addr (demo_run 2 False)" by (simp add: tame_def demo_run_def Let_def) (simp add: demo_addr_def demo_msg_def)
qed

lemma demo_reach: "(vu_step demo_mm Some demo_dev be tame)\<^sup>*\<^sup>* (vu_init () demo_st) (demo_run 2 True)"
proof -
  have "vu_step demo_mm Some demo_dev be tame (vu_init () demo_st) (demo_run 0 False)"
    unfolding demo_message(1) [of Some, symmetric]
    by (rule vu_step.message) (use demo_tame in \<open>simp_all add: vu_init_def pumpBusy_def\<close>)
  moreover have "vu_step demo_mm Some demo_dev be tame (demo_run 0 False) (demo_run 2 False)"
    unfolding demo_message(2) [of Some, symmetric]
    by (rule vu_step.message) (use demo_tame in \<open>simp_all add: demo_run_def vu_init_def pumpBusy_def\<close>)
  moreover have "vu_step demo_mm Some demo_dev be tame (demo_run 2 False) (demo_run 2 True)"
    unfolding demo_message(3) [of Some, symmetric]
    by (rule vu_step.message) (use demo_tame in \<open>simp_all add: demo_run_def vu_init_def pumpBusy_def\<close>)
  ultimately show ?thesis by (meson converse_rtranclp_into_rtranclp rtranclp.rtrancl_refl)
qed

theorem vu_no_panic_witness:
  "\<forall>be. (vu_step demo_mm Some demo_dev be tame)\<^sup>*\<^sup>* (vu_init () demo_st) (demo_run 2 True) \<and> \<not> vu_crashed (demo_run 2 True)"
  using vu_no_panic [OF demo_reach, of 512] demo_reach by (simp add: mm_ok_def demo_mm_def demo_dev_def)

text \<open>
  C39: A SET_MEM_TABLE while a ring is set up is accepted, but the ring's tables still point into the
  mappings it removes: whether or not the new regions can be mapped, the next batch faults on the
  available ring, however the guest behaves.
\<close>

theorem setMemTable_strands_ring:
  assumes "mg_request m = 5" "8 + le_fld 4 0 (mg_payload m) * 32 \<le> length (mg_payload m)"
    "le_fld 4 0 (mg_payload m) \<le> length (mg_fds m)"
    "vq_desc (ss_vq ss) \<noteq> None" "vq_avail (ss_vq ss) = Some a" "\<exists>r \<in> set (ss_mem ss). sl_map (mr_data r) = sl_map a"
    "sl_map a < vs_next s" "\<not> ss_closed ss" "guest_ok gw"
  shows "case handle mm dup dv m ss s of ((r, ss1, rest), s1) \<Rightarrow> r \<noteq> Panic \<and> fst (fst (popBatch gw ss1 s1)) = Panic"
proof -
  obtain e rs s1 where t: "setMemTable mm (mg_payload m) (mg_fds m) (ss_mem ss) s = (e, rs, s1)" by (metis surj_pair)
  have "vs_mem s1 (sl_map a) = None" by (rule setMemTable_unmaps [OF t assms(2,3)]) (use assms(6,7) in \<open>auto simp: rev_image_eqI\<close>)
  moreover obtain d where "vq_desc (ss_vq ss) = Some d" using assms(4) by blast
  ultimately have "fst (fst (popBatch gw (ss\<lparr>ss_mem := rs\<rparr>) s1)) = Panic"
    using assms(5,8,9) by (auto intro!: popBatch_panics pop_unmapped)
  then show ?thesis using t assms(1) by (simp add: handle_def Let_def of_err_def split: option.split)
qed

theorem setMemTable_strands_ring_witness:
  "case handle demo_mm Some demo_dev demo_table (demo_ss 2 True) demo_mapped of
     ((r, ss1, rest), s1) \<Rightarrow> r \<noteq> Panic \<and> fst (fst (popBatch quiet ss1 s1)) = Panic"
  by (rule setMemTable_strands_ring [where a = "\<lparr>sl_map = 0, sl_off = 32, sl_len = 8, sl_cap = 32\<rparr>", OF _ _ _ _ _ _ _ _ quiet_ok])
    (simp_all add: demo_defs le_fld_def)

end
