(* ===== verification/PortMap.thy ===== *)
theory PortMap
  imports Text "HOL-Library.Multiset"
begin

text \<open>
  Published host ports, \<^verbatim>\<open>internal/network/portmap.go\<close> and the bookkeeping of \<^verbatim>\<open>ingress.go\<close>: the registry of
  mappings, the packet filter rules installed for them and their proxies. \<open>ipt\<close> is the \<^verbatim>\<open>iptables\<close> program: its
  exit status (-1 when it did not run to an end) and the new state of the host. \<open>lst\<close> says whether the
  proxy's port can be listened on, \<open>wr\<close> whether the registry file can be written, \<open>v6\<close> which strings with
  colons \<^verbatim>\<open>net.ParseIP\<close> takes for an IPv4 address. Creation times are left out, and the state directory exists.
\<close>

section \<open>Mappings\<close>

record PortMapping =
  pm_TaskID :: string
  pm_HostPort :: int
  pm_GuestPort :: int
  pm_GuestIP :: string
  pm_Protocol :: string
  pm_AccessToken :: string
  pm_MaskRequestHost :: string

definition hasIngressL7 :: "PortMapping \<Rightarrow> bool" where
  "hasIngressL7 m \<longleftrightarrow> pm_AccessToken m \<noteq> '''' \<or> pm_MaskRequestHost m \<noteq> ''''"

text \<open>\<^verbatim>\<open>net.ParseIP(s).To4() != nil\<close>\<close>

fun split_dot :: "string \<Rightarrow> string \<Rightarrow> string list" where
  "split_dot w [] = [w]"
| "split_dot w (c # s) = (if c = CHR ''.'' then w # split_dot [] s else split_dot (w @ [c]) s)"

definition octet :: "string \<Rightarrow> bool" where
  "octet w \<longleftrightarrow> w \<noteq> [] \<and> list_all is_digit w \<and> (1 < length w \<longrightarrow> hd w \<noteq> CHR ''0'') \<and> val_acc 0 w \<le> 255"

definition dotted_quad :: "string \<Rightarrow> bool" where
  "dotted_quad s \<longleftrightarrow> length (split_dot [] s) = 4 \<and> list_all octet (split_dot [] s)"

definition ParseIP4 :: "(string \<Rightarrow> bool) \<Rightarrow> string \<Rightarrow> bool" where
  "ParseIP4 v6 s =
     (case dropWhile (\<lambda>c. c \<notin> {CHR ''.'', CHR '':'', CHR ''%''}) s of
        [] \<Rightarrow> False
      | c # _ \<Rightarrow> if c = CHR ''.'' then dotted_quad s else if c = CHR '':'' then v6 s else False)"

definition maxIngressTokenBytes :: nat where "maxIngressTokenBytes = 512"
definition maxIngressHostBytes :: nat where "maxIngressHostBytes = 255"

definition validatePortMapping :: "(string \<Rightarrow> bool) \<Rightarrow> PortMapping \<Rightarrow> string option" where
  "validatePortMapping v6 m =
     (if pm_TaskID m = '''' then Some ''requires a task id''
      else if pm_HostPort m < 1 \<or> 65535 < pm_HostPort m then Some ''host port out of range''
      else if pm_GuestPort m < 1 \<or> 65535 < pm_GuestPort m then Some ''guest port out of range''
      else if pm_Protocol m \<notin> {'''', ''tcp'', ''udp''} then Some ''protocol must be tcp or udp''
      else if hasIngressL7 m \<and> pm_Protocol m = ''udp'' then Some ''require a TCP mapping''
      else if hasIngressL7 m \<and> maxIngressTokenBytes < length (pm_AccessToken m) then Some ''traffic_access_token too long''
      else if hasIngressL7 m \<and> maxIngressHostBytes < length (pm_MaskRequestHost m) then Some ''mask_request_host too long''
      else if hasIngressL7 m \<and> list_ex (\<lambda>c. c \<in> {CHR '' '', CHR 0x09, CHR 0x0D, CHR 0x0A, CHR ''/''}) (pm_MaskRequestHost m)
      then Some ''mask_request_host is not a valid host''
      else if \<not> ParseIP4 v6 (pm_GuestIP m) then Some ''guest ip must be IPv4''
      else None)"

section \<open>Packet filter rules\<close>

text \<open>A command: the table selection, the action and the rule.\<close>

definition cmd :: "string list \<Rightarrow> string \<Rightarrow> string list \<Rightarrow> string list" where
  "cmd tb act rule = ''iptables'' # tb @ act # rule"

definition act_of :: "bool \<Rightarrow> string" where
  "act_of apply = (if apply then ''-A'' else ''-D'')"

definition portMapSpecs :: "PortMapping \<Rightarrow> (string list \<times> string list) list" where
  "portMapSpecs m =
     (let dnat = pm_GuestIP m @ '':'' @ dec_int (pm_GuestPort m);
          proto = (if pm_Protocol m = '''' then ''tcp'' else pm_Protocol m);
          hp = dec_int (pm_HostPort m)
      in [([''-t'', ''nat''], [''PREROUTING'', ''-p'', proto, ''--dport'', hp, ''-j'', ''DNAT'', ''--to-destination'', dnat]),
          ([''-t'', ''nat''], [''OUTPUT'', ''-p'', proto, ''--dport'', hp, ''-j'', ''DNAT'', ''--to-destination'', dnat]),
          ([], [''FORWARD'', ''-d'', pm_GuestIP m @ ''/32'', ''-p'', proto, ''--dport'', dec_int (pm_GuestPort m), ''-j'', ''ACCEPT''])])"

definition portMapRules :: "PortMapping \<Rightarrow> bool \<Rightarrow> string list list" where
  "portMapRules m apply = map (\<lambda>(tb, rule). cmd tb (act_of apply) rule) (portMapSpecs m)"

definition ingressSpecs :: "PortMapping \<Rightarrow> (string list \<times> string list) list" where
  "ingressSpecs m =
     (let acc = [''-d'', pm_GuestIP m @ ''/32'', ''-p'', ''tcp'', ''--dport'', dec_int (pm_GuestPort m), ''-j'', ''ACCEPT'']
      in [([], ''OUTPUT'' # acc), ([], ''FORWARD'' # acc)])"

definition ingressPortMapRules :: "PortMapping \<Rightarrow> bool \<Rightarrow> string list list" where
  "ingressPortMapRules m apply = map (\<lambda>(tb, rule). cmd tb (act_of apply) rule) (ingressSpecs m)"

text \<open>The choice between the two that every operation makes.\<close>

definition rules_for :: "PortMapping \<Rightarrow> bool \<Rightarrow> string list list" where
  "rules_for m apply = (if hasIngressL7 m then ingressPortMapRules m apply else portMapRules m apply)"

section \<open>Running iptables\<close>

definition argvValid :: "string list \<Rightarrow> bool" where
  "argvValid argv \<longleftrightarrow> argv \<noteq> [] \<and> hd argv = ''iptables''"

text \<open>No error, or the exit status that \<^verbatim>\<open>exitCode\<close> recovers from the error.\<close>

definition runIptables :: "(string list \<Rightarrow> 'h \<Rightarrow> int \<times> 'h) \<Rightarrow> string list \<Rightarrow> 'h \<Rightarrow> int option \<times> 'h" where
  "runIptables ipt argv h =
     (if \<not> argvValid argv then (Some (- 1), h)
      else case ipt argv h of (c, h1) \<Rightarrow> (if c = 0 then None else Some c, h1))"

primrec to_check :: "string list \<Rightarrow> string list" where
  "to_check [] = []"
| "to_check (t # ts) = (if t = ''-D'' then ''-C'' # ts else t # to_check ts)"

definition runIptablesDelete :: "(string list \<Rightarrow> 'h \<Rightarrow> int \<times> 'h) \<Rightarrow> string list \<Rightarrow> 'h \<Rightarrow> int option \<times> 'h" where
  "runIptablesDelete ipt del h =
     (if \<not> argvValid del then (Some (- 1), h)
      else case runIptables ipt (to_check del) h of
        (None, h1) \<Rightarrow> runIptables ipt del h1
      | (Some c, h1) \<Rightarrow> if c = 1 then (None, h1) else runIptables ipt del h1)"

text \<open>The loops over rules: apply until one fails, delete until one fails, delete whatever can be.\<close>

primrec apply_rules :: "(string list \<Rightarrow> 'h \<Rightarrow> int \<times> 'h) \<Rightarrow> string list list \<Rightarrow> 'h \<Rightarrow> int option \<times> 'h" where
  "apply_rules ipt [] h = (None, h)"
| "apply_rules ipt (r # rs) h =
     (case runIptables ipt r h of (None, h1) \<Rightarrow> apply_rules ipt rs h1 | (Some c, h1) \<Rightarrow> (Some c, h1))"

primrec delete_rules :: "(string list \<Rightarrow> 'h \<Rightarrow> int \<times> 'h) \<Rightarrow> string list list \<Rightarrow> 'h \<Rightarrow> int option \<times> 'h" where
  "delete_rules ipt [] h = (None, h)"
| "delete_rules ipt (r # rs) h =
     (case runIptablesDelete ipt r h of (None, h1) \<Rightarrow> delete_rules ipt rs h1 | (Some c, h1) \<Rightarrow> (Some c, h1))"

primrec delete_all :: "(string list \<Rightarrow> 'h \<Rightarrow> int \<times> 'h) \<Rightarrow> string list list \<Rightarrow> 'h \<Rightarrow> 'h" where
  "delete_all ipt [] h = h"
| "delete_all ipt (r # rs) h = delete_all ipt rs (snd (runIptablesDelete ipt r h))"

section \<open>The registry\<close>

record 'h pmw =
  pw_mappings :: "(string, PortMapping list) gomap"
  pw_file :: "PortMapping list option"
  pw_ops :: nat
  pw_proxies :: "(string, string) gomap"
  pw_host :: 'h

definition ingressKey :: "string \<Rightarrow> int \<Rightarrow> string" where
  "ingressKey taskID hostPort = taskID @ ''/'' @ dec_int hostPort"

definition all_mappings :: "(string, PortMapping list) gomap \<Rightarrow> PortMapping list" where
  "all_mappings r = concat (map snd r)"

definition mappings_of :: "(string, PortMapping list) gomap \<Rightarrow> string \<Rightarrow> PortMapping list" where
  "mappings_of r t = (case map_of r t of None \<Rightarrow> [] | Some ms \<Rightarrow> ms)"

definition load_mappings :: "PortMapping list \<Rightarrow> (string, PortMapping list) gomap" where
  "load_mappings dump = foldl (\<lambda>r m. AList.update (pm_TaskID m) (mappings_of r (pm_TaskID m) @ [m]) r) [] dump"

text \<open>A new process: the registry is read back, the proxies are gone.\<close>

definition LoadPortMapRegistry :: "'h pmw \<Rightarrow> 'h pmw" where
  "LoadPortMapRegistry w =
     w\<lparr>pw_mappings := (case pw_file w of None \<Rightarrow> [] | Some dump \<Rightarrow> load_mappings dump), pw_proxies := []\<rparr>"

definition save :: "(nat \<Rightarrow> bool) \<Rightarrow> 'h pmw \<Rightarrow> string option \<times> 'h pmw" where
  "save wr w =
     (let w1 = w\<lparr>pw_ops := Suc (pw_ops w)\<rparr> in
      if wr (pw_ops w) then (None, w1\<lparr>pw_file := Some (all_mappings (pw_mappings w))\<rparr>) else (Some ''write'', w1))"

definition startIngressProxy :: "(nat \<Rightarrow> int \<Rightarrow> bool) \<Rightarrow> PortMapping \<Rightarrow> 'h pmw \<Rightarrow> string option \<times> 'h pmw" where
  "startIngressProxy lst m w =
     (let w1 = w\<lparr>pw_ops := Suc (pw_ops w)\<rparr> in
      if \<not> lst (pw_ops w) (pm_HostPort m) then (Some ''ingress listen'', w1)
      else (None, w1\<lparr>pw_proxies := AList.update (ingressKey (pm_TaskID m) (pm_HostPort m)) (pm_TaskID m) (pw_proxies w)\<rparr>))"

definition stopIngressProxy :: "string \<Rightarrow> int \<Rightarrow> 'h pmw \<Rightarrow> 'h pmw" where
  "stopIngressProxy t p w = w\<lparr>pw_proxies := AList.delete (ingressKey t p) (pw_proxies w)\<rparr>"

definition stopTaskIngressProxies :: "string \<Rightarrow> 'h pmw \<Rightarrow> 'h pmw" where
  "stopTaskIngressProxies t w = w\<lparr>pw_proxies := filter (\<lambda>(k, t'). t' \<noteq> t) (pw_proxies w)\<rparr>"

definition port_key :: "PortMapping \<Rightarrow> string \<times> int" where
  "port_key m = (pm_Protocol m, pm_HostPort m)"

definition AddPortMapping ::
  "(string \<Rightarrow> bool) \<Rightarrow> (string list \<Rightarrow> 'h \<Rightarrow> int \<times> 'h) \<Rightarrow> (nat \<Rightarrow> int \<Rightarrow> bool) \<Rightarrow> (nat \<Rightarrow> bool) \<Rightarrow> PortMapping \<Rightarrow> 'h pmw \<Rightarrow>
   string option \<times> 'h pmw" where
  "AddPortMapping v6 ipt lst wr m0 w =
     (let m = (if pm_Protocol m0 = '''' then m0\<lparr>pm_Protocol := ''tcp''\<rparr> else m0) in
      case validatePortMapping v6 m of Some e \<Rightarrow> (Some e, w)
      | None \<Rightarrow>
          if \<exists>ex \<in> set (all_mappings (pw_mappings w)). port_key ex = port_key m then (Some ''already mapped'', w)
          else let rules = rules_for m True in
            (case apply_rules ipt rules (pw_host w) of
               (Some c, h1) \<Rightarrow> (Some ''apply port mapping'', w\<lparr>pw_host := delete_all ipt rules h1\<rparr>)
             | (None, h1) \<Rightarrow>
                 (case (if hasIngressL7 m then startIngressProxy lst m (w\<lparr>pw_host := h1\<rparr>) else (None, w\<lparr>pw_host := h1\<rparr>)) of
                    (Some e, w2) \<Rightarrow> (Some e, w2\<lparr>pw_host := delete_all ipt rules (pw_host w2)\<rparr>)
                  | (None, w2) \<Rightarrow>
                      save wr (w2\<lparr>pw_mappings :=
                        AList.update (pm_TaskID m) (mappings_of (pw_mappings w2) (pm_TaskID m) @ [m]) (pw_mappings w2)\<rparr>))))"

text \<open>Without the first mapping of a protocol and host port.\<close>

primrec drop_port :: "string \<times> int \<Rightarrow> PortMapping list \<Rightarrow> PortMapping list" where
  "drop_port k [] = []"
| "drop_port k (m # ms) = (if port_key m = k then ms else m # drop_port k ms)"

definition DeletePortMapping ::
  "(string list \<Rightarrow> 'h \<Rightarrow> int \<times> 'h) \<Rightarrow> (nat \<Rightarrow> bool) \<Rightarrow> string \<Rightarrow> int \<Rightarrow> string \<Rightarrow> 'h pmw \<Rightarrow> string option \<times> 'h pmw" where
  "DeletePortMapping ipt wr t p proto0 w =
     (let proto = (if proto0 = '''' then ''tcp'' else proto0); ms = mappings_of (pw_mappings w) t in
      case find (\<lambda>ex. port_key ex = (proto, p)) ms of None \<Rightarrow> (Some ''not exist'', w)
      | Some ex \<Rightarrow>
          (case delete_rules ipt (rules_for ex False) (pw_host w) of
             (Some c, h1) \<Rightarrow> (Some ''remove port mapping'', w\<lparr>pw_host := h1\<rparr>)
           | (None, h1) \<Rightarrow>
               let w1 = w\<lparr>pw_host := h1\<rparr>;
                   w2 = (if hasIngressL7 ex then stopIngressProxy t p w1 else w1);
                   ms1 = drop_port (proto, p) ms
               in save wr (w2\<lparr>pw_mappings :=
                    (if ms1 = [] then AList.delete t (pw_mappings w) else AList.update t ms1 (pw_mappings w))\<rparr>)))"

definition CleanupTaskPortMappings ::
  "(string list \<Rightarrow> 'h \<Rightarrow> int \<times> 'h) \<Rightarrow> (nat \<Rightarrow> bool) \<Rightarrow> string \<Rightarrow> 'h pmw \<Rightarrow> string option \<times> 'h pmw" where
  "CleanupTaskPortMappings ipt wr t w =
     (let ms = mappings_of (pw_mappings w) t in
      if ms = [] then (None, w)
      else let w1 = w\<lparr>pw_host := foldl (\<lambda>h m. delete_all ipt (rules_for m False) h) (pw_host w) ms\<rparr>
           in save wr ((stopTaskIngressProxies t w1)\<lparr>pw_mappings := AList.delete t (pw_mappings w)\<rparr>))"


section \<open>Every host port is published once\<close>

definition reg_ok :: "(string \<Rightarrow> bool) \<Rightarrow> (string, PortMapping list) gomap \<Rightarrow> bool" where
  "reg_ok v6 r \<longleftrightarrow> gomap_ok r \<and> distinct (map port_key (all_mappings r)) \<and>
     (\<forall>t ms. map_of r t = Some ms \<longrightarrow> ms \<noteq> [] \<and>
        (\<forall>m \<in> set ms. pm_TaskID m = t \<and> validatePortMapping v6 m = None \<and> pm_Protocol m \<noteq> ''''))"

lemma mset_update:
  assumes "gomap_ok r"
  shows "mset (all_mappings (AList.update t ms r)) + mset (mappings_of r t) = mset (all_mappings r) + mset ms"
  using assms by (induction r) (auto simp: all_mappings_def mappings_of_def gomap_ok_def)

lemma mset_delete:
  assumes "gomap_ok r"
  shows "mset (all_mappings (AList.delete t r)) + mset (mappings_of r t) = mset (all_mappings r)"
  using assms
proof (induction r)
  case (Cons x r)
  obtain k ms where x: "x = (k, ms)" by (cases x)
  show ?case
  proof (cases "k = t")
    case True
    then have "t \<notin> fst ` set r" using Cons.prems x by (simp add: gomap_ok_def)
    then have "AList.delete t r = r" "map_of r t = None" by (auto simp: delete_id map_of_eq_None_iff)
    then show ?thesis using x True by (simp add: all_mappings_def mappings_of_def)
  next
    case False
    then show ?thesis using Cons x by (simp add: all_mappings_def mappings_of_def gomap_ok_def)
  qed
qed (simp add: all_mappings_def mappings_of_def)

lemma distinct_port: "mset xs = mset ys \<Longrightarrow> distinct (map port_key xs) = distinct (map port_key ys)"
  by (rule mset_eq_imp_distinct_iff) (simp add: mset_map)

lemma set_all: "gomap_ok r \<Longrightarrow> m \<in> set (all_mappings r) \<longleftrightarrow> (\<exists>t ms. map_of r t = Some ms \<and> m \<in> set ms)"
  by (force simp: all_mappings_def gomap_ok_mem [symmetric])

lemma find_drop: "find (\<lambda>ex. port_key ex = k) ms = Some ex \<Longrightarrow> mset (drop_port k ms) + {#ex#} = mset ms \<and> port_key ex = k"
  by (induction ms) (auto split: if_splits)

lemma drop_port_sub: "set (drop_port k ms) \<subseteq> set ms"
  by (induction ms) auto

lemma reg_ok_add:
  assumes "reg_ok v6 r" "\<not> (\<exists>ex \<in> set (all_mappings r). port_key ex = port_key m)" "validatePortMapping v6 m = None" "pm_Protocol m \<noteq> ''''"
  shows "reg_ok v6 (AList.update (pm_TaskID m) (mappings_of r (pm_TaskID m) @ [m]) r)" (is "reg_ok v6 ?r")
proof -
  let ?ms = "mappings_of r (pm_TaskID m)"
  have g: "gomap_ok r" using assms(1) by (simp add: reg_ok_def)
  have ms: "mset (all_mappings ?r) = mset (m # all_mappings r)" using mset_update [OF g, of "pm_TaskID m" "?ms @ [m]"] by simp
  have "distinct (map port_key (m # all_mappings r))" using assms(1,2) by (auto simp: reg_ok_def)
  then have "distinct (map port_key (all_mappings ?r))" unfolding distinct_port [OF ms] .
  then show ?thesis using assms g
    by (auto simp: reg_ok_def gomap_simps mappings_of_def split: if_splits option.splits)
qed

lemma reg_ok_delete:
  assumes "reg_ok v6 r"
  shows "reg_ok v6 (AList.delete t r)"
proof -
  have g: "gomap_ok r" using assms by (simp add: reg_ok_def)
  have "mset (all_mappings r) = mset (all_mappings (AList.delete t r) @ mappings_of r t)" using mset_delete [OF g, of t] by simp
  from distinct_port [OF this] have "distinct (map port_key (all_mappings (AList.delete t r) @ mappings_of r t))"
    using assms by (simp add: reg_ok_def)
  then show ?thesis using assms g by (auto simp: reg_ok_def gomap_simps split: if_splits)
qed

lemma reg_ok_drop:
  assumes "reg_ok v6 r" "find (\<lambda>ex. port_key ex = k) (mappings_of r t) = Some ex" "drop_port k (mappings_of r t) \<noteq> []"
  shows "reg_ok v6 (AList.update t (drop_port k (mappings_of r t)) r)" (is "reg_ok v6 ?r")
proof -
  let ?ms = "mappings_of r t"
  have g: "gomap_ok r" using assms(1) by (simp add: reg_ok_def)
  have "mset (all_mappings ?r) + mset ?ms = mset (all_mappings r) + mset (drop_port k ?ms)" by (rule mset_update [OF g])
  moreover have "mset ?ms = mset (drop_port k ?ms) + {#ex#}" using find_drop [OF assms(2)] by simp
  ultimately have "mset (ex # all_mappings ?r) = mset (all_mappings r)" by simp
  from distinct_port [OF this] have "distinct (map port_key (ex # all_mappings ?r))" using assms(1) by (simp add: reg_ok_def)
  moreover have "\<exists>ms. map_of r t = Some ms" using assms(2) by (auto simp: mappings_of_def split: option.splits)
  ultimately show ?thesis using assms g drop_port_sub [of k ?ms]
    by (auto simp: reg_ok_def gomap_simps mappings_of_def split: if_splits)
qed

text \<open>A registry read back from what it was written as.\<close>

definition dump_ok :: "(string \<Rightarrow> bool) \<Rightarrow> PortMapping list \<Rightarrow> bool" where
  "dump_ok v6 dump \<longleftrightarrow> distinct (map port_key dump) \<and> (\<forall>m \<in> set dump. validatePortMapping v6 m = None \<and> pm_Protocol m \<noteq> '''')"

lemma reg_ok_dump: "reg_ok v6 r \<Longrightarrow> dump_ok v6 (all_mappings r)"
  by (auto simp: reg_ok_def dump_ok_def set_all)

lemma load_mappings_snoc:
  "load_mappings (dump @ [m]) = AList.update (pm_TaskID m) (mappings_of (load_mappings dump) (pm_TaskID m) @ [m]) (load_mappings dump)"
  by (simp add: load_mappings_def)

lemma load_mappings_ok:
  assumes "dump_ok v6 dump"
  shows "reg_ok v6 (load_mappings dump) \<and> mset (all_mappings (load_mappings dump)) = mset dump"
  using assms
proof (induction dump rule: rev_induct)
  case Nil
  then show ?case by (simp add: load_mappings_def reg_ok_def all_mappings_def)
next
  case (snoc m dump)
  have d: "dump_ok v6 dump" "validatePortMapping v6 m = None" "pm_Protocol m \<noteq> ''''" "port_key m \<notin> port_key ` set dump"
    using snoc.prems by (auto simp: dump_ok_def)
  note ih = snoc.IH [OF d(1)]
  then have "set (all_mappings (load_mappings dump)) = set dump" by (metis set_mset_mset)
  then have "\<not> (\<exists>ex \<in> set (all_mappings (load_mappings dump)). port_key ex = port_key m)" using d(4) by (metis imageI)
  moreover have "gomap_ok (load_mappings dump)" using ih by (simp add: reg_ok_def)
  ultimately show ?case unfolding load_mappings_snoc
    using reg_ok_add [of v6 "load_mappings dump" m] ih d(2,3)
      mset_update [of "load_mappings dump" "pm_TaskID m" "mappings_of (load_mappings dump) (pm_TaskID m) @ [m]"] by simp
qed

definition pm_ok :: "(string \<Rightarrow> bool) \<Rightarrow> 'h pmw \<Rightarrow> bool" where
  "pm_ok v6 w \<longleftrightarrow> reg_ok v6 (pw_mappings w) \<and> (\<forall>dump. pw_file w = Some dump \<longrightarrow> dump_ok v6 dump)"

lemma save_ok: "pm_ok v6 w \<Longrightarrow> save wr w = (e, w1) \<Longrightarrow> pm_ok v6 w1"
  by (auto simp: save_def pm_ok_def reg_ok_dump Let_def split: if_splits)

lemma pm_ok_host [simp]: "pm_ok v6 (w\<lparr>pw_host := h\<rparr>) = pm_ok v6 w" "pm_ok v6 (w\<lparr>pw_ops := n\<rparr>) = pm_ok v6 w"
  "pm_ok v6 (w\<lparr>pw_proxies := p\<rparr>) = pm_ok v6 w"
  by (simp_all add: pm_ok_def)

text \<open>What callers do, a restart of the process included.\<close>

datatype pm_op = PAdd PortMapping | PDelete string int string | PCleanup string | PRestart

primrec pm_step ::
  "(string \<Rightarrow> bool) \<Rightarrow> (string list \<Rightarrow> 'h \<Rightarrow> int \<times> 'h) \<Rightarrow> (nat \<Rightarrow> int \<Rightarrow> bool) \<Rightarrow> (nat \<Rightarrow> bool) \<Rightarrow> pm_op \<Rightarrow> 'h pmw \<Rightarrow> 'h pmw" where
  "pm_step v6 ipt lst wr (PAdd m) w = snd (AddPortMapping v6 ipt lst wr m w)"
| "pm_step v6 ipt lst wr (PDelete t p proto) w = snd (DeletePortMapping ipt wr t p proto w)"
| "pm_step v6 ipt lst wr (PCleanup t) w = snd (CleanupTaskPortMappings ipt wr t w)"
| "pm_step v6 ipt lst wr PRestart w = LoadPortMapRegistry w"

definition norm_proto :: "PortMapping \<Rightarrow> PortMapping" where
  "norm_proto m = (if pm_Protocol m = '''' then m\<lparr>pm_Protocol := ''tcp''\<rparr> else m)"

lemma Add_cases:
  assumes "AddPortMapping v6 ipt lst wr m0 w = (e, w1)"
  obtains (kept) "e \<noteq> None" "pw_mappings w1 = pw_mappings w" "pw_file w1 = pw_file w"
  | (added) w2 where "validatePortMapping v6 (norm_proto m0) = None"
      "\<not> (\<exists>ex \<in> set (all_mappings (pw_mappings w)). port_key ex = port_key (norm_proto m0))"
      "apply_rules ipt (rules_for (norm_proto m0) True) (pw_host w) = (None, pw_host w2)"
      "pw_mappings w2 = AList.update (pm_TaskID (norm_proto m0)) (mappings_of (pw_mappings w) (pm_TaskID (norm_proto m0)) @ [norm_proto m0]) (pw_mappings w)"
      "pw_file w2 = pw_file w" "save wr w2 = (e, w1)"
proof -
  let ?m = "norm_proto m0"
  note run = assms [unfolded AddPortMapping_def norm_proto_def [symmetric] Let_def]
  show thesis
  proof (cases "validatePortMapping v6 ?m = None \<and> \<not> (\<exists>ex \<in> set (all_mappings (pw_mappings w)). port_key ex = port_key ?m)")
    case False
    have "e \<noteq> None \<and> w1 = w"
    proof (cases "validatePortMapping v6 ?m")
      case (Some x)
      have "(Some x, w) = (e, w1)" using run unfolding Some by simp
      then show ?thesis by auto
    qed (use run False in auto)
    then show thesis by (intro kept) simp_all
  next
    case True
    obtain c h1 where a: "apply_rules ipt (rules_for ?m True) (pw_host w) = (c, h1)" by (metis surj_pair)
    show thesis
    proof (cases c)
      case (Some c)
      then have "e \<noteq> None \<and> pw_mappings w1 = pw_mappings w \<and> pw_file w1 = pw_file w" using run True a by auto
      then show thesis by (intro kept) simp_all
    next
      case None
      define p where "p = (if hasIngressL7 ?m then startIngressProxy lst ?m (w\<lparr>pw_host := h1\<rparr>) else (None, w\<lparr>pw_host := h1\<rparr>))"
      obtain pe w2 where p2: "p = (pe, w2)" by (cases p)
      have w2: "pw_mappings w2 = pw_mappings w" "pw_file w2 = pw_file w" "pw_host w2 = h1"
        using p2 by (auto simp: p_def startIngressProxy_def Let_def split: if_splits)
      let ?w3 = "w2\<lparr>pw_mappings := AList.update (pm_TaskID ?m) (mappings_of (pw_mappings w2) (pm_TaskID ?m) @ [?m]) (pw_mappings w2)\<rparr>"
      have r: "(case pe of Some e \<Rightarrow> (Some e, w2\<lparr>pw_host := delete_all ipt (rules_for ?m True) (pw_host w2)\<rparr>) | None \<Rightarrow> save wr ?w3) = (e, w1)"
        using run True a None p2 unfolding p_def by (simp split: option.splits)
      show thesis
      proof (cases pe)
        case (Some x)
        then have "e \<noteq> None \<and> pw_mappings w1 = pw_mappings w2 \<and> pw_file w1 = pw_file w2" using r by auto
        then show thesis using w2 by (intro kept) simp_all
      next
        case None
        then show thesis using r True a \<open>c = None\<close> w2 by (intro added [of ?w3]) simp_all
      qed
    qed
  qed
qed

lemma Add_ok:
  assumes "pm_ok v6 w"
  shows "pm_ok v6 (snd (AddPortMapping v6 ipt lst wr m0 w))"
proof -
  obtain e w1 where a: "AddPortMapping v6 ipt lst wr m0 w = (e, w1)" by (metis surj_pair)
  from a show ?thesis
  proof (cases rule: Add_cases)
    case kept
    then show ?thesis using assms a by (simp add: pm_ok_def)
  next
    case (added w2)
    have "pm_Protocol (norm_proto m0) \<noteq> ''''" by (simp add: norm_proto_def)
    then have "pm_ok v6 w2" using assms added reg_ok_add [of v6 "pw_mappings w" "norm_proto m0"] by (simp add: pm_ok_def)
    then show ?thesis using save_ok added(6) a by simp
  qed
qed

lemma Delete_ok:
  assumes "pm_ok v6 w"
  shows "pm_ok v6 (snd (DeletePortMapping ipt wr t p proto w))"
proof -
  define k where "k = (if proto = '''' then ''tcp'' else proto, p)"
  let ?ms = "mappings_of (pw_mappings w) t"
  let ?r = "if drop_port k ?ms = [] then AList.delete t (pw_mappings w) else AList.update t (drop_port k ?ms) (pw_mappings w)"
  have r: "reg_ok v6 ?r" if "find (\<lambda>ex. port_key ex = k) ?ms = Some ex" for ex
    using that assms reg_ok_delete reg_ok_drop by (auto simp: pm_ok_def)
  obtain e w1 where d: "DeletePortMapping ipt wr t p proto w = (e, w1)" by (metis surj_pair)
  have "pw_mappings w1 = pw_mappings w \<and> pw_file w1 = pw_file w \<or>
      (\<exists>ex w2. find (\<lambda>ex. port_key ex = k) ?ms = Some ex \<and> pw_mappings w2 = ?r \<and> pw_file w2 = pw_file w \<and> save wr w2 = (e, w1))"
    using d unfolding DeletePortMapping_def k_def Let_def
    by (fastforce simp: stopIngressProxy_def split: option.splits prod.splits)
  then show ?thesis
  proof
    assume "\<exists>ex w2. find (\<lambda>ex. port_key ex = k) ?ms = Some ex \<and> pw_mappings w2 = ?r \<and> pw_file w2 = pw_file w \<and> save wr w2 = (e, w1)"
    then obtain ex w2 where "find (\<lambda>ex. port_key ex = k) ?ms = Some ex" "pw_mappings w2 = ?r" "pw_file w2 = pw_file w" "save wr w2 = (e, w1)"
      by blast
    then show ?thesis using r assms save_ok [of v6 w2] d by (simp add: pm_ok_def)
  qed (use assms d in \<open>simp add: pm_ok_def\<close>)
qed

lemma pm_step_ok: "pm_ok v6 w \<Longrightarrow> pm_ok v6 (pm_step v6 ipt lst wr x w)"
proof (cases x)
  case (PCleanup t)
  assume a: "pm_ok v6 w"
  obtain e w1 where c: "CleanupTaskPortMappings ipt wr t w = (e, w1)" by (metis surj_pair)
  then have "w1 = w \<or> (\<exists>w2. pw_mappings w2 = AList.delete t (pw_mappings w) \<and> pw_file w2 = pw_file w \<and> save wr w2 = (e, w1))"
    by (fastforce simp: CleanupTaskPortMappings_def stopTaskIngressProxies_def Let_def split: if_splits)
  then have "pm_ok v6 w1"
  proof
    assume "\<exists>w2. pw_mappings w2 = AList.delete t (pw_mappings w) \<and> pw_file w2 = pw_file w \<and> save wr w2 = (e, w1)"
    then obtain w2 where w2: "pw_mappings w2 = AList.delete t (pw_mappings w)" "pw_file w2 = pw_file w" "save wr w2 = (e, w1)" by blast
    have "pm_ok v6 w2" using a w2(1,2) reg_ok_delete by (simp add: pm_ok_def)
    then show ?thesis using w2(3) by (rule save_ok)
  qed (use a in simp)
  then show ?thesis using c PCleanup by simp
next
  case PRestart
  assume a: "pm_ok v6 w"
  have "reg_ok v6 []" by (simp add: reg_ok_def all_mappings_def)
  then have "reg_ok v6 (case pw_file w of None \<Rightarrow> [] | Some dump \<Rightarrow> load_mappings dump)"
    using a load_mappings_ok by (auto simp: pm_ok_def split: option.split)
  then show ?thesis using PRestart a by (simp add: pm_ok_def LoadPortMapRegistry_def)
qed (simp_all add: Add_ok Delete_ok)

lemma pm_run_ok: "pm_ok v6 w \<Longrightarrow> pm_ok v6 (fold (pm_step v6 ipt lst wr) xs w)"
  by (induction xs arbitrary: w) (simp_all add: pm_step_ok)


section \<open>The rules on the host\<close>

text \<open>
  What \<^verbatim>\<open>iptables\<close> is documented to do with the rules of the host: an append adds the rule at the end, a check
  changes nothing and exits with 1 only if there is no such rule, with 0 only if there is one, a deletion
  removes the first such rule, and a failing command changes nothing.
\<close>

definition ipt_ok :: "(string list \<Rightarrow> 'h \<Rightarrow> int \<times> 'h) \<Rightarrow> ('h \<Rightarrow> (string list \<times> string list) list) \<Rightarrow> bool" where
  "ipt_ok ipt rules \<longleftrightarrow>
     (\<forall>tb rule h c h1. tb = [] \<or> tb = [''-t'', ''nat''] \<longrightarrow>
        (ipt (cmd tb ''-A'' rule) h = (c, h1) \<longrightarrow> rules h1 = (if c = 0 then rules h @ [(tb, rule)] else rules h)) \<and>
        (ipt (cmd tb ''-C'' rule) h = (c, h1) \<longrightarrow>
           rules h1 = rules h \<and> (c = 0 \<longrightarrow> (tb, rule) \<in> set (rules h)) \<and> (c = 1 \<longrightarrow> (tb, rule) \<notin> set (rules h))) \<and>
        (ipt (cmd tb ''-D'' rule) h = (c, h1) \<longrightarrow> rules h1 = (if c = 0 then remove1 (tb, rule) (rules h) else rules h)))"

definition specs_for :: "PortMapping \<Rightarrow> (string list \<times> string list) list" where
  "specs_for m = (if hasIngressL7 m then ingressSpecs m else portMapSpecs m)"

definition to_cmd :: "string \<Rightarrow> string list \<times> string list \<Rightarrow> string list" where
  "to_cmd act sp = cmd (fst sp) act (snd sp)"

lemma rules_for_specs: "rules_for m a = map (to_cmd (act_of a)) (specs_for m)"
  by (simp add: rules_for_def specs_for_def portMapRules_def ingressPortMapRules_def to_cmd_def case_prod_beta)

definition plain_spec :: "string list \<times> string list \<Rightarrow> bool" where
  "plain_spec sp \<longleftrightarrow> (fst sp = [] \<or> fst sp = [''-t'', ''nat'']) \<and> ''-D'' \<notin> set (snd sp)"

lemma to_check_skip: "''-D'' \<notin> set ts \<Longrightarrow> to_check ts = ts"
  by (induction ts) auto

lemma argv_cmd [simp]: "argvValid (to_cmd act sp)"
  by (simp add: argvValid_def to_cmd_def cmd_def)

lemma to_check_cmd:
  assumes "plain_spec sp"
  shows "to_check (to_cmd ''-D'' sp) = to_cmd ''-C'' sp" "to_check (to_cmd ''-A'' sp) = to_cmd ''-A'' sp"
  using assms by (auto simp: plain_spec_def to_cmd_def cmd_def to_check_skip)

lemma dec_port: "1 \<le> p \<Longrightarrow> list_all is_digit (dec_int p)"
  by (simp add: dec_int_def dec_nat_digits)

lemma not_D: "list_all is_digit s \<Longrightarrow> s \<noteq> ''-D''" "CHR '':'' \<in> set s \<Longrightarrow> s \<noteq> ''-D''" "CHR ''/'' \<in> set s \<Longrightarrow> s \<noteq> ''-D''"
  by (auto simp: is_digit_def)

lemma specs_plain:
  assumes "validatePortMapping v6 m = None" "sp \<in> set (specs_for m)"
  shows "plain_spec sp"
proof -
  have v: "1 \<le> pm_HostPort m" "1 \<le> pm_GuestPort m" "pm_Protocol m \<in> {'''', ''tcp'', ''udp''}"
    using assms(1) by (auto simp: validatePortMapping_def split: if_splits)
  have "dec_int (pm_HostPort m) \<noteq> ''-D''" "dec_int (pm_GuestPort m) \<noteq> ''-D''" using not_D(1) [OF dec_port] v by simp_all
  moreover have "pm_GuestIP m @ '':'' @ dec_int (pm_GuestPort m) \<noteq> ''-D''" "pm_GuestIP m @ ''/32'' \<noteq> ''-D''"
    by (rule not_D(2), simp, rule not_D(3), simp)
  ultimately show ?thesis using assms(2) v(3)
    by (auto simp: plain_spec_def specs_for_def portMapSpecs_def ingressSpecs_def Let_def split: if_splits)
qed

text \<open>One command.\<close>

lemma ipt_okD:
  assumes "ipt_ok ipt rules" "plain_spec sp"
  shows "ipt (to_cmd ''-A'' sp) h = (c, h1) \<Longrightarrow> rules h1 = (if c = 0 then rules h @ [sp] else rules h)"
    "ipt (to_cmd ''-C'' sp) h = (c, h1) \<Longrightarrow> rules h1 = rules h \<and> (c = 1 \<longrightarrow> sp \<notin> set (rules h))"
    "ipt (to_cmd ''-D'' sp) h = (c, h1) \<Longrightarrow> rules h1 = (if c = 0 then remove1 sp (rules h) else rules h)"
proof -
  obtain tb rule where sp: "sp = (tb, rule)" by (cases sp)
  have "tb = [] \<or> tb = [''-t'', ''nat'']" using assms(2) sp by (simp add: plain_spec_def)
  note i = assms(1) [unfolded ipt_ok_def, rule_format, OF this]
  show "ipt (to_cmd ''-A'' sp) h = (c, h1) \<Longrightarrow> rules h1 = (if c = 0 then rules h @ [sp] else rules h)"
    using i [of rule h c h1] by (simp add: sp to_cmd_def)
  show "ipt (to_cmd ''-C'' sp) h = (c, h1) \<Longrightarrow> rules h1 = rules h \<and> (c = 1 \<longrightarrow> sp \<notin> set (rules h))"
    using i [of rule h c h1] by (simp add: sp to_cmd_def)
  show "ipt (to_cmd ''-D'' sp) h = (c, h1) \<Longrightarrow> rules h1 = (if c = 0 then remove1 sp (rules h) else rules h)"
    using i [of rule h c h1] by (simp add: sp to_cmd_def)
qed

lemma run_A:
  assumes "ipt_ok ipt rules" "plain_spec sp" "runIptables ipt (to_cmd ''-A'' sp) h = (r, h1)"
  shows "rules h1 = (if r = None then rules h @ [sp] else rules h)"
proof -
  obtain c h2 where i: "ipt (to_cmd ''-A'' sp) h = (c, h2)" by (metis surj_pair)
  have "rules h2 = (if c = 0 then rules h @ [sp] else rules h)"
    by (rule ipt_okD(1) [OF assms(1,2) i])
  then show ?thesis using assms(3) i by (auto simp: runIptables_def)
qed

lemma run_delete:
  assumes "ipt_ok ipt rules" "plain_spec sp" "runIptablesDelete ipt (to_cmd ''-D'' sp) h = (None, h1)"
  shows "mset (rules h1) = mset (rules h) - {#sp#}"
proof -
  obtain c h2 where i: "ipt (to_cmd ''-C'' sp) h = (c, h2)" by (metis surj_pair)
  have k: "rules h2 = rules h" "c = 1 \<longrightarrow> sp \<notin> set (rules h)"
    using ipt_okD(2) [OF assms(1,2) i] by blast+
  obtain d h3 where j: "ipt (to_cmd ''-D'' sp) h2 = (d, h3)" by (metis surj_pair)
  have l: "rules h3 = (if d = 0 then remove1 sp (rules h2) else rules h2)"
    by (rule ipt_okD(3) [OF assms(1,2) j])
  have "c = 1 \<and> h1 = h2 \<or> c \<noteq> 1 \<and> d = 0 \<and> h1 = h3"
    using assms(3) i j by (auto simp: runIptablesDelete_def runIptables_def to_check_cmd [OF assms(2)] split: if_splits)
  then show ?thesis using k l by (auto simp: diff_single_trivial)
qed

text \<open>A deletion whose command is an append: the check is an append, too.\<close>

lemma run_undo:
  assumes "ipt_ok ipt rules" "plain_spec sp"
  shows "\<exists>extra. rules (snd (runIptablesDelete ipt (to_cmd ''-A'' sp) h)) = rules h @ extra"
proof -
  have a: "\<exists>extra. rules (snd (runIptables ipt (to_cmd ''-A'' sp) h)) = rules h @ extra" for h
  proof -
    obtain r h1 where "runIptables ipt (to_cmd ''-A'' sp) h = (r, h1)" by (metis surj_pair)
    then show ?thesis using run_A [OF assms] by (cases r) auto
  qed
  obtain r h1 where r: "runIptables ipt (to_cmd ''-A'' sp) h = (r, h1)" by (metis surj_pair)
  obtain x where x: "rules h1 = rules h @ x" using a [of h] r by auto
  obtain y where y: "rules (snd (runIptables ipt (to_cmd ''-A'' sp) h1)) = rules h1 @ y" using a by blast
  have "snd (runIptablesDelete ipt (to_cmd ''-A'' sp) h) \<in> {h1, snd (runIptables ipt (to_cmd ''-A'' sp) h1)}"
    using r by (auto simp: runIptablesDelete_def to_check_cmd [OF assms(2)] split: option.splits)
  then show ?thesis using x y by auto
qed

text \<open>The loops.\<close>

lemma apply_specs:
  assumes "ipt_ok ipt rules" "\<forall>sp \<in> set sps. plain_spec sp" "apply_rules ipt (map (to_cmd ''-A'') sps) h = (r, h1)"
  shows "(r = None \<longrightarrow> rules h1 = rules h @ sps) \<and>
    (\<forall>k h2. apply_rules ipt (map (to_cmd ''-A'') (take k sps)) h = (None, h2) \<longrightarrow> (\<exists>extra. rules h1 = rules h @ take k sps @ extra))"
  using assms(2,3)
proof (induction sps arbitrary: h)
  case (Cons sp sps)
  obtain q h2 where q: "runIptables ipt (to_cmd ''-A'' sp) h = (q, h2)" by (metis surj_pair)
  have sp: "rules h2 = (if q = None then rules h @ [sp] else rules h)" using run_A [OF assms(1) _ q] Cons.prems(1) by simp
  show ?case
  proof (cases q)
    case None
    then have run: "apply_rules ipt (map (to_cmd ''-A'') sps) h2 = (r, h1)" using Cons.prems(2) q by simp
    have "\<forall>sp \<in> set sps. plain_spec sp" using Cons.prems(1) by simp
    note ih = Cons.IH [OF this run]
    then obtain x where x: "rules h1 = rules h2 @ x" using ih [THEN conjunct2, rule_format, of 0 h2] by auto
    have "\<exists>extra. rules h1 = rules h @ take k (sp # sps) @ extra"
      if "apply_rules ipt (map (to_cmd ''-A'') (take k (sp # sps))) h = (None, h3)" for k h3
      using that ih x sp q None by (cases k) auto
    moreover have "r = None \<longrightarrow> rules h1 = rules h @ sp # sps" using ih Cons.prems(1) sp None by simp
    ultimately show ?thesis by blast
  next
    case (Some c)
    have "\<exists>extra. rules h1 = rules h @ take k (sp # sps) @ extra"
      if "apply_rules ipt (map (to_cmd ''-A'') (take k (sp # sps))) h = (None, h3)" for k h3
      using that Cons.prems(2) sp q Some by (cases k) auto
    moreover have "r \<noteq> None" using Cons.prems(2) q Some by auto
    ultimately show ?thesis by blast
  qed
qed auto

lemma delete_specs:
  assumes "ipt_ok ipt rules" "\<forall>sp \<in> set sps. plain_spec sp" "delete_rules ipt (map (to_cmd ''-D'') sps) h = (None, h1)"
  shows "mset (rules h1) = mset (rules h) - mset sps"
  using assms(2,3)
proof (induction sps arbitrary: h)
  case (Cons sp sps)
  obtain q h2 where q: "runIptablesDelete ipt (to_cmd ''-D'' sp) h = (q, h2)" by (metis surj_pair)
  then have n: "q = None" and run: "delete_rules ipt (map (to_cmd ''-D'') sps) h2 = (None, h1)"
    using Cons.prems(2) by (auto split: option.splits)
  have "mset (rules h2) = mset (rules h) - {#sp#}" using run_delete [OF assms(1)] q n Cons.prems(1) by simp
  then show ?case using Cons.IH [OF _ run] Cons.prems(1) by simp
qed simp

lemma undo_specs:
  assumes "ipt_ok ipt rules" "\<forall>sp \<in> set sps. plain_spec sp"
  shows "\<exists>extra. rules (delete_all ipt (map (to_cmd ''-A'') sps) h) = rules h @ extra"
  using assms(2)
proof (induction sps arbitrary: h)
  case (Cons sp sps)
  obtain x where x: "rules (snd (runIptablesDelete ipt (to_cmd ''-A'' sp) h)) = rules h @ x"
    using run_undo [OF assms(1)] Cons.prems by (metis list.set_intros(1))
  from Cons.IH [of "snd (runIptablesDelete ipt (to_cmd ''-A'' sp) h)"] x Cons.prems show ?case by auto
qed simp


section \<open>Properties\<close>

text \<open>
  C16: No host port is published twice. Whatever tasks add, delete and clean up, with restarts in between and
  with \<^verbatim>\<open>iptables\<close>, listeners and writes of the registry failing at any point, no two recorded mappings have
  the same protocol and host port, every recorded mapping is valid and is filed under its own task.
\<close>

theorem portmap_unique:
  assumes "pw_mappings w = []" "pw_file w = None" "r = pw_mappings (fold (pm_step v6 ipt lst wr) xs w)"
  shows "distinct (map port_key (all_mappings r)) \<and>
    (\<forall>t. \<forall>m \<in> set (mappings_of r t). pm_TaskID m = t \<and> validatePortMapping v6 m = None)"
proof -
  have "pm_ok v6 w" using assms(1,2) by (simp add: pm_ok_def reg_ok_def all_mappings_def)
  from pm_run_ok [OF this, of ipt lst wr xs] have "reg_ok v6 r" unfolding assms(3) pm_ok_def by blast
  then have u: "distinct (map port_key (all_mappings r))"
    and e: "map_of r t = Some ms \<Longrightarrow> m \<in> set ms \<Longrightarrow> pm_TaskID m = t \<and> validatePortMapping v6 m = None" for t ms m
    unfolding reg_ok_def by blast+
  have "pm_TaskID m = t \<and> validatePortMapping v6 m = None" if "m \<in> set (mappings_of r t)" for t m
    using that by (cases "map_of r t") (simp_all add: mappings_of_def e)
  then show ?thesis using u by blast
qed

text \<open>A host that keeps its rules in a list and refuses to append some of them.\<close>

definition ipt_list ::
  "(string list \<times> string list \<Rightarrow> bool) \<Rightarrow> string list \<Rightarrow> (string list \<times> string list) list \<Rightarrow> int \<times> (string list \<times> string list) list" where
  "ipt_list refuse argv h =
     (let args = tl argv;
          nat_table = (take 2 args = [''-t'', ''nat'']);
          tb = (if nat_table then [''-t'', ''nat''] else []);
          rest = (if nat_table then drop 2 args else args);
          act = hd rest; sp = (tb, tl rest)
      in if act = ''-A'' then (if refuse sp then (2, h) else (0, h @ [sp]))
         else if act = ''-C'' then (if sp \<in> set h then 0 else 1, h)
         else if act = ''-D'' then (if sp \<in> set h then (0, remove1 sp h) else (1, h))
         else (2, h))"

lemma ipt_list_cmd:
  assumes "tb = [] \<or> tb = [''-t'', ''nat'']" "act \<noteq> ''-t''"
  shows "ipt_list refuse (cmd tb act rule) h =
    (if act = ''-A'' then (if refuse (tb, rule) then (2, h) else (0, h @ [(tb, rule)]))
     else if act = ''-C'' then (if (tb, rule) \<in> set h then 0 else 1, h)
     else if act = ''-D'' then (if (tb, rule) \<in> set h then (0, remove1 (tb, rule) h) else (1, h)) else (2, h))"
  using assms(1)
proof
  assume tb: "tb = []"
  show ?thesis unfolding tb ipt_list_def cmd_def Let_def by (simp add: assms(2))
next
  assume tb: "tb = [''-t'', ''nat'']"
  show ?thesis unfolding tb ipt_list_def cmd_def Let_def by simp
qed

lemma ipt_list_ok: "ipt_ok (ipt_list refuse) (\<lambda>h. h)"
  unfolding ipt_ok_def
proof (intro allI impI)
  fix tb rule h c h1 assume tb: "tb = [] \<or> tb = [''-t'', ''nat'']"

  show "(ipt_list refuse (cmd tb ''-A'' rule) h = (c, h1) \<longrightarrow> h1 = (if c = 0 then h @ [(tb, rule)] else h)) \<and>
      (ipt_list refuse (cmd tb ''-C'' rule) h = (c, h1) \<longrightarrow> h1 = h \<and> (c = 0 \<longrightarrow> (tb, rule) \<in> set h) \<and> (c = 1 \<longrightarrow> (tb, rule) \<notin> set h)) \<and>
      (ipt_list refuse (cmd tb ''-D'' rule) h = (c, h1) \<longrightarrow> h1 = (if c = 0 then remove1 (tb, rule) h else h))"
    by (simp add: ipt_list_cmd [OF tb] split: if_split) auto
qed

definition demo_map :: PortMapping where
  "demo_map = \<lparr>pm_TaskID = ''t'', pm_HostPort = 8080, pm_GuestPort = 80, pm_GuestIP = ''10.0.0.2'', pm_Protocol = ''tcp'',
     pm_AccessToken = '''', pm_MaskRequestHost = ''''\<rparr>"

definition demo_pmw :: "(string list \<times> string list) list pmw" where
  "demo_pmw = \<lparr>pw_mappings = [], pw_file = None, pw_ops = 0, pw_proxies = [], pw_host = []\<rparr>"

lemma demo_map_facts:
  "validatePortMapping v6 demo_map = None" "norm_proto demo_map = demo_map" "\<not> hasIngressL7 demo_map" "pm_TaskID demo_map = ''t''"
  "port_key demo_map = (''tcp'', 8080)"
  by (simp_all add: demo_map_def validatePortMapping_def hasIngressL7_def ParseIP4_def dotted_quad_def octet_def is_digit_def
      digit_val_def norm_proto_def port_key_def)

theorem portmap_unique_witness:
  "distinct (map port_key (all_mappings (pw_mappings (fold (pm_step (\<lambda>s. False) (ipt_list (\<lambda>sp. False)) (\<lambda>n p. True) (\<lambda>n. True))
     [PAdd demo_map, PAdd (demo_map\<lparr>pm_TaskID := ''u''\<rparr>), PRestart] demo_pmw))))"
proof -
  have "pw_mappings demo_pmw = []" "pw_file demo_pmw = None" by (simp_all add: demo_pmw_def)
  from conjunct1 [OF portmap_unique [OF this refl]] show ?thesis .
qed

lemma last_port:
  assumes "\<forall>x \<in> set ms. port_key x \<noteq> port_key m"
  shows "find (\<lambda>ex. port_key ex = port_key m) (ms @ [m]) = Some m" "drop_port (port_key m) (ms @ [m]) = ms"
  using assms by (induction ms) auto

lemma save_frame: "save wr w = (e, w1) \<Longrightarrow> pw_mappings w1 = pw_mappings w \<and> pw_host w1 = pw_host w"
  by (auto simp: save_def Let_def split: if_splits)

lemma mappings_of_simps:
  "mappings_of (AList.update t ms r) t' = (if t' = t then ms else mappings_of r t')"
  "mappings_of (AList.delete t r) t' = (if t' = t then [] else mappings_of r t')"
  by (simp_all add: mappings_of_def gomap_simps)

lemma mappings_of_sub: "gomap_ok r \<Longrightarrow> set (mappings_of r t) \<subseteq> set (all_mappings r)"
  by (cases "map_of r t") (auto simp: mappings_of_def set_all intro!: exI)

text \<open>
  C17: Publishing a port and withdrawing it again leaves no trace: when both succeed, the host has the same
  rules as before and the registry lists the same mappings of every task.
\<close>

theorem portmap_roundtrip:
  assumes "pm_ok v6 w" "ipt_ok ipt rules" "AddPortMapping v6 ipt lst wr m w = (None, w1)"
    "DeletePortMapping ipt wr' (pm_TaskID m) (pm_HostPort m) (pm_Protocol m) w1 = (None, w2)"
  shows "mset (rules (pw_host w2)) = mset (rules (pw_host w)) \<and> (\<forall>t. mappings_of (pw_mappings w2) t = mappings_of (pw_mappings w) t)"
  using assms(3)
proof (cases rule: Add_cases)
  case kept
  then show ?thesis by simp
next
  case (added w3)
  define n t where "n = norm_proto m" and "t = pm_TaskID m"
  have g: "gomap_ok (pw_mappings w)" using assms(1) by (simp add: pm_ok_def reg_ok_def)
  have n: "pm_TaskID n = t" "(if pm_Protocol m = '''' then ''tcp'' else pm_Protocol m, pm_HostPort m) = port_key n"
    by (simp_all add: n_def t_def norm_proto_def port_key_def)
  have w1: "pw_mappings w1 = AList.update t (mappings_of (pw_mappings w) t @ [n]) (pw_mappings w)" "pw_host w1 = pw_host w3"
    using save_frame [OF added(6)] added(4) n(1) by (simp_all add: n_def)
  then have ms: "mappings_of (pw_mappings w1) t = mappings_of (pw_mappings w) t @ [n]" by (simp add: mappings_of_simps)
  have fresh: "\<forall>x \<in> set (mappings_of (pw_mappings w) t). port_key x \<noteq> port_key n"
    using added(2) mappings_of_sub [OF g] unfolding n_def by blast
  note lp = last_port [OF fresh]
  obtain c h1 where dr: "delete_rules ipt (rules_for n False) (pw_host w1) = (c, h1)" by (metis surj_pair)
  have c: "c = None" and w2: "pw_host w2 = h1" "pw_mappings w2 = (if mappings_of (pw_mappings w) t = []
      then AList.delete t (pw_mappings w1) else AList.update t (mappings_of (pw_mappings w) t) (pw_mappings w1))"
    using assms(4) dr unfolding DeletePortMapping_def Let_def n(2) t_def [symmetric] ms lp
    by (auto simp: stopIngressProxy_def dest!: save_frame split: option.splits if_splits)
  have pl: "\<forall>sp \<in> set (specs_for n). plain_spec sp" using specs_plain added(1) by (auto simp: n_def)
  have "rules (pw_host w3) = rules (pw_host w) @ specs_for n"
    using apply_specs [OF assms(2) pl, of "pw_host w" None "pw_host w3"] added(3) by (simp add: n_def rules_for_specs act_of_def)
  moreover have "mset (rules h1) = mset (rules (pw_host w3)) - mset (specs_for n)"
    using delete_specs [OF assms(2) pl, of "pw_host w1" h1] dr c w1(2) by (simp add: rules_for_specs act_of_def)
  ultimately have "mset (rules (pw_host w2)) = mset (rules (pw_host w))" by (simp add: w2(1))
  moreover have "mappings_of (pw_mappings w2) t' = mappings_of (pw_mappings w) t'" for t'
    using w1(1) w2(2) by (auto simp: mappings_of_simps)
  ultimately show ?thesis by blast
qed

lemma demo_plain: "\<forall>sp \<in> set (portMapSpecs demo_map). plain_spec sp"
  using specs_plain [OF demo_map_facts(1)] demo_map_facts(3) by (auto simp: specs_for_def)

lemma ipt_list_to_cmd:
  assumes "plain_spec sp"
  shows "ipt_list refuse (to_cmd ''-A'' sp) h = (if refuse sp then (2, h) else (0, h @ [sp]))"
    "ipt_list refuse (to_cmd ''-C'' sp) h = (if sp \<in> set h then 0 else 1, h)"
    "ipt_list refuse (to_cmd ''-D'' sp) h = (if sp \<in> set h then (0, remove1 sp h) else (1, h))"
  using assms unfolding to_cmd_def plain_spec_def by (simp_all add: ipt_list_cmd)

lemma apply_list: "\<forall>sp \<in> set sps. plain_spec sp \<and> \<not> refuse sp \<Longrightarrow> apply_rules (ipt_list refuse) (map (to_cmd ''-A'') sps) h = (None, h @ sps)"
  by (induction sps arbitrary: h) (simp_all add: runIptables_def ipt_list_to_cmd)

lemma delete_list: "\<forall>sp \<in> set sps. plain_spec sp \<Longrightarrow> fst (delete_rules (ipt_list refuse) (map (to_cmd ''-D'') sps) h) = None"
proof (induction sps arbitrary: h)
  case (Cons sp sps)
  then have "fst (runIptablesDelete (ipt_list refuse) (to_cmd ''-D'' sp) h) = None"
    by (simp add: runIptablesDelete_def runIptables_def to_check_cmd ipt_list_to_cmd)
  then show ?case using Cons by (cases "runIptablesDelete (ipt_list refuse) (to_cmd ''-D'' sp) h") auto
qed simp

definition demo_published :: "(string list \<times> string list) list pmw" where
  "demo_published = demo_pmw\<lparr>pw_mappings := [(''t'', [demo_map])], pw_file := Some [demo_map], pw_ops := 1, pw_host := portMapSpecs demo_map\<rparr>"

lemma demo_add: "AddPortMapping v6 (ipt_list (\<lambda>sp. False)) lst (\<lambda>n. True) demo_map demo_pmw = (None, demo_published)"
proof -
  have "apply_rules (ipt_list (\<lambda>sp. False)) (rules_for demo_map True) [] = (None, portMapSpecs demo_map)"
    using demo_plain demo_map_facts(3) apply_list [of "portMapSpecs demo_map" "\<lambda>sp. False" "[]"]
    by (simp add: rules_for_specs specs_for_def act_of_def)
  then show ?thesis
    unfolding AddPortMapping_def norm_proto_def [symmetric] demo_map_facts(2) Let_def
    by (simp add: demo_map_facts(1,3,4) demo_pmw_def demo_published_def all_mappings_def mappings_of_def save_def)
qed

lemma demo_delete: "\<exists>w2. DeletePortMapping (ipt_list (\<lambda>sp. False)) (\<lambda>n. True) ''t'' 8080 ''tcp'' demo_published = (None, w2)"
proof -
  obtain h1 where "delete_rules (ipt_list (\<lambda>sp. False)) (rules_for demo_map False) (portMapSpecs demo_map) = (None, h1)"
    using delete_list [OF demo_plain, of "\<lambda>sp. False" "portMapSpecs demo_map"] demo_map_facts(3)
    by (cases "delete_rules (ipt_list (\<lambda>sp. False)) (rules_for demo_map False) (portMapSpecs demo_map)")
      (auto simp: rules_for_specs specs_for_def act_of_def)
  then show ?thesis
    by (simp add: DeletePortMapping_def Let_def mappings_of_def demo_published_def demo_pmw_def demo_map_facts save_def)
qed

theorem portmap_roundtrip_witness:
  "\<exists>w1 w2. AddPortMapping (\<lambda>s. False) (ipt_list (\<lambda>sp. False)) (\<lambda>n p. True) (\<lambda>n. True) demo_map demo_pmw = (None, w1) \<and>
     DeletePortMapping (ipt_list (\<lambda>sp. False)) (\<lambda>n. True) ''t'' 8080 ''tcp'' w1 = (None, w2) \<and> pw_host w1 \<noteq> [] \<and> pw_host w2 = []"
proof -
  obtain w2 where d: "DeletePortMapping (ipt_list (\<lambda>sp. False)) (\<lambda>n. True) ''t'' 8080 ''tcp'' demo_published = (None, w2)"
    using demo_delete by blast
  have "pm_ok (\<lambda>s. False) demo_pmw" by (simp add: demo_pmw_def pm_ok_def reg_ok_def all_mappings_def)
  from portmap_roundtrip [OF this ipt_list_ok demo_add, of "\<lambda>n. True" w2] d have "mset (pw_host w2) = mset (pw_host demo_pmw)"
    by (simp add: demo_map_def)
  then show ?thesis using demo_add d by (auto simp: demo_pmw_def demo_published_def portMapSpecs_def Let_def)
qed

text \<open>
  C40: A mapping that cannot be published completely stays half published. When a rule or the proxy's
  listener fails, \<^verbatim>\<open>AddPortMapping\<close> reports an error and records nothing, but its roll-back hands the append
  commands to the deletion routine, whose check for the rule is then an append as well: every rule that
  was installed is still there, behind the rules of before.
\<close>

theorem portmap_rollback_keeps_rules:
  assumes "ipt_ok ipt rules" "AddPortMapping v6 ipt lst wr m w = (Some e, w1)" "e = ''apply port mapping'' \<or> e = ''ingress listen''"
    "apply_rules ipt (take k (rules_for (norm_proto m) True)) (pw_host w) = (None, h)"
  shows "pw_mappings w1 = pw_mappings w \<and>
    (\<exists>extra. rules (pw_host w1) = rules (pw_host w) @ take k (specs_for (norm_proto m)) @ extra)"
proof -
  let ?m = "norm_proto m" and ?sps = "specs_for (norm_proto m)"
  note run = assms(2) [unfolded AddPortMapping_def norm_proto_def [symmetric] Let_def]
  have nv: "validatePortMapping v6 ?m \<noteq> Some e" using assms(3) by (auto simp: validatePortMapping_def split: if_splits)
  then have v: "validatePortMapping v6 ?m = None" using run by (cases "validatePortMapping v6 ?m") auto
  have pl: "\<forall>sp \<in> set ?sps. plain_spec sp" using specs_plain [OF v] by blast
  obtain c h1 where a: "apply_rules ipt (rules_for ?m True) (pw_host w) = (c, h1)" by (metis surj_pair)
  have "\<exists>x. rules h1 = rules (pw_host w) @ take k ?sps @ x"
    using apply_specs [OF assms(1) pl, of "pw_host w" c h1] a assms(4) by (simp add: rules_for_specs act_of_def take_map)
  moreover have "\<exists>y. rules (delete_all ipt (rules_for ?m True) h1) = rules h1 @ y"
    using undo_specs [OF assms(1) pl, of h1] by (simp add: rules_for_specs act_of_def)
  moreover have "pw_host w1 = delete_all ipt (rules_for ?m True) h1 \<and> pw_mappings w1 = pw_mappings w"
    using run assms(3) v a
    by (auto simp: startIngressProxy_def save_def Let_def split: option.splits if_splits)
  ultimately show ?thesis by auto
qed

text \<open>The host refuses the rule of the FORWARD chain: the two DNAT rules are installed three times each.\<close>

theorem portmap_rollback_keeps_rules_witness:
  "\<exists>e w1 extra. AddPortMapping (\<lambda>s. False) (ipt_list (\<lambda>sp. fst sp = [])) (\<lambda>n p. True) (\<lambda>n. True) demo_map demo_pmw = (Some e, w1) \<and>
     pw_mappings w1 = [] \<and> pw_host w1 = take 2 (portMapSpecs demo_map) @ extra"
proof -
  let ?ipt = "ipt_list (\<lambda>sp. fst sp = [])"
  obtain a b c where sps: "portMapSpecs demo_map = [a, b, c]" "fst a \<noteq> []" "fst b \<noteq> []" "fst c = []"
    by (simp add: portMapSpecs_def Let_def)
  then have pl: "plain_spec a" "plain_spec b" "plain_spec c" using demo_plain by simp_all
  have rs: "rules_for demo_map True = [to_cmd ''-A'' a, to_cmd ''-A'' b, to_cmd ''-A'' c]"
    using sps demo_map_facts(3) by (simp add: rules_for_specs specs_for_def act_of_def)
  have ap: "apply_rules ?ipt (rules_for demo_map True) [] = (Some 2, [a, b])"
    "apply_rules ?ipt (take 2 (rules_for demo_map True)) [] = (None, [a, b])"
    using sps pl by (simp_all add: rs runIptables_def ipt_list_to_cmd)
  obtain w1 where w1: "AddPortMapping (\<lambda>s. False) ?ipt (\<lambda>n p. True) (\<lambda>n. True) demo_map demo_pmw = (Some ''apply port mapping'', w1)"
    unfolding AddPortMapping_def norm_proto_def [symmetric] demo_map_facts(2) Let_def
    using ap(1) by (simp add: demo_map_facts(1) demo_pmw_def all_mappings_def)
  from portmap_rollback_keeps_rules [OF ipt_list_ok w1, of 2 "[a, b]"] ap(2)
  have "pw_mappings w1 = [] \<and> (\<exists>extra. pw_host w1 = take 2 (portMapSpecs demo_map) @ extra)"
    using demo_map_facts(2,3) by (simp add: demo_pmw_def specs_for_def)
  then show ?thesis using w1 by blast
qed

end
