(* ===== verification/Spec2Isabelle.thy ===== *)
theory Spec2Isabelle
  imports Uidalloc Ipam LedgerRuns Policy Qcow2Compact Qcow2Live VuServer PortMap
begin

text \<open>
  PVM runs untrusted agents in User-Mode Linux sandboxes. This development models the parts of its host
  side (\<^verbatim>\<open>src/internal\<close>) on which the isolation of a sandbox, its disk and its audit trail rest, and proves
  what each of them promises.

  \<^bold>\<open>Parts and how they interact.\<close> A sandbox gets a range of host user ids (\<^verbatim>\<open>uidalloc\<close>) and an address on
  its bridge (\<^verbatim>\<open>network/ipam.go\<close>), to which host ports can be forwarded (\<^verbatim>\<open>network/portmap.go\<close>). Its disk is
  a qcow2 overlay over a shared base image (\<^verbatim>\<open>cow\<close>), which a vhost-user server in the same process serves to
  the guest over shared memory (\<^verbatim>\<open>vhost/vu\<close>). Every tool call of the agent goes through the tool gateway
  (\<^verbatim>\<open>policy\<close>), which asks the approval gate (\<^verbatim>\<open>approval\<close>) where the policy says so, and leaves redacted
  records in the audit ledger (\<^verbatim>\<open>audit\<close>).

  \<^bold>\<open>Theories.\<close>
  \<^item> \<open>Prelude\<close>: Go results (\<open>Ok\<close>, \<open>Err\<close>, \<open>Panic\<close>), Go maps as association lists, and the interfaces
    \<open>slot_owner\<close> (who holds which slot) and \<open>claim_store\<close> (what is claimed at most once). \<open>Bytes\<close>, \<open>Text\<close> and
    \<open>Json\<close>: the parts of \<^verbatim>\<open>encoding/binary\<close>, \<^verbatim>\<open>strings\<close>, \<^verbatim>\<open>strconv\<close> and \<^verbatim>\<open>encoding/json\<close> the sources use.
  \<^item> \<open>Uidalloc\<close>: \<^verbatim>\<open>uidalloc/uidalloc.go\<close>, the table file and the allocator over it. Ranges held at the same
    time are disjoint, an allocation returns the lowest free range, a holder keeps its slot; a failed write
    of the table can hand a range out twice.
  \<^item> \<open>Ipam\<close>: \<^verbatim>\<open>network/ipam.go\<close>. Addresses are distinct, inside the subnet and never the network, broadcast or
    gateway address; a free address is found whenever there is one, but for the scan at the end of the address
    space.
  \<^item> \<open>Redact\<close>, \<open>Ledger\<close>, \<open>LedgerRuns\<close>: \<^verbatim>\<open>audit/redact.go\<close>, \<^verbatim>\<open>ledger.go\<close> and \<^verbatim>\<open>signing.go\<close>. Scrubbing leaves no
    secret key readable; a ledger written by any interleaving of handles verifies, an accepted file carries
    the records that were written or exhibits a collision of the hash (the interface \<open>hash_chain\<close>), a cut-off
    tail is reported. What the checks let pass is shown too.
  \<^item> \<open>Approval\<close>, \<open>Policy\<close>: \<^verbatim>\<open>approval/manager.go\<close>, \<^verbatim>\<open>store.go\<close>, \<^verbatim>\<open>policy/gateway.go\<close> and the executors. A ticket is
    claimed at most once, only after it was approved and only for its call; a decision is final; a gateway
    call is executed only if the first matching rule allows it or an approval was consumed for it.
  \<^item> \<open>Qcow2Layout\<close>, \<open>Qcow2Image\<close>: the sizes of a new image, and \<^verbatim>\<open>ReadAt\<close>, \<^verbatim>\<open>WriteAt\<close>, copy-on-write, cluster
    allocation and refcounts of \<^verbatim>\<open>cow/qcow2.go\<close> and \<^verbatim>\<open>qcow2_write.go\<close> as a state monad over the image and its
    host file. \<open>Qcow2Inv\<close>, \<open>Qcow2Alloc\<close>, \<open>Qcow2Refine\<close>, \<open>Qcow2Write\<close>, \<open>Qcow2Flat\<close>: the invariant \<open>img_wf\<close> (every
    host cluster has one role), kept by every operation, and the refinement of a flat disk: \<open>content\<close> is the
    guest's view. \<open>Qcow2Live\<close>: a write fails only for a failing host or a full refcount table.
  \<^item> \<open>CowRoots\<close>, \<open>Qcow2Open\<close>, \<open>Qcow2Create\<close>, \<open>Qcow2Trip\<close>, \<open>Qcow2Meta\<close>: where backing files may live
    (\<^verbatim>\<open>cow/manager.go\<close>), opening a chain of images, creating one, and that a created image opens again as a
    well-formed disk; metadata ranges and the zero test.
  \<^item> \<open>Qcow2Convert\<close>, \<open>Qcow2Compact\<close>: \<^verbatim>\<open>cow/convert.go\<close> and \<^verbatim>\<open>qcow2_compact.go\<close>. A conversion or compaction that
    succeeds yields an image with the same guest bytes. \<open>image_source\<close> is the interface to what is read.
  \<^item> \<open>VuMem\<close>, \<open>VuRing\<close>, \<open>VuBlk\<close>, \<open>VuServer\<close>: \<^verbatim>\<open>vhost/vu\<close>. Guest memory as mappings that exist or not, with a
    guest that may rewrite it before every access; virtqueues; the block device over the interface \<open>blk_store\<close>
    (qcow2, raw and read-only storage); the messages of a session and the interleavings of its threads as a
    step relation. No interleaving faults for frontends that keep the ring consistent; a request is served as
    by a flat disk.
  \<^item> \<open>PortMap\<close>: \<^verbatim>\<open>network/portmap.go\<close> and the table of proxies of \<^verbatim>\<open>ingress.go\<close>. No host port is published twice;
    publishing a port and withdrawing it restores the rules of the host. The roll-back of a failed addition
    is shown to leave its rules behind.
  \<^item> This theory: the composition from creating an overlay to what the guest reads back over virtio.

  \<^bold>\<open>Correspondence.\<close> Definitions carry the names of the functions and types they translate; where one function
  is several definitions (a loop and its body, the phases of a call), they carry its name as a prefix or stand
  next to it. Structs are records, with a prefix per record on the fields; errors are values, and a Go panic,
  a fault on unmapped memory included, is \<open>Panic\<close>. Code outside the sources is a parameter: which host
  operations succeed (\<open>im_io\<close>, \<open>io\<close>), \<^verbatim>\<open>mmap\<close> and \<^verbatim>\<open>dup\<close> (\<open>mm\<close>, \<open>dup\<close>), the hash and the signature of the ledger,
  symbolic links and files of the host (\<open>env\<close>), \<^verbatim>\<open>iptables\<close> (\<open>ipt\<close>), executors, clocks. A failing write leaves its file as it was.

  \<^bold>\<open>Bounds and loops.\<close> Loops are functions with a termination proof; none runs on fuel that the code does not
  have. The walk over a descriptor chain counts descriptors as the code does (twice the ring size plus one),
  a batch is at most \<open>pumpMaxBatch\<close> requests, opening a chain is bounded by the depth the code allows. The
  refcount loop ends because every new block is appended and the table is finite. Integers are words where
  they wrap (user ids, addresses) and natural numbers with the bounds of the format where they cannot.

  \<^bold>\<open>Not modelled.\<close> HTTP servers and clients, process, mount, cgroup, seccomp and network control of the host,
  TLS proxying, DNS, snapshots, templates, volumes, S3 and image downloads: calls into the host or into
  third-party packages with little logic of their own. Of \<^verbatim>\<open>vhost/vu\<close>, accepting connections and the passing of
  descriptors over sockets; of \<^verbatim>\<open>cow\<close>, the engine's directory listings. Torn writes of a crashing host are not
  modelled. In the block device, buffers are fresh, not pooled.
\<close>

section \<open>From a new overlay to the guest\<close>

text \<open>The status byte, the type, the disk offset and the data of a request.\<close>

definition req_status :: "vst \<Rightarrow> elem \<Rightarrow> u8" where
  "req_status m e = sl_data (vs_mem m) (last (el_in e)) ! 0"

definition req_type :: "vst \<Rightarrow> elem \<Rightarrow> nat" where
  "req_type m e = le_fld 4 0 (sl_data (vs_mem m) (hd (el_out e))) mod 2 ^ 31"

definition req_off :: "vst \<Rightarrow> elem \<Rightarrow> nat" where
  "req_off m e = le_fld 8 8 (sl_data (vs_mem m) (hd (el_out e))) * 512"

lemma status_OK:
  assumes "status < 256" "(word_of_nat status :: u8) = 0"
  shows "status = blkSOK"
proof -
  have "unat (word_of_nat status :: u8) = status" using assms(1) by (simp add: unat_of_nat)
  then show ?thesis using assms(2) by (simp add: blkSOK_def)
qed

lemma process_shape:
  assumes "sg_ok (shape (vs_mem s)) e" "process quiet be ro e b s = (r, s1)"
  shows "shape (vs_mem s1) = shape (vs_mem s)"
  using process_ok [OF quiet_ok assms(1), of be ro b] assms(2) unfolding vok_def by blast

lemma sl_data_kept:
  assumes "shape m1 = shape m" "live (shape m) t" "\<And>x. covers t (sl_map t) x \<Longrightarrow> mbyte m1 (sl_map t) x = mbyte m (sl_map t) x"
  shows "sl_data m1 t = sl_data m t"
proof -
  obtain d d1 where d: "m (sl_map t) = Some d" "m1 (sl_map t) = Some d1" "length d1 = length d" "sl_off t + sl_len t \<le> length d"
    using assms(1,2) by (auto simp: live_def shape_def dest!: fun_cong [of _ _ "sl_map t"])
  have "d1 ! (sl_off t + k) = d ! (sl_off t + k)" if "k < sl_len t" for k
    using assms(3) [of "sl_off t + k"] d that by (simp add: covers_def mbyte_def)
  then show ?thesis using d by (auto simp: sl_data_def intro!: nth_equalityI)
qed

text \<open>
  C2: An overlay from creation to the guest. A new image is created over a backing file, opened and
  served over virtio-blk; the guest writes and then reads, anywhere on the disk. If both requests report
  success, the read returns the bytes just written where it overlaps the write, and the bytes of the
  backing file elsewhere.
\<close>

theorem created_disk_over_virtio:
  assumes "createQcow2 io vs backing fmt opt d0 = (Ok (), hf_data f)" "e_fs env p = Some f"
    "opened_backing env p f backing fmt b"
    "bits = (if oo_ClusterBits opt = 0 then clusterBits else oo_ClusterBits opt)" "bits \<le> 16"
    "vs \<le> 2 ^ 23 * (2 ^ bits div 8 * 2 ^ bits)"
    "case b of None \<Rightarrow> \<forall>g. bk g = 0 | Some (q, img) \<Rightarrow> backs (reader img) bk"
    "OpenWritable env (e_fs env) io' p = Ok (BQcow s)"
    "sg_ok (shape (vs_mem m)) w" "apart (el_in w)" "req_type m w = blkTOut"
    "process quiet qcow2Writable False w s m = (Ok (u1, s1), m1)"
    "sg_ok (shape (vs_mem m)) r" "apart (el_in r)" "req_type m1 r = blkTIn"
    "process quiet qcow2Writable False r s1 m1 = (Ok (u2, s2), m2)"
    "data = sg_data (vs_mem m) (tl (el_out w))"
  shows "req_status m1 w = 0 \<and> req_status m2 r = 0 \<longrightarrow> sg_data (vs_mem m2) (butlast (el_in r)) =
    map (\<lambda>g. if req_off m w \<le> g \<and> g < req_off m w + length data then data ! (g - req_off m w) else bk g)
      [req_off m1 r..<req_off m1 r + sgLen (butlast (el_in r))]"
proof (intro impI)
  assume ok: "req_status m1 w = 0 \<and> req_status m2 r = 0"
  have d: "\<exists>role. img_wf role s" "im_size s = vs" "im_backing s = map_option (reader \<circ> snd) b" "\<And>bytes g. g < vs \<Longrightarrow> content bytes s g = bytes g"
    using created_writable [OF assms(1-6), of io'] assms(8) by auto
  have "bk_ok bk s" using assms(7) d(3) by (auto simp: bk_ok_def split: option.splits)
  then have i: "image_inv bk vs s" using d(1,2) by (simp add: image_inv_def)
  obtain st1 where st1: "req_status m1 w = word_of_nat st1" "st1 < 256"
    and w: "served (image_inv bk vs) (content bk) vs False blkTOut (req_off m w) data (sgLen (butlast (el_in w))) s s1 st1
      (sg_data (vs_mem m1) (butlast (el_in w)))"
    using q_store.process_served [OF i assms(9,10,12) refl] assms(11) unfolding req_status_def req_type_def req_off_def assms(17) by auto
  have st1: "st1 = blkSOK" using status_OK st1 ok by simp
  have i1: "image_inv bk vs s1" using w by (simp add: served_def)
  have m1: "sg_ok (shape (vs_mem m1)) r" using assms(13) process_shape [OF assms(9,12)] by simp
  obtain st2 where st2: "req_status m2 r = word_of_nat st2" "st2 < 256"
    and r: "served (image_inv bk vs) (content bk) vs False blkTIn (req_off m1 r) (sg_data (vs_mem m1) (tl (el_out r)))
      (sgLen (butlast (el_in r))) s1 s2 st2 (sg_data (vs_mem m2) (butlast (el_in r)))"
    using q_store.process_served [OF i1 m1 assms(14,16) refl] assms(15) unfolding req_status_def req_type_def req_off_def by auto
  have st2: "st2 = blkSOK" using status_OK st2 ok by simp
  have r2: "req_off m1 r + sgLen (butlast (el_in r)) \<le> vs"
    "sg_data (vs_mem m2) (butlast (el_in r)) = map (content bk s1) [req_off m1 r..<req_off m1 r + sgLen (butlast (el_in r))]"
    using r st2 by (simp_all add: served_def)
  have "content bk s1 g = (if req_off m w \<le> g \<and> g < req_off m w + length data then data ! (g - req_off m w) else bk g)" if "g < vs" for g
    using w st1 that d(4) [OF that, of bk] by (auto simp: served_def)
  then show "sg_data (vs_mem m2) (butlast (el_in r)) =
    map (\<lambda>g. if req_off m w \<le> g \<and> g < req_off m w + length data then data ! (g - req_off m w) else bk g)
      [req_off m1 r..<req_off m1 r + sgLen (butlast (el_in r))]" unfolding r2(2) using r2(1) by simp
qed

text \<open>A write of four bytes to sector 0 in one mapping and a read of eight bytes in another.\<close>

definition demo_slice_in :: "nat \<Rightarrow> nat \<Rightarrow> nat \<Rightarrow> gslice" where
  "demo_slice_in i off n = \<lparr>sl_map = i, sl_off = off, sl_len = n, sl_cap = 32 - off\<rparr>"

definition demo_write :: elem where
  "demo_write = \<lparr>el_head = 0, el_out = [demo_slice_in 0 0 16, demo_slice_in 0 16 4], el_in = [demo_slice_in 0 20 1], el_raw = []\<rparr>"

definition demo_read :: elem where
  "demo_read = \<lparr>el_head = 2, el_out = [demo_slice_in 1 0 16], el_in = [demo_slice_in 1 16 8, demo_slice_in 1 24 1], el_raw = []\<rparr>"

definition demo_two :: vst where
  "demo_two = \<lparr>vs_mem = [0 \<mapsto> 1 # replicate 15 0 @ [5, 6, 7, 8] @ replicate 12 255, 1 \<mapsto> replicate 32 0],
     vs_tick = 0, vs_next = 2, vs_closed = []\<rparr>"

lemmas demo_two_defs = demo_two_def demo_write_def demo_read_def demo_slice_in_def

lemma demo_two_facts:
  "sg_ok (shape (vs_mem demo_two)) demo_write" "apart (el_in demo_write)" "sg_ok (shape (vs_mem demo_two)) demo_read" "apart (el_in demo_read)"
  "sl_data (vs_mem demo_two) (hd (el_out demo_write)) = 1 # replicate 15 0" "sl_data (vs_mem demo_two) (hd (el_out demo_read)) = replicate 16 0"
  "sg_data (vs_mem demo_two) (tl (el_out demo_write)) = [5, 6, 7, 8]"
  by (auto simp: sg_ok_def live_def shape_def demo_two_defs apart_def covers_def sl_data_def sg_data_def)

theorem created_disk_over_virtio_witness:
  "\<exists>d s u1 s1 m1 u2 s2 m2. OpenWritable (demo_env d) (e_fs (demo_env d)) (\<lambda>n. True) [''i'', ''o''] = Ok (BQcow s) \<and>
     process quiet qcow2Writable False demo_write s demo_two = (Ok (u1, s1), m1) \<and>
     process quiet qcow2Writable False demo_read s1 m1 = (Ok (u2, s2), m2) \<and>
     (req_status m1 demo_write = 0 \<and> req_status m2 demo_read = 0 \<longrightarrow>
        sg_data (vs_mem m2) [demo_slice_in 1 16 8] = [5, 6, 7, 8, 0, 0, 0, 0])"
proof -
  obtain d where d: "createQcow2 (\<lambda>n. True) 32768 ''/i/b'' ''raw'' demo_opt [] = (Ok (), hf_data (demo_file d))"
    using demo_created by (auto simp: demo_fs)
  have b: "(if oo_ClusterBits demo_opt = 0 then clusterBits else oo_ClusterBits demo_opt) = 9" by (simp add: demo_opt_def)
  obtain s where s: "OpenWritable (demo_env d) (e_fs (demo_env d)) (\<lambda>n. True) [''i'', ''o''] = Ok (BQcow s)"
    using created_writable [OF d demo_fs(1) demo_backing b [symmetric], of "\<lambda>n. True"] by auto
  obtain u1 s1 m1 where w: "process quiet qcow2Writable False demo_write s demo_two = (Ok (u1, s1), m1)"
    using process_returns [OF quiet_ok demo_two_facts(1), of qcow2Writable False s] by (auto simp: demo_write_def demo_slice_in_def)
  have sh: "shape (vs_mem m1) = shape (vs_mem demo_two)" by (rule process_shape [OF demo_two_facts(1) w])
  obtain u2 s2 m2 where r: "process quiet qcow2Writable False demo_read s1 m1 = (Ok (u2, s2), m2)"
    using process_returns [OF quiet_ok, of m1 demo_read qcow2Writable False s1] demo_two_facts(3) sh by (auto simp: demo_read_def demo_slice_in_def)
  have "mbyte (vs_mem m1) 1 x = mbyte (vs_mem demo_two) 1 x" for x
    using process_only [OF demo_two_facts(1), of qcow2Writable False s] w unfolding only_def
    by (auto simp: covers_def demo_write_def demo_slice_in_def)
  then have h: "sl_data (vs_mem m1) (hd (el_out demo_read)) = replicate 16 0"
    using sl_data_kept [OF sh, of "hd (el_out demo_read)"] demo_two_facts(3,6) by (simp add: sg_ok_def demo_read_def demo_slice_in_def)
  have z: "le_get (replicate n 0) = 0" for n by (induction n) simp_all
  have t: "req_type demo_two demo_write = blkTOut" "req_off demo_two demo_write = 0" "req_type m1 demo_read = blkTIn" "req_off m1 demo_read = 0"
    unfolding req_type_def req_off_def demo_two_facts(5) h le_fld_def drop_replicate take_replicate z
    by (simp_all add: blkTOut_def blkTIn_def z)
  have bk: "case Some ([''i'', ''b''], GRaw demo_base) of None \<Rightarrow> \<forall>g. fb [1, 2, 3, 4] g = 0 | Some (q, img) \<Rightarrow> backs (reader img) (fb [1, 2, 3, 4])"
    using raw_image.serves by (simp add: demo_base_def)
  from created_disk_over_virtio [OF d demo_fs(1) demo_backing b [symmetric] _ _ bk s demo_two_facts(1,2) t(1) w demo_two_facts(3,4) t(3) r
      demo_two_facts(7) [symmetric]]
  have "req_status m1 demo_write = 0 \<and> req_status m2 demo_read = 0 \<longrightarrow>
      sg_data (vs_mem m2) (butlast (el_in demo_read)) =
      map (\<lambda>g. if g < 4 then [5, 6, 7, 8] ! g else fb [1, 2, 3, 4] g) [0..<sgLen (butlast (el_in demo_read))]"
    unfolding t by simp
  moreover have "butlast (el_in demo_read) = [demo_slice_in 1 16 8]" "sgLen [demo_slice_in 1 16 8] = 8"
    by (simp_all add: demo_read_def sgLen_def demo_slice_in_def)
  moreover have "map (\<lambda>g. if g < 4 then [5, 6, 7, 8] ! g else fb [1, 2, 3, 4] g) [0..<8] = [5, 6, 7, 8, 0, 0, 0, 0]"
    by (simp add: upt_rec fb_def)
  ultimately have "req_status m1 demo_write = 0 \<and> req_status m2 demo_read = 0 \<longrightarrow>
      sg_data (vs_mem m2) [demo_slice_in 1 16 8] = [5, 6, 7, 8, 0, 0, 0, 0]" by metis
  then show ?thesis using s w r by blast
qed

end
